(* ===== verification/Prelude.thy ===== *)
theory Prelude
  imports Main "HOL-Library.Word" "HOL-Library.Multiset"
begin

text \<open>
  Shared vocabulary of the development: machine widths, time, the outcome of code that may
  block or hit undefined behaviour, comparators as strict weak orders, and the list and
  multiset lemmas the component theories rely on.
\<close>

section \<open>Types\<close>

text \<open>Fixed-width integers are words. Time points and durations of the steady clock are
  counts of nanoseconds (their 64-bit range is 292 years, and no wrap-around of it is used by
  the code); a task is referred to by its address, written as a number.\<close>

type_synonym u8 = "8 word"
type_synonym u32 = "32 word"
type_synonym u64 = "64 word"
type_synonym TimePoint = int
type_synonym Duration = int
type_synonym tid = nat

named_theorems sched_simps \<open>definitions unfolded in the scheduler proofs\<close>

section \<open>Outcomes\<close>

text \<open>The result of a routine: a value, still waiting for an input of its environment
  (a clock reading or a wake-up), or a fault, where the C++ program has undefined behaviour,
  fails an assertion, spins forever on a lock its own thread holds, lets an exception escape,
  destroys the links of an object that is on an intrusive list, uses memory it has released, or ends the process.\<close>

datatype fault = OutOfBounds | NullDeref | DivByZero | AssertFailed | Deadlock | Uncaught | BrokenList
  | Dangling | ProcessExit

datatype 'a outcome = Ok 'a | Blocked | Fault fault

fun obind :: "'a outcome \<Rightarrow> ('a \<Rightarrow> 'b outcome) \<Rightarrow> 'b outcome" where
  "obind (Ok x) f = f x"
| "obind Blocked f = Blocked"
| "obind (Fault e) f = Fault e"

lemma obind_eq_Ok [simp]: "obind m f = Ok y \<longleftrightarrow> (\<exists>x. m = Ok x \<and> f x = Ok y)"
  by (cases m) auto

lemma obind_eq_Fault: "obind m f = Fault e \<longleftrightarrow> m = Fault e \<or> (\<exists>x. m = Ok x \<and> f x = Fault e)"
  by (cases m) auto

text \<open>An operation over a list of arguments, stopping at the first that does not return.\<close>

fun each :: "('a \<Rightarrow> 'w \<Rightarrow> 'w outcome) \<Rightarrow> 'a list \<Rightarrow> 'w \<Rightarrow> 'w outcome" where
  "each f [] w = Ok w"
| "each f (x # xs) w = obind (f x w) (each f xs)"

lemma obind_assoc: "obind (obind m f) g = obind m (\<lambda>x. obind (f x) g)"
  by (cases m) auto

section \<open>Transition systems\<close>

text \<open>An invariant of the initial states that every step keeps holds in every reachable state.\<close>

locale invariant_system =
  fixes init :: "'s \<Rightarrow> bool" and step :: "'s \<Rightarrow> 's \<Rightarrow> bool" and inv :: "'s \<Rightarrow> bool"
  assumes inv_init: "init s \<Longrightarrow> inv s"
    and inv_step: "step s s' \<Longrightarrow> inv s \<Longrightarrow> inv s'"
begin

lemma reachable_inv: "init s \<Longrightarrow> step\<^sup>*\<^sup>* s s' \<Longrightarrow> inv s'"
proof -
  assume "init s" and r: "step\<^sup>*\<^sup>* s s'"
  from r show "inv s'" by induction (use \<open>init s\<close> inv_init inv_step in blast)+
qed

end

text \<open>Systems driven by a list of events.\<close>

lemma fold_reachable: "(\<lambda>s s'. \<exists>e. s' = step e s)\<^sup>*\<^sup>* s (fold step es s)"
proof (induction es arbitrary: s)
  case Nil
  then show ?case by simp
next
  case (Cons e es)
  have "(\<lambda>s s'. \<exists>e. s' = step e s) s (step e s)" by blast
  from converse_rtranclp_into_rtranclp [OF this Cons.IH] show ?case by simp
qed

section \<open>Comparators\<close>

text \<open>What the ordered containers of the standard library and of Boost require of a
  comparator: a strict weak order.\<close>

locale strict_weak_order =
  fixes less :: "'a \<Rightarrow> 'a \<Rightarrow> bool"
  assumes swo_irrefl: "\<not> less x x"
    and swo_trans: "less x y \<Longrightarrow> less y z \<Longrightarrow> less x z"
    and swo_incomp_trans:
      "\<not> less x y \<Longrightarrow> \<not> less y x \<Longrightarrow> \<not> less y z \<Longrightarrow> \<not> less z y \<Longrightarrow> \<not> less x z \<and> \<not> less z x"
begin

lemma swo_asym: "less x y \<Longrightarrow> \<not> less y x"
  using swo_irrefl swo_trans by blast

lemma swo_negtrans: "\<not> less x y \<Longrightarrow> \<not> less y z \<Longrightarrow> \<not> less x z"
  using swo_trans swo_incomp_trans swo_asym by metis

end

text \<open>The first element of a list that no other element precedes.\<close>

fun first_min :: "('a \<Rightarrow> 'a \<Rightarrow> bool) \<Rightarrow> 'a list \<Rightarrow> 'a option" where
  "first_min lt [] = None"
| "first_min lt (x # xs) =
     (case first_min lt xs of None \<Rightarrow> Some x | Some y \<Rightarrow> if lt y x then Some y else Some x)"

lemma first_min_eq_None [simp]: "first_min lt xs = None \<longleftrightarrow> xs = []"
  by (cases xs) (auto split: option.splits)

lemma first_min_mem: "first_min lt xs = Some m \<Longrightarrow> m \<in> set xs"
  by (induction xs arbitrary: m) (auto split: option.splits if_splits)

context strict_weak_order begin

lemma first_min_minimal: "first_min less xs = Some m \<Longrightarrow> x \<in> set xs \<Longrightarrow> \<not> less x m"
proof (induction xs arbitrary: m x)
  case Nil
  then show ?case by simp
next
  case (Cons a xs)
  show ?case
  proof (cases "first_min less xs")
    case None
    with Cons.prems show ?thesis by (auto simp: swo_irrefl)
  next
    case (Some y)
    with Cons.IH have y: "\<forall>z \<in> set xs. \<not> less z y" by blast
    with Some Cons.prems show ?thesis
      by (auto split: if_splits simp: swo_irrefl dest: swo_asym swo_negtrans)
  qed
qed

end

section \<open>64-bit words\<close>

unbundle bit_operations_syntax

lemma sint_u64: "sint (t :: u64) = (if uint t < 2 ^ 63 then uint t else uint t - 2 ^ 64)"
proof -
  have s: "sint t = (uint t + 2 ^ 63) mod 2 ^ 64 - 2 ^ 63"
    by (simp add: sint_uint signed_take_bit_eq_take_bit_shift take_bit_eq_mod)
  have r: "0 \<le> uint t" "uint t < 2 ^ 64" using uint_lt2p [of t] by simp_all
  show ?thesis
  proof (cases "uint t < 2 ^ 63")
    case True
    then have "(uint t + 2 ^ 63) mod 2 ^ 64 = uint t + 2 ^ 63" using r by (intro mod_pos_pos_trivial) auto
    with True s show ?thesis by simp
  next
    case False
    have "(uint t + 2 ^ 63) mod 2 ^ 64 = (uint t - 2 ^ 63 + 2 ^ 64) mod 2 ^ 64" by (simp add: add.commute)
    also have "\<dots> = (uint t - 2 ^ 63) mod 2 ^ 64" by (rule mod_add_self2)
    also have "\<dots> = uint t - 2 ^ 63" using False r by (intro mod_pos_pos_trivial) auto
    finally show ?thesis using False s by simp
  qed
qed

lemma sle_0_u64: "0 \<le>s (t::u64) \<longleftrightarrow> uint t < 2 ^ 63"
  using uint_lt2p [of t] uint_ge_0 [of t] unfolding word_sle_eq sint_u64 [of t] by simp

lemma sless_0_u64: "0 <s (t::u64) \<longleftrightarrow> 0 < uint t \<and> uint t < 2 ^ 63"
  using uint_lt2p [of t] uint_ge_0 [of t] unfolding word_sless_alt sint_u64 [of t] by simp

lemma uint_diff_u64: "b \<le> (t :: u64) \<Longrightarrow> uint (t - b) = uint t - uint b"
  using uint_sub_lem [of b t] by (simp add: word_le_def)

section \<open>Lists and multisets\<close>

lemma drop_last: "n < length xs \<Longrightarrow> drop n xs = drop n (butlast xs) @ [last xs]"
  by (induction xs rule: rev_induct) auto

lemma take_butlast_less: "n < length xs \<Longrightarrow> take n (butlast xs) = take n xs"
  by (induction xs rule: rev_induct) auto

lemma length_filter_update:
  "i < length xs \<Longrightarrow>
   length (filter P (xs[i := x])) + (if P (xs ! i) then 1 else 0) = length (filter P xs) + (if P x then 1 else 0)"
proof (induction xs arbitrary: i)
  case Nil
  then show ?case by simp
next
  case (Cons y ys)
  then show ?case by (cases i) auto
qed

lemma length_filter_one:
  "i < length xs \<Longrightarrow> j < length xs \<Longrightarrow> i \<noteq> j \<Longrightarrow> P (xs ! i) \<Longrightarrow> P (xs ! j) \<Longrightarrow> length (filter P xs) \<ge> 2"
proof (induction xs arbitrary: i j)
  case Nil
  then show ?case by simp
next
  case (Cons y ys)
  have pos: "length (filter P ys) \<ge> 1" if "k < length ys" "P (ys ! k)" for k
    using that by (metis Suc_leI filter_empty_conv length_greater_0_conv nth_mem One_nat_def)
  show ?case
  proof (cases i)
    case 0
    then show ?thesis using Cons.prems pos [of "j - 1"] by (cases j) auto
  next
    case (Suc i')
    then show ?thesis using Cons.prems Cons.IH [of i' "j - 1"] pos [of i'] by (cases j) auto
  qed
qed

lemma length_filter_pos: "i < length xs \<Longrightarrow> P (xs ! i) \<Longrightarrow> length (filter P xs) \<ge> 1"
  by (metis Suc_leI filter_empty_conv length_greater_0_conv nth_mem One_nat_def)

lemma mset_remove1_add: "x \<in> set xs \<Longrightarrow> add_mset x (mset (remove1 x xs)) = mset xs"
  by simp

lemma mset_concat_update:
  "i < length xss \<Longrightarrow>
   mset (concat (xss[i := ys])) + mset (xss ! i) = mset (concat xss) + mset ys"
proof (induction xss arbitrary: i)
  case Nil
  then show ?case by simp
next
  case (Cons xs xss)
  then show ?case by (cases i) (auto simp: algebra_simps)
qed

lemma distinct_mset_iff: "mset xs = mset ys \<Longrightarrow> distinct xs = distinct ys"
  by (rule mset_eq_imp_distinct_iff)

text \<open>The prefix of a sorted list that a test on the key selects is determined by the
  multiset of its elements: elements with equal keys are selected together.\<close>

lemma mset_takeWhile_sorted:
  fixes key :: "'a \<Rightarrow> int"
  assumes "sorted_wrt (\<lambda>a b. key a \<le> key b) xs"
  shows "mset (takeWhile (\<lambda>x. Q (key x)) xs) =
     filter_mset (\<lambda>x. \<forall>y \<in># mset xs. \<not> Q (key y) \<longrightarrow> key x < key y) (mset xs)"
  using assms
proof (induction xs)
  case Nil
  then show ?case by simp
next
  case (Cons x xs)
  show ?case
  proof (cases "Q (key x)")
    case True
    with Cons have "\<forall>y \<in> set xs. \<not> Q (key y) \<longrightarrow> key x < key y" by (auto simp: order_le_less)
    with True Cons show ?thesis by simp
  next
    case False
    with Cons.prems show ?thesis by (auto simp: filter_mset_eq_conv not_less)
  qed
qed

end
