(* ===== verification/Task.thy ===== *)
theory Task
  imports Prelude
begin

text \<open>
  Tasks (\<^verbatim>\<open>include/core/task/task.hpp\<close>, \<^verbatim>\<open>src/core/task/task.cc\<close>): the task object, its
  comparison operators, the two stack flavours with their stealing rules, stack traits, task
  handles, and the store of task objects that every scheduler works on.
\<close>

section \<open>Task objects\<close>

datatype TaskType = INTERACTIVE_TASK_T | BATCH_TASK_T | REAL_TIME_TASK_T

datatype TaskStatus = TASK_READY | TASK_PENDING | TASK_FINISHED | TASK_RUNNING

text \<open>The two subclasses of the task interface, and the schedulers a task can belong to: the
  main real-time scheduler or one of its thieves, by position in the vector \<^verbatim>\<open>thiefs\<close>.\<close>

datatype StackKind = SharedCopyStack | StandAloneStack

datatype SchedulerPtr = RIBPtr | ThiefPtr nat

text \<open>Condition variables, by address: the one inside a task's notifier, or any other. The word
  \<^verbatim>\<open>cvStatus\<close> of a task is 0 during an untimed wait, the address of the condition variable
  during a timed wait, -1 once a notifier claimed the task and -2 once the timer did.\<close>

datatype cvptr = NotifierCV tid | UserCV nat

datatype cvword = CvZero | CvPtr cvptr | CvNotified | CvTimedOut

text \<open>The fields the schedulers read and write. \<open>ctxStack\<close> is the stack the coroutine context
  points at: the shared stack of a scheduler, or \<open>None\<close> for a stack of the task's own.
  \<open>isFinished\<close> is the flag of the task's notifier, and \<open>wsHook\<close> says whether the hook for wait
  lists is linked.\<close>

record TaskInterface =
  status :: TaskStatus
  isStealable :: bool
  scheduler :: SchedulerPtr
  isFinished :: bool
  cvStatus :: cvword
  wsHook :: bool
  task_id :: u32
  deadline :: Duration
  burst :: Duration
  taskType :: TaskType
  stackKind :: StackKind
  ctxStack :: "SchedulerPtr option"

text \<open>The constructors. The field \<^verbatim>\<open>taskType\<close> is not initialised by the C++ constructor, so its
  initial value \<open>ty\<close> is arbitrary here.\<close>

definition new_TaskInterface :: "TaskType \<Rightarrow> StackKind \<Rightarrow> SchedulerPtr \<Rightarrow> TaskInterface" where
  "new_TaskInterface ty k s =
     \<lparr>status = TASK_READY, isStealable = True, scheduler = s, isFinished = False, cvStatus = CvZero,
      wsHook = False,
      task_id = 0, deadline = 0, burst = 0, taskType = ty, stackKind = k,
      ctxStack = (case k of SharedCopyStack \<Rightarrow> Some s | StandAloneStack \<Rightarrow> None)\<rparr>"

section \<open>Comparison operators\<close>

definition task_less :: "TaskInterface \<Rightarrow> TaskInterface \<Rightarrow> bool" where
  "task_less a b =
     (if deadline a = deadline b then burst a < burst b else deadline a < deadline b)"

definition task_greater :: "TaskInterface \<Rightarrow> TaskInterface \<Rightarrow> bool" where
  "task_greater a b =
     (if deadline a = deadline b then burst a > burst b else deadline a > deadline b)"

definition task_eq :: "TaskInterface \<Rightarrow> TaskInterface \<Rightarrow> bool" where
  "task_eq a b = (task_id a = task_id b)"

definition hash_value :: "TaskInterface \<Rightarrow> u64" where
  "hash_value v = ucast (task_id v)"

definition priority_order :: "TaskInterface \<Rightarrow> TaskInterface \<Rightarrow> bool" where
  "priority_order a b =
     (if deadline a = deadline b then burst a < burst b else deadline a < deadline b)"

definition priority_inverse_order :: "TaskInterface \<Rightarrow> TaskInterface \<Rightarrow> bool" where
  "priority_inverse_order a b =
     (if deadline a = deadline b then burst a > burst b else deadline a > deadline b)"

lemmas order_defs = task_less_def task_greater_def priority_order_def priority_inverse_order_def

interpretation prio: strict_weak_order priority_order
  by unfold_locales (auto simp: order_defs split: if_splits)

interpretation prio_inv: strict_weak_order priority_inverse_order
  by unfold_locales (auto simp: order_defs split: if_splits)

interpretation key: strict_weak_order task_less
  by unfold_locales (auto simp: order_defs split: if_splits)

text \<open>The key order of the interactive ready queue and its priority order are the same, and
  the hash is compatible with equality, as the containers require.\<close>

lemma key_is_priority: "task_less = priority_order"
  by (intro ext) (simp add: order_defs)

lemma priority_inverse_converse: "priority_inverse_order a b = priority_order b a"
  by (auto simp: order_defs)

lemma task_eq_hash: "task_eq a b \<Longrightarrow> hash_value a = hash_value b"
  by (simp add: task_eq_def hash_value_def)

lemma not_priority_order_iff:
  "\<not> priority_order a b \<longleftrightarrow>
     deadline b < deadline a \<or> (deadline b = deadline a \<and> burst b \<le> burst a)"
  by (auto simp: order_defs)

section \<open>Stealing\<close>

definition CanSteal :: "TaskInterface \<Rightarrow> bool" where
  "CanSteal t = (case stackKind t of SharedCopyStack \<Rightarrow> False | StandAloneStack \<Rightarrow> True)"

text \<open>\<^verbatim>\<open>Steal\<close> of both subclasses: the shared-stack flavour also rebuilds its context on the
  shared stack of the new scheduler.\<close>

definition Steal :: "SchedulerPtr \<Rightarrow> TaskInterface \<Rightarrow> TaskInterface" where
  "Steal s t =
     (if isStealable t
      then (case stackKind t of
              SharedCopyStack \<Rightarrow> t\<lparr>scheduler := s, ctxStack := Some s\<rparr>
            | StandAloneStack \<Rightarrow> t\<lparr>scheduler := s\<rparr>)
      else t)"

text \<open>A context is consistent when a shared-stack task points at the shared stack of the
  scheduler that will run it.\<close>

definition ctx_ok :: "TaskInterface \<Rightarrow> bool" where
  "ctx_ok t = (case stackKind t of
      SharedCopyStack \<Rightarrow> ctxStack t = Some (scheduler t) | StandAloneStack \<Rightarrow> ctxStack t = None)"

lemma ctx_ok_new: "ctx_ok (new_TaskInterface ty k s)"
  by (auto simp: ctx_ok_def new_TaskInterface_def split: StackKind.splits)

lemma ctx_ok_Steal: "ctx_ok t \<Longrightarrow> ctx_ok (Steal s t)"
  by (auto simp: ctx_ok_def Steal_def split: StackKind.splits)

lemma Steal_frame [simp]:
  "isStealable (Steal s t) = isStealable t" "status (Steal s t) = status t"
  "deadline (Steal s t) = deadline t" "burst (Steal s t) = burst t"
  "task_id (Steal s t) = task_id t" "taskType (Steal s t) = taskType t"
  "stackKind (Steal s t) = stackKind t" "isFinished (Steal s t) = isFinished t"
  "cvStatus (Steal s t) = cvStatus t" "wsHook (Steal s t) = wsHook t"
  by (auto simp: Steal_def split: StackKind.splits)

lemma scheduler_Steal [simp]: "isStealable t \<Longrightarrow> scheduler (Steal s t) = s"
  by (auto simp: Steal_def split: StackKind.splits)

section \<open>Stack traits\<close>

record StackTraits =
  useSharedStack :: bool
  canSteal :: bool
  launchImmediately :: bool
  stackSize :: u32
  pinCore :: int

definition StackTraits_default :: StackTraits where
  "StackTraits_default =
     \<lparr>useSharedStack = False, canSteal = True, launchImmediately = False, stackSize = 4096, pinCore = -1\<rparr>"

definition StackTraits_ux_ssz :: "bool \<Rightarrow> u32 \<Rightarrow> StackTraits" where
  "StackTraits_ux_ssz ux ssz =
     \<lparr>useSharedStack = ux, canSteal = True, launchImmediately = False, stackSize = ssz, pinCore = -1\<rparr>"

definition StackTraits_ux_ssz_cs :: "bool \<Rightarrow> u32 \<Rightarrow> bool \<Rightarrow> StackTraits" where
  "StackTraits_ux_ssz_cs ux ssz cs =
     \<lparr>useSharedStack = ux, canSteal = cs, launchImmediately = False, stackSize = ssz, pinCore = -1\<rparr>"

definition StackTraits_pinned :: "bool \<Rightarrow> u32 \<Rightarrow> bool \<Rightarrow> int \<Rightarrow> StackTraits" where
  "StackTraits_pinned ux ssz cs pc =
     \<lparr>useSharedStack = ux, canSteal = cs, launchImmediately = False, stackSize = ssz, pinCore = pc\<rparr>"

definition StackTraits_immediate :: "bool \<Rightarrow> u32 \<Rightarrow> bool \<Rightarrow> bool \<Rightarrow> StackTraits" where
  "StackTraits_immediate ux ssz cs im =
     \<lparr>useSharedStack = ux, canSteal = cs, launchImmediately = im, stackSize = ssz, pinCore = -1\<rparr>"

section \<open>The task store\<close>

text \<open>All task objects, by address; the wait lists of the condition variables; the addresses whose object was deleted, latest first; and
  the calls that leave the schedulers: a cancellation callback or a notification of joiners.\<close>

datatype event = OnCancel tid | Notified tid

record pool =
  heap :: "tid \<Rightarrow> TaskInterface"
  waitList :: "cvptr \<Rightarrow> tid list"
  freed :: "tid list"
  trace :: "event list"

definition upd_task :: "tid \<Rightarrow> (TaskInterface \<Rightarrow> TaskInterface) \<Rightarrow> 'a pool_scheme \<Rightarrow> 'a pool_scheme" where
  "upd_task t f w = w\<lparr>heap := (heap w)(t := f (heap w t))\<rparr>"

definition delete_task :: "tid \<Rightarrow> 'a pool_scheme \<Rightarrow> 'a pool_scheme" where
  "delete_task t w = w\<lparr>freed := t # freed w\<rparr>"

definition call_onCancel :: "tid \<Rightarrow> 'a pool_scheme \<Rightarrow> 'a pool_scheme" where
  "call_onCancel t w = w\<lparr>trace := trace w @ [OnCancel t]\<rparr>"

lemma upd_task_simps [simp]:
  "freed (upd_task t f w) = freed w" "waitList (upd_task t f w) = waitList w" "trace (upd_task t f w) = trace w"
  "pool.more (upd_task t f w) = pool.more w"
  "heap (upd_task t f w) = (heap w)(t := f (heap w t))"
  by (simp_all add: upd_task_def)

lemma delete_task_simps [simp]:
  "freed (delete_task t w) = t # freed w" "trace (delete_task t w) = trace w" "waitList (delete_task t w) = waitList w"
  "heap (delete_task t w) = heap w" "pool.more (delete_task t w) = pool.more w"
  by (simp_all add: delete_task_def)

lemma call_onCancel_simps [simp]:
  "freed (call_onCancel t w) = freed w" "trace (call_onCancel t w) = trace w @ [OnCancel t]"
  "heap (call_onCancel t w) = heap w" "waitList (call_onCancel t w) = waitList w" "pool.more (call_onCancel t w) = pool.more w"
  by (simp_all add: call_onCancel_def)

section \<open>Task handles\<close>

text \<open>A handle holds a shared pointer to a notifier, or nothing. Handles live in variables,
  here numbered; moving empties the source.\<close>

type_synonym handles = "nat \<Rightarrow> nat option"

definition TaskHandle_Detach :: "nat \<Rightarrow> handles \<Rightarrow> handles" where
  "TaskHandle_Detach a h = h(a := None)"

definition TaskHandle_move_ctor :: "nat \<Rightarrow> nat \<Rightarrow> handles \<Rightarrow> handles" where
  "TaskHandle_move_ctor a b h = (let h' = h(a := None); h'' = h'(a := h' b) in h''(b := None))"

definition TaskHandle_move_assign :: "nat \<Rightarrow> nat \<Rightarrow> handles \<Rightarrow> handles" where
  "TaskHandle_move_assign a b h =
     (if a \<noteq> b then let h' = TaskHandle_Detach a h; h'' = h'(a := h' b) in h''(b := None) else h)"

text \<open>Joining returns at once on an empty handle, and otherwise as soon as the notifier's flag
  is set; \<open>None\<close> means the joiner goes on waiting.\<close>

definition TaskHandle_Join :: "nat \<Rightarrow> handles \<Rightarrow> (nat \<Rightarrow> bool) \<Rightarrow> unit option" where
  "TaskHandle_Join a h finished =
     (case h a of None \<Rightarrow> Some () | Some n \<Rightarrow> if finished n then Some () else None)"

text \<open>Moving keeps a notifier in at most one handle.\<close>

definition sole_owner :: "handles \<Rightarrow> bool" where
  "sole_owner h \<longleftrightarrow> (\<forall>a b n. h a = Some n \<longrightarrow> h b = Some n \<longrightarrow> a = b)"

lemma sole_owner_move_assign: "sole_owner h \<Longrightarrow> sole_owner (TaskHandle_move_assign a b h)"
  unfolding sole_owner_def TaskHandle_move_assign_def TaskHandle_Detach_def Let_def
  by (auto split: if_splits)

end
