(* ===== verification/Thief.thy ===== *)
theory Thief
  imports Task
begin

text \<open>
  Work stealing (\<^verbatim>\<open>include/scheduler/taskthief.hpp\<close>, \<^verbatim>\<open>src/scheduler/taskthief.cc\<close>): the state of
  the thieves, their ready queues, \<^verbatim>\<open>StealFrom\<close> as its two critical sections, \<^verbatim>\<open>GetNextTask\<close> and
  \<^verbatim>\<open>EndTask\<close>, and the conservation, fairness and progress lemmas about them.
\<close>

section \<open>State\<close>

record thief =
  isReady :: "tid list"
  sizeOfQueue :: u64
  thief_toContinue :: bool

record thief_pool = pool +
  thiefs :: "thief list"

definition new_StealScheduler :: thief where
  "new_StealScheduler = \<lparr>isReady = [], sizeOfQueue = 0, thief_toContinue = True\<rparr>"

definition upd_thief ::
  "nat \<Rightarrow> (thief \<Rightarrow> thief) \<Rightarrow> 'a thief_pool_scheme \<Rightarrow> 'a thief_pool_scheme" where
  "upd_thief i f w = w\<lparr>thiefs := (thiefs w)[i := f (thiefs w ! i)]\<rparr>"

abbreviation readyq :: "'a thief_pool_scheme \<Rightarrow> nat \<Rightarrow> tid list" where
  "readyq w i \<equiv> isReady (thiefs w ! i)"

text \<open>The hook of the ready queues of the thieves is one field of the task, so it is linked as
  soon as the task is in the queue of any thief.\<close>

definition tr_linked :: "tid \<Rightarrow> 'a thief_pool_scheme \<Rightarrow> bool" where
  "tr_linked t w = list_ex (\<lambda>th. List.member (isReady th) t) (thiefs w)"

section \<open>Operations\<close>

definition StopSchedulerMainLoop :: "nat \<Rightarrow> 'a thief_pool_scheme \<Rightarrow> 'a thief_pool_scheme" where
  "StopSchedulerMainLoop i w =
     (if thief_toContinue (thiefs w ! i) then upd_thief i (thief_toContinue_update (\<lambda>_. False)) w
      else w)"

definition thief_EnableImmediately ::
  "nat \<Rightarrow> tid \<Rightarrow> 'a thief_pool_scheme \<Rightarrow> 'a thief_pool_scheme outcome" where
  "thief_EnableImmediately i t w =
     (if tr_linked t w then Fault AssertFailed
      else Ok (upd_task t (status_update (\<lambda>_. TASK_READY))
             (upd_thief i (\<lambda>th. th\<lparr>sizeOfQueue := sizeOfQueue th + 1, isReady := t # isReady th\<rparr>) w)))"

definition thief_Enable ::
  "nat \<Rightarrow> tid \<Rightarrow> 'a thief_pool_scheme \<Rightarrow> 'a thief_pool_scheme outcome" where
  "thief_Enable i t w =
     (if tr_linked t w then Fault AssertFailed
      else Ok (upd_task t (status_update (\<lambda>_. TASK_READY))
             (upd_thief i (\<lambda>th. th\<lparr>sizeOfQueue := sizeOfQueue th + 1, isReady := isReady th @ [t]\<rparr>) w)))"

definition Size :: "thief \<Rightarrow> u64" where
  "Size th = sizeOfQueue th"

text \<open>The scan of \<^verbatim>\<open>StealFrom\<close> runs over the victim's queue from its back: it takes stealable
  tasks until it has \<open>k\<close> of them, and steps over the others. The result is the list of the
  tasks taken, in the order they are taken, and what is left of the reversed queue.\<close>

fun steal_scan :: "(tid \<Rightarrow> bool) \<Rightarrow> nat \<Rightarrow> tid list \<Rightarrow> tid list \<times> tid list" where
  "steal_scan P k [] = ([], [])"
| "steal_scan P 0 (x # xs) = ([], x # xs)"
| "steal_scan P (Suc k) (x # xs) =
     (if P x then (let (ts, rest) = steal_scan P k xs in (x # ts, rest))
      else (let (ts, rest) = steal_scan P (Suc k) xs in (ts, x # rest)))"

definition stealableCount :: "(tid \<Rightarrow> TaskInterface) \<Rightarrow> tid list \<Rightarrow> nat" where
  "stealableCount h q = length (filter (\<lambda>t. isStealable (h t)) q)"

text \<open>The first critical section, under the victim's lock. Both counters are touched here: the
  victim's is decreased and the thief's own is increased, once per task.\<close>

definition steal_out ::
  "nat \<Rightarrow> nat \<Rightarrow> 'a thief_pool_scheme \<Rightarrow> tid list \<times> 'a thief_pool_scheme" where
  "steal_out self v w =
     (let q = readyq w v; cnt = stealableCount (heap w) q in
      if cnt > 1 then
        (let (ts, rest) = steal_scan (\<lambda>t. isStealable (heap w t)) (min cnt (length q div 2)) (rev q) in
         (ts, upd_thief self (\<lambda>th. th\<lparr>sizeOfQueue := sizeOfQueue th + of_nat (length ts)\<rparr>)
                (upd_thief v (\<lambda>th. th\<lparr>isReady := rev rest,
                                      sizeOfQueue := sizeOfQueue th - of_nat (length ts)\<rparr>) w)))
      else ([], w))"

text \<open>The second critical section, under the thief's own lock: each task changes owner, the
  counter is increased (again), and the task goes to the front of the queue.\<close>

fun steal_in :: "nat \<Rightarrow> tid list \<Rightarrow> 'a thief_pool_scheme \<Rightarrow> 'a thief_pool_scheme" where
  "steal_in self [] w = w"
| "steal_in self (t # ts) w =
     steal_in self ts
       (upd_thief self (\<lambda>th. th\<lparr>sizeOfQueue := sizeOfQueue th + 1, isReady := t # isReady th\<rparr>)
         (upd_task t (Steal (ThiefPtr self)) w))"

definition StealFrom ::
  "nat \<Rightarrow> nat \<Rightarrow> 'a thief_pool_scheme \<Rightarrow> nat \<times> 'a thief_pool_scheme" where
  "StealFrom self v w = (let (ts, w') = steal_out self v w in (length ts, steal_in self ts w'))"

text \<open>One round over all thieves from the random start \<open>r\<close> downwards, cyclically; \<open>k\<close> is the
  number of positions still to visit. The round ends with the first successful steal.\<close>

fun steal_loop ::
  "nat \<Rightarrow> nat \<Rightarrow> nat \<Rightarrow> 'a thief_pool_scheme \<Rightarrow> 'a thief_pool_scheme" where
  "steal_loop self r 0 w = w"
| "steal_loop self r (Suc k) w =
     (let n = length (thiefs w); v = (r + n - (n - Suc k)) mod n in
      if v \<noteq> self then
        (let (c, w') = StealFrom self v w in if c > 0 then w' else steal_loop self r k w')
      else steal_loop self r k w)"

definition steal_round :: "nat \<Rightarrow> nat \<Rightarrow> 'a thief_pool_scheme \<Rightarrow> 'a thief_pool_scheme" where
  "steal_round self rnd w =
     steal_loop self (rnd mod length (thiefs w)) (length (thiefs w)) w"

text \<open>At most two rounds before the thief goes to sleep.\<close>

definition retry_steal ::
  "nat \<Rightarrow> nat \<Rightarrow> nat \<Rightarrow> 'a thief_pool_scheme \<Rightarrow> 'a thief_pool_scheme" where
  "retry_steal self r1 r2 w =
     (let w1 = steal_round self r1 w in
      if readyq w1 self = [] then steal_round self r2 w1 else w1)"

definition thief_pop ::
  "nat \<Rightarrow> 'a thief_pool_scheme \<Rightarrow> (tid option \<times> 'a thief_pool_scheme) outcome" where
  "thief_pop self w =
     (if \<not> thief_toContinue (thiefs w ! self) then Ok (None, w)
      else case readyq w self of
        [] \<Rightarrow> Fault OutOfBounds
      | t # ts \<Rightarrow>
          Ok (Some t,
           upd_task t (\<lambda>x. x\<lparr>isStealable := False, status := TASK_RUNNING\<rparr>)
             (upd_thief self (\<lambda>th. th\<lparr>isReady := ts, sizeOfQueue := sizeOfQueue th - 1\<rparr>) w)))"

text \<open>\<^verbatim>\<open>GetNextTask\<close>: each element of the input list holds the two random numbers of one pass and
  what the other threads do to the state while the thief sleeps on its condition variable. An
  exhausted list means the thief is still asleep.\<close>

fun thief_GetNextTask ::
  "nat \<Rightarrow> (nat \<times> nat \<times> ('a thief_pool_scheme \<Rightarrow> 'a thief_pool_scheme)) list \<Rightarrow>
   'a thief_pool_scheme \<Rightarrow> (tid option \<times> 'a thief_pool_scheme) outcome" where
  "thief_GetNextTask self ins w =
     (if readyq w self = [] \<and> thief_toContinue (thiefs w ! self) then
        (case ins of
           [] \<Rightarrow> Blocked
         | (r1, r2, wake) # ins' \<Rightarrow>
             (let w1 = retry_steal self r1 r2 w in
              if readyq w1 self \<noteq> [] \<or> \<not> thief_toContinue (thiefs w1 ! self)
              then thief_pop self w1
              else thief_GetNextTask self ins' (wake w1)))
      else thief_pop self w)"

declare thief_GetNextTask.simps [simp del]

text \<open>\<^verbatim>\<open>EndTask\<close> holds no lock. It first makes the task stealable; from then on other threads can take it. Then
  it reads the status and deletes a finished task. Where no other thread can run in between, it is the composition
  of the two.\<close>

definition thief_EndTask_mark :: "tid \<Rightarrow> 'a thief_pool_scheme \<Rightarrow> 'a thief_pool_scheme" where
  "thief_EndTask_mark t w = (if CanSteal (heap w t) then upd_task t (isStealable_update (\<lambda>_. True)) w else w)"

definition thief_EndTask_free :: "tid \<Rightarrow> 'a thief_pool_scheme \<Rightarrow> 'a thief_pool_scheme" where
  "thief_EndTask_free t w = (if status (heap w t) = TASK_FINISHED then delete_task t w else w)"

definition thief_EndTask :: "tid \<Rightarrow> 'a thief_pool_scheme \<Rightarrow> 'a thief_pool_scheme" where
  "thief_EndTask t w = thief_EndTask_free t (thief_EndTask_mark t w)"

section \<open>Frame lemmas\<close>

lemma upd_thief_simps [simp]:
  "heap (upd_thief i f w) = heap w" "freed (upd_thief i f w) = freed w" "waitList (upd_thief i f w) = waitList w"
  "trace (upd_thief i f w) = trace w" "thief_pool.more (upd_thief i f w) = thief_pool.more w"
  "thiefs (upd_thief i f w) = (thiefs w)[i := f (thiefs w ! i)]"
  by (simp_all add: upd_thief_def)

lemma thiefs_upd_task [simp]: "thiefs (upd_task t f w) = thiefs w"
  by (simp add: upd_task_def)

lemma thief_more_upd_task [simp]: "thief_pool.more (upd_task t f w) = thief_pool.more w"
  by (simp add: upd_task_def)

lemma thiefs_delete_task [simp]: "thiefs (delete_task t w) = thiefs w"
  by (simp add: delete_task_def)

lemma thief_more_delete_task [simp]: "thief_pool.more (delete_task t w) = thief_pool.more w"
  by (simp add: delete_task_def)

lemma tr_linked_iff [simp]: "tr_linked t w \<longleftrightarrow> (\<exists>th \<in> set (thiefs w). t \<in> set (isReady th))"
  by (auto simp: tr_linked_def list_ex_iff)

section \<open>The scan\<close>

lemma steal_scan_length:
  "steal_scan P k xs = (ts, rest) \<Longrightarrow> length ts = min k (length (filter P xs))"
  by (induction P k xs arbitrary: ts rest rule: steal_scan.induct)
    (auto split: if_splits prod.splits)

lemma steal_scan_mset: "steal_scan P k xs = (ts, rest) \<Longrightarrow> mset ts + mset rest = mset xs"
  by (induction P k xs arbitrary: ts rest rule: steal_scan.induct)
    (auto split: if_splits prod.splits)

lemma steal_scan_P: "steal_scan P k xs = (ts, rest) \<Longrightarrow> x \<in> set ts \<Longrightarrow> P x"
  by (induction P k xs arbitrary: ts rest rule: steal_scan.induct)
    (auto split: if_splits prod.splits)

text \<open>What stays is the queue without the tasks taken, in its old order.\<close>

lemma steal_scan_rest_filter:
  "steal_scan P k xs = (ts, rest) \<Longrightarrow> filter (\<lambda>x. \<not> P x) rest = filter (\<lambda>x. \<not> P x) xs"
  by (induction P k xs arbitrary: ts rest rule: steal_scan.induct)
    (auto split: if_splits prod.splits)

lemma steal_scan_taken_prefix:
  "steal_scan P k xs = (ts, rest) \<Longrightarrow> ts = take k (filter P xs)"
  by (induction P k xs arbitrary: ts rest rule: steal_scan.induct)
    (auto split: if_splits prod.splits)

section \<open>StealFrom\<close>

definition all_ready :: "'a thief_pool_scheme \<Rightarrow> tid list" where
  "all_ready w = concat (map isReady (thiefs w))"

lemma Steal_idem [simp]: "Steal s (Steal s t) = Steal s t"
  by (auto simp: Steal_def split: StackKind.splits)

lemma steal_in_thiefs:
  "self < length (thiefs w) \<Longrightarrow>
   thiefs (steal_in self ts w) =
     (thiefs w)[self := (thiefs w ! self)
        \<lparr>sizeOfQueue := sizeOfQueue (thiefs w ! self) + of_nat (length ts),
         isReady := rev ts @ isReady (thiefs w ! self)\<rparr>]"
  by (induction self ts w rule: steal_in.induct) (simp_all add: add_ac)

lemma steal_in_heap:
  "heap (steal_in self ts w) t =
     (if t \<in> set ts then Steal (ThiefPtr self) (heap w t) else heap w t)"
  by (induction self ts w rule: steal_in.induct) auto

lemma steal_in_frame [simp]:
  "freed (steal_in self ts w) = freed w" "trace (steal_in self ts w) = trace w"
  "thief_pool.more (steal_in self ts w) = thief_pool.more w"
  by (induction self ts w rule: steal_in.induct) auto

definition steal_amount :: "'a thief_pool_scheme \<Rightarrow> nat \<Rightarrow> nat" where
  "steal_amount w v =
     (let cnt = stealableCount (heap w) (readyq w v) in
      if cnt > 1 then min cnt (length (readyq w v) div 2) else 0)"

definition steal_tasks :: "'a thief_pool_scheme \<Rightarrow> nat \<Rightarrow> tid list" where
  "steal_tasks w v =
     take (steal_amount w v) (filter (\<lambda>t. isStealable (heap w t)) (rev (readyq w v)))"

lemma stealableCount_le: "stealableCount h q \<le> length q"
  by (simp add: stealableCount_def)

lemma steal_amount_pos: "steal_amount w v > 0 \<longleftrightarrow> stealableCount (heap w) (readyq w v) > 1"
  using stealableCount_le [of "heap w" "readyq w v"] by (auto simp: steal_amount_def Let_def)

lemma steal_amount_bounds:
  "steal_amount w v \<le> length (readyq w v) div 2"
  "steal_amount w v \<le> stealableCount (heap w) (readyq w v)"
  by (auto simp: steal_amount_def Let_def)

lemma filter_rev_length: "length (filter P (rev xs)) = length (filter P xs)"
  by (metis length_rev rev_filter)

lemma length_steal_tasks [simp]: "length (steal_tasks w v) = steal_amount w v"
  using steal_amount_bounds(2) [of w v]
  by (simp add: steal_tasks_def stealableCount_def filter_rev_length)

lemma steal_tasks_stealable: "t \<in> set (steal_tasks w v) \<Longrightarrow> isStealable (heap w t)"
  by (auto simp: steal_tasks_def dest: in_set_takeD)

text \<open>What the first critical section does, as equations.\<close>

lemma steal_out_eq:
  obtains rest where
    "steal_out self v w =
       (steal_tasks w v,
        upd_thief self (\<lambda>th. th\<lparr>sizeOfQueue := sizeOfQueue th + of_nat (steal_amount w v)\<rparr>)
          (upd_thief v (\<lambda>th. th\<lparr>isReady := rest,
             sizeOfQueue := sizeOfQueue th - of_nat (steal_amount w v)\<rparr>) w))"
    "mset (steal_tasks w v) + mset rest = mset (readyq w v)"
    "filter (\<lambda>t. \<not> isStealable (heap w t)) rest = filter (\<lambda>t. \<not> isStealable (heap w t)) (readyq w v)"
proof (cases "stealableCount (heap w) (readyq w v) > 1")
  case True
  let ?P = "\<lambda>t. isStealable (heap w t)"
  obtain ts rest where scan: "steal_scan ?P (steal_amount w v) (rev (readyq w v)) = (ts, rest)"
    by (cases "steal_scan ?P (steal_amount w v) (rev (readyq w v))")
  from scan have ts: "ts = steal_tasks w v"
    by (simp add: steal_scan_taken_prefix steal_tasks_def)
  have out: "steal_out self v w =
       (steal_tasks w v,
        upd_thief self (\<lambda>th. th\<lparr>sizeOfQueue := sizeOfQueue th + of_nat (steal_amount w v)\<rparr>)
          (upd_thief v (\<lambda>th. th\<lparr>isReady := rev rest,
             sizeOfQueue := sizeOfQueue th - of_nat (steal_amount w v)\<rparr>) w))"
    using True scan ts by (simp add: steal_out_def Let_def steal_amount_def)
  moreover have "mset (steal_tasks w v) + mset (rev rest) = mset (readyq w v)"
    using steal_scan_mset [OF scan] ts by simp
  moreover have "filter (\<lambda>t. \<not> ?P t) (rev rest) = filter (\<lambda>t. \<not> ?P t) (readyq w v)"
    using steal_scan_rest_filter [OF scan] by (metis rev_filter rev_rev_ident)
  ultimately show ?thesis by (rule that)
next
  case False
  then have 0: "steal_amount w v = 0" by (simp add: steal_amount_def Let_def)
  have "steal_out self v w = ([], w)" using False by (simp add: steal_out_def Let_def)
  moreover have "upd_thief self (\<lambda>th. th\<lparr>sizeOfQueue := sizeOfQueue th + 0\<rparr>)
      (upd_thief v (\<lambda>th. th\<lparr>isReady := readyq w v, sizeOfQueue := sizeOfQueue th - 0\<rparr>) w) = w"
    by (simp add: upd_thief_def)
  ultimately show ?thesis using 0 by (intro that [of "readyq w v"]) (simp_all add: steal_tasks_def)
qed

lemma StealFrom_facts:
  assumes i: "self < length (thiefs w)" and v: "v < length (thiefs w)" and ne: "self \<noteq> v"
    and eq: "StealFrom self v w = (c, w')"
  shows "c = steal_amount w v"
    and "length (thiefs w') = length (thiefs w)"
    and "readyq w' self = rev (steal_tasks w v) @ readyq w self"
    and "mset (steal_tasks w v) + mset (readyq w' v) = mset (readyq w v)"
    and "filter (\<lambda>t. \<not> isStealable (heap w t)) (readyq w' v) =
         filter (\<lambda>t. \<not> isStealable (heap w t)) (readyq w v)"
    and "\<And>j. j \<noteq> self \<Longrightarrow> j \<noteq> v \<Longrightarrow> thiefs w' ! j = thiefs w ! j"
    and "sizeOfQueue (thiefs w' ! self) = sizeOfQueue (thiefs w ! self) + 2 * of_nat c"
    and "sizeOfQueue (thiefs w' ! v) = sizeOfQueue (thiefs w ! v) - of_nat c"
    and "\<And>j. thief_toContinue (thiefs w' ! j) = thief_toContinue (thiefs w ! j)"
    and "\<And>t. heap w' t = (if t \<in> set (steal_tasks w v) then Steal (ThiefPtr self) (heap w t) else heap w t)"
    and "freed w' = freed w" and "trace w' = trace w"
proof -
  obtain rest where out: "steal_out self v w =
       (steal_tasks w v,
        upd_thief self (\<lambda>th. th\<lparr>sizeOfQueue := sizeOfQueue th + of_nat (steal_amount w v)\<rparr>)
          (upd_thief v (\<lambda>th. th\<lparr>isReady := rest,
             sizeOfQueue := sizeOfQueue th - of_nat (steal_amount w v)\<rparr>) w))"
    and ms: "mset (steal_tasks w v) + mset rest = mset (readyq w v)"
    and fl: "filter (\<lambda>t. \<not> isStealable (heap w t)) rest =
             filter (\<lambda>t. \<not> isStealable (heap w t)) (readyq w v)"
    by (rule steal_out_eq)
  from eq out have w': "w' = steal_in self (steal_tasks w v)
        (upd_thief self (\<lambda>th. th\<lparr>sizeOfQueue := sizeOfQueue th + of_nat (steal_amount w v)\<rparr>)
          (upd_thief v (\<lambda>th. th\<lparr>isReady := rest,
             sizeOfQueue := sizeOfQueue th - of_nat (steal_amount w v)\<rparr>) w))"
    and c: "c = steal_amount w v"
    by (auto simp: StealFrom_def)
  show "c = steal_amount w v" by (rule c)
  show "length (thiefs w') = length (thiefs w)" by (simp add: w' i v ne ne [symmetric] steal_in_thiefs c)
  show "readyq w' self = rev (steal_tasks w v) @ readyq w self" by (simp add: w' i v ne ne [symmetric] steal_in_thiefs c)
  have rest: "readyq w' v = rest" by (simp add: w' i v ne ne [symmetric] steal_in_thiefs c)
  show "mset (steal_tasks w v) + mset (readyq w' v) = mset (readyq w v)" using rest ms by simp
  show "filter (\<lambda>t. \<not> isStealable (heap w t)) (readyq w' v) =
         filter (\<lambda>t. \<not> isStealable (heap w t)) (readyq w v)" using rest fl by simp
  show "thiefs w' ! j = thiefs w ! j" if "j \<noteq> self" "j \<noteq> v" for j using that by (simp add: w' i v ne ne [symmetric] steal_in_thiefs)
  show "sizeOfQueue (thiefs w' ! self) = sizeOfQueue (thiefs w ! self) + 2 * of_nat c"
    by (simp add: w' i v ne ne [symmetric] steal_in_thiefs c)
  show "sizeOfQueue (thiefs w' ! v) = sizeOfQueue (thiefs w ! v) - of_nat c" by (simp add: w' i v ne ne [symmetric] steal_in_thiefs c)
  show "thief_toContinue (thiefs w' ! j) = thief_toContinue (thiefs w ! j)" for j
    by (simp add: w' i v ne ne [symmetric] steal_in_thiefs nth_list_update)
  show "heap w' t = (if t \<in> set (steal_tasks w v) then Steal (ThiefPtr self) (heap w t) else heap w t)"
    for t by (simp add: w' steal_in_heap)
  show "freed w' = freed w" "trace w' = trace w" using w' by simp_all
qed

lemma mset_all_ready_two:
  fixes w w' :: "'a thief_pool_scheme"
  assumes "i < length (thiefs w)" "v < length (thiefs w)" "i \<noteq> v"
    "length (thiefs w') = length (thiefs w)"
    and other: "\<And>j. j \<noteq> i \<Longrightarrow> j \<noteq> v \<Longrightarrow> thiefs w' ! j = thiefs w ! j"
    and two: "mset (readyq w' i) + mset (readyq w' v) = mset (readyq w i) + mset (readyq w v)"
  shows "mset (all_ready w') = mset (all_ready w)"
proof -
  define n where "n = length (thiefs w)"
  have sum: "mset (all_ready u) = (\<Sum>j\<in>{..<n} - {i} - {v}. mset (readyq u j))
      + (mset (readyq u i) + mset (readyq u v))" if len: "length (thiefs u) = n" for u :: "'a thief_pool_scheme"
  proof -
    have "mset (all_ready u) = (\<Sum>j<n. mset (readyq u j))"
      using len unfolding all_ready_def
      by (simp add: mset_concat sum_list_sum_nth atLeast0LessThan)
    also have "\<dots> = mset (readyq u i) + (mset (readyq u v) + (\<Sum>j\<in>{..<n} - {i} - {v}. mset (readyq u j)))"
      using assms n_def by (subst sum.remove [of _ i], simp, simp, subst sum.remove [of _ v]) auto
    finally show ?thesis by (simp add: ac_simps)
  qed
  have "(\<Sum>j\<in>{..<n} - {i} - {v}. mset (readyq w' j)) = (\<Sum>j\<in>{..<n} - {i} - {v}. mset (readyq w j))"
    using other by (intro sum.cong) auto
  then show ?thesis using sum [of w'] sum [of w] two assms n_def by simp
qed

text \<open>A pool of two thieves, four stealable tasks in the queue of the second.\<close>

definition demo_task :: TaskInterface where
  "demo_task = new_TaskInterface BATCH_TASK_T StandAloneStack (ThiefPtr 1)"

definition demo_pool :: thief_pool where
  "demo_pool = \<lparr>heap = (\<lambda>_. demo_task), waitList = (\<lambda>_. []), freed = [], trace = [],
     thiefs = [new_StealScheduler,
               \<lparr>isReady = [1, 2, 3, 4], sizeOfQueue = 4, thief_toContinue = True\<rparr>]\<rparr>"

lemmas demo_simps =
  demo_pool_def demo_task_def new_TaskInterface_def new_StealScheduler_def

lemma demo_pool_facts:
  "(0::nat) < length (thiefs demo_pool)" "1 < length (thiefs demo_pool)" "(0::nat) \<noteq> 1"
  "mset (all_ready demo_pool) = {#1, 2, 3, 4#}"
  by (simp_all add: demo_simps all_ready_def)

text \<open>C10. Stealing is a transfer: no task is lost, duplicated or invented in the ready queues;
  at most half of the victim's queue is taken, and only tasks marked stealable; the victim
  keeps the tasks that may not be stolen, in their order; and the stolen tasks, now owned by
  the thief, are at the front of its queue.\<close>

theorem StealFrom_transfers:
  assumes "self < length (thiefs w)" "v < length (thiefs w)" "self \<noteq> v"
    and "StealFrom self v w = (c, w')"
  shows "mset (all_ready w') = mset (all_ready w) \<and>
    c = length (steal_tasks w v) \<and> c \<le> length (readyq w v) div 2 \<and>
    readyq w' self = rev (steal_tasks w v) @ readyq w self \<and>
    filter (\<lambda>t. \<not> isStealable (heap w t)) (readyq w' v) =
      filter (\<lambda>t. \<not> isStealable (heap w t)) (readyq w v) \<and>
    (\<forall>t \<in> set (steal_tasks w v). isStealable (heap w t) \<and> scheduler (heap w' t) = ThiefPtr self)"
proof -
  note facts = StealFrom_facts [OF assms]
  have "mset (readyq w' self) + mset (readyq w' v) = mset (readyq w self) + mset (readyq w v)"
    using facts(3,4) by (simp add: ac_simps)
  then have "mset (all_ready w') = mset (all_ready w)"
    using assms(1-3) facts(2,6) by (intro mset_all_ready_two) auto
  moreover have "\<forall>t \<in> set (steal_tasks w v). isStealable (heap w t) \<and> scheduler (heap w' t) = ThiefPtr self"
    using facts(10) steal_tasks_stealable by fastforce
  ultimately show ?thesis using facts steal_amount_bounds(1) by auto
qed

theorem StealFrom_transfers_witness:
  "fst (StealFrom 0 1 demo_pool) = 2 \<and> readyq (snd (StealFrom 0 1 demo_pool)) 0 = [3, 4] \<and>
   mset (all_ready (snd (StealFrom 0 1 demo_pool))) = {#1, 2, 3, 4#}"
proof -
  have "readyq (snd (StealFrom 0 1 demo_pool)) 0 = [3, 4]" "fst (StealFrom 0 1 demo_pool) = 2"
    by code_simp+
  then show ?thesis
    using StealFrom_transfers [OF demo_pool_facts(1-3) prod.collapse [symmetric]]
    by (simp add: demo_pool_facts)
qed

section \<open>The load counter\<close>

definition counter_ok :: "thief \<Rightarrow> bool" where
  "counter_ok th \<longleftrightarrow> sizeOfQueue th = of_nat (length (isReady th))"

text \<open>Enabling a task and taking the next one keep the counter equal to the queue's length.\<close>

lemma counter_ok_Enable:
  "thief_Enable i t w = Ok w' \<Longrightarrow> i < length (thiefs w) \<Longrightarrow> counter_ok (thiefs w ! i) \<Longrightarrow>
   counter_ok (thiefs w' ! i)"
  by (auto simp: thief_Enable_def counter_ok_def split: if_splits)

lemma counter_ok_EnableImmediately:
  "thief_EnableImmediately i t w = Ok w' \<Longrightarrow> i < length (thiefs w) \<Longrightarrow> counter_ok (thiefs w ! i) \<Longrightarrow>
   counter_ok (thiefs w' ! i)"
  by (auto simp: thief_EnableImmediately_def counter_ok_def split: if_splits)

lemma counter_ok_pop:
  "thief_pop i w = Ok (r, w') \<Longrightarrow> i < length (thiefs w) \<Longrightarrow> counter_ok (thiefs w ! i) \<Longrightarrow>
   counter_ok (thiefs w' ! i)"
  by (auto simp: thief_pop_def counter_ok_def split: if_splits list.splits)

text \<open>\<^verbatim>\<open>StealFrom\<close> counts every stolen task twice on the thief's side: once under the
  victim's lock and once under its own. A counter that was right becomes too large by exactly
  the number of tasks stolen, while the victim's counter stays right.\<close>

lemma StealFrom_counts_twice:
  assumes "self < length (thiefs w)" "v < length (thiefs w)" "self \<noteq> v"
    and "counter_ok (thiefs w ! self)" "counter_ok (thiefs w ! v)"
    and "StealFrom self v w = (c, w')"
  shows "Size (thiefs w' ! self) = of_nat (length (readyq w' self)) + of_nat c \<and>
         counter_ok (thiefs w' ! v)"
proof -
  note facts = StealFrom_facts [OF assms(1-3) assms(6)]
  have "length (readyq w v) = c + length (readyq w' v)"
    using facts(1,4) by (metis length_steal_tasks size_mset size_union)
  then show ?thesis using facts(1,3,7,8) assms(4,5) by (simp add: counter_ok_def Size_def)
qed

lemma StealFrom_counts_twice_witness:
  "Size (thiefs (snd (StealFrom 0 1 demo_pool)) ! 0) = 4 \<and>
   length (readyq (snd (StealFrom 0 1 demo_pool)) 0) = 2"
proof -
  have "length (readyq (snd (StealFrom 0 1 demo_pool)) 0) = 2" "fst (StealFrom 0 1 demo_pool) = 2"
    by code_simp+
  moreover have "counter_ok (thiefs demo_pool ! 0)" "counter_ok (thiefs demo_pool ! 1)"
    by (simp_all add: demo_simps counter_ok_def)
  ultimately show ?thesis
    using StealFrom_counts_twice [OF demo_pool_facts(1-3) _ _ prod.collapse [symmetric]] by simp
qed

section \<open>The stealing rounds and GetNextTask\<close>

lemma StealFrom_nothing: "steal_amount w v = 0 \<Longrightarrow> StealFrom self v w = (0, w)"
  using steal_amount_pos [of w v] by (auto simp: StealFrom_def steal_out_def Let_def)

lemma StealFrom_amount:
  "self < length (thiefs w) \<Longrightarrow> v < length (thiefs w) \<Longrightarrow> self \<noteq> v \<Longrightarrow>
   StealFrom self v w = (steal_amount w v, snd (StealFrom self v w))"
  using StealFrom_facts(1) by (metis prod.collapse)

lemma loop_index: "Suc k \<le> n \<Longrightarrow> (r + n - (n - Suc k)) mod n = (r + Suc k) mod n"
  by simp

text \<open>A run of the loop leaves the state alone and every position visited has nothing to steal,
  or it ends with a successful steal from some other thief.\<close>

lemma steal_loop_cases:
  assumes "self < length (thiefs w)" "k \<le> length (thiefs w)"
  shows "(steal_loop self r k w = w \<and>
      (\<forall>j. 1 \<le> j \<and> j \<le> k \<longrightarrow> (r + j) mod length (thiefs w) \<noteq> self \<longrightarrow>
           steal_amount w ((r + j) mod length (thiefs w)) = 0)) \<or>
    (\<exists>v < length (thiefs w). v \<noteq> self \<and> steal_amount w v > 0 \<and>
       StealFrom self v w = (steal_amount w v, steal_loop self r k w))"
  using assms(2)
proof (induction k)
  case 0
  then show ?case by simp
next
  case (Suc k)
  let ?n = "length (thiefs w)" let ?v = "(r + Suc k) mod ?n"
  have v: "?v < ?n" using Suc.prems by (intro mod_less_divisor) linarith
  have idx: "(r + ?n - (?n - Suc k)) mod ?n = ?v" using Suc.prems by (rule loop_index)
  note step = steal_loop.simps(2) [of self r k w, unfolded Let_def idx]
  show ?case
  proof (cases "?v \<noteq> self \<and> steal_amount w ?v > 0")
    case True
    then have "StealFrom self ?v w = (steal_amount w ?v, steal_loop self r (Suc k) w)"
      using step StealFrom_amount [OF assms(1) v] by (auto split: prod.splits)
    with True v show ?thesis by blast
  next
    case False
    then have skip: "steal_loop self r (Suc k) w = steal_loop self r k w"
      using step StealFrom_nothing [of w ?v self] by (auto split: prod.splits)
    have "\<forall>j. 1 \<le> j \<and> j \<le> Suc k \<longrightarrow> (r + j) mod ?n \<noteq> self \<longrightarrow> steal_amount w ((r + j) mod ?n) = 0"
      if "\<forall>j. 1 \<le> j \<and> j \<le> k \<longrightarrow> (r + j) mod ?n \<noteq> self \<longrightarrow> steal_amount w ((r + j) mod ?n) = 0"
      using that False by (auto simp: le_Suc_eq)
    with skip Suc.IH Suc.prems show ?thesis by auto
  qed
qed

text \<open>The positions visited by a whole round are all the thieves.\<close>

lemma round_covers:
  assumes "v < (n::nat)" "r < n"
  obtains j where "1 \<le> j" "j \<le> n" "(r + j) mod n = v"
proof (cases "r < v")
  case True
  with assms show ?thesis by (intro that [of "v - r"]) auto
next
  case False
  with assms have "(r + (v + n - r)) mod n = v" by simp
  with assms False show ?thesis by (intro that [of "v + n - r"]) auto
qed

definition can_steal_from_others :: "nat \<Rightarrow> 'a thief_pool_scheme \<Rightarrow> bool" where
  "can_steal_from_others self w \<longleftrightarrow>
     (\<exists>v < length (thiefs w). v \<noteq> self \<and> stealableCount (heap w) (readyq w v) > 1)"

lemma steal_round_nothing:
  assumes "self < length (thiefs w)" "\<not> can_steal_from_others self w"
  shows "steal_round self rnd w = w"
  using steal_loop_cases [OF assms(1) order_refl, of "rnd mod length (thiefs w)"] assms(2)
  by (auto simp: steal_round_def can_steal_from_others_def steal_amount_pos)

lemma steal_round_success:
  assumes i: "self < length (thiefs w)" and "can_steal_from_others self w"
  obtains v where "v < length (thiefs w)" "v \<noteq> self" "steal_amount w v > 0"
    "StealFrom self v w = (steal_amount w v, steal_round self rnd w)"
proof -
  let ?n = "length (thiefs w)" let ?r = "rnd mod ?n"
  from assms(2) obtain u where u: "u < ?n" "u \<noteq> self" "steal_amount w u > 0"
    by (auto simp: can_steal_from_others_def steal_amount_pos)
  have "?r < ?n" using i by (intro mod_less_divisor) linarith
  with u(1) obtain j where "1 \<le> j" "j \<le> ?n" "(?r + j) mod ?n = u" by (rule round_covers)
  then have "\<exists>v < ?n. v \<noteq> self \<and> steal_amount w v > 0 \<and>
      StealFrom self v w = (steal_amount w v, steal_round self rnd w)"
    using steal_loop_cases [OF i order_refl, of ?r] u unfolding steal_round_def by (metis less_not_refl3)
  then show ?thesis using that by blast
qed

lemma steal_round_readyq:
  assumes i: "self < length (thiefs w)" and c: "can_steal_from_others self w"
  shows "readyq (steal_round self rnd w) self \<noteq> []"
    and "thief_toContinue (thiefs (steal_round self rnd w) ! j) = thief_toContinue (thiefs w ! j)"
proof -
  obtain v where v: "v < length (thiefs w)" "v \<noteq> self" "steal_amount w v > 0"
    "StealFrom self v w = (steal_amount w v, steal_round self rnd w)"
    using steal_round_success [OF i c] .
  note facts = StealFrom_facts [OF i v(1) v(2) [symmetric] v(4)]
  have "steal_tasks w v \<noteq> []" using v(3) length_steal_tasks [of w v] by fastforce
  then show "readyq (steal_round self rnd w) self \<noteq> []" using facts(3) by simp
  show "thief_toContinue (thiefs (steal_round self rnd w) ! j) = thief_toContinue (thiefs w ! j)"
    using facts(9) .
qed

text \<open>C16. A stealing round visits every other thief, so it finds work exactly when some other
  thief has at least two stealable tasks queued; otherwise it changes nothing. This holds for
  every random start.\<close>

theorem steal_round_complete:
  assumes "self < length (thiefs w)" "readyq w self = []"
  shows "(readyq (steal_round self rnd w) self \<noteq> [] \<longleftrightarrow> can_steal_from_others self w) \<and>
    (\<not> can_steal_from_others self w \<longrightarrow> steal_round self rnd w = w)"
  using assms steal_round_readyq(1) steal_round_nothing by metis

theorem steal_round_complete_witness:
  "can_steal_from_others 0 demo_pool \<and> readyq (steal_round 0 17 demo_pool) 0 \<noteq> []"
proof -
  have c: "can_steal_from_others 0 demo_pool"
    by (auto simp: can_steal_from_others_def demo_simps stealableCount_def intro!: exI [of _ 1])
  have "readyq demo_pool 0 = []" by (simp add: demo_simps)
  with c show ?thesis using steal_round_complete [OF demo_pool_facts(1), of 17] by simp
qed

lemma thief_pop_no_fault:
  "readyq w self \<noteq> [] \<or> \<not> thief_toContinue (thiefs w ! self) \<Longrightarrow> thief_pop self w \<noteq> Fault e"
  by (auto simp: thief_pop_def split: list.splits)

lemma thief_pop_Some:
  assumes "thief_pop self u = Ok (Some t, w')"
  shows "status (heap w' t) = TASK_RUNNING" "\<not> isStealable (heap w' t)"
    "thief_toContinue (thiefs w' ! self)"
proof -
  show "status (heap w' t) = TASK_RUNNING" "\<not> isStealable (heap w' t)"
    using assms by (auto simp: thief_pop_def split: if_splits list.splits)
  show "thief_toContinue (thiefs w' ! self)"
  proof (cases "self < length (thiefs u)")
    case True
    then show ?thesis using assms by (auto simp: thief_pop_def split: if_splits list.splits)
  next
    case False
    then show ?thesis
      using assms by (auto simp: thief_pop_def list_update_beyond split: if_splits list.splits)
  qed
qed

lemma thief_GetNextTask_is_pop:
  "thief_GetNextTask self ins w = Ok r \<Longrightarrow> \<exists>u. thief_pop self u = Ok r"
proof (induction self ins w rule: thief_GetNextTask.induct)
  case (1 self ins w)
  from 1(2) show ?case
    by (subst (asm) thief_GetNextTask.simps)
      (auto simp: Let_def split: if_splits list.splits intro: 1(1))
qed

text \<open>A thief never pops an empty queue, whatever the random numbers, the interference of the
  other threads and the number of wake-ups; a task it hands out is marked running and can no
  longer be stolen; and the null result is the answer of a stopped thief only.\<close>

lemma thief_GetNextTask_safe:
  "thief_GetNextTask self ins w \<noteq> Fault e \<and>
   (\<forall>t w'. thief_GetNextTask self ins w = Ok (Some t, w') \<longrightarrow>
      status (heap w' t) = TASK_RUNNING \<and> \<not> isStealable (heap w' t) \<and>
      thief_toContinue (thiefs w' ! self)) \<and>
   (\<forall>w'. thief_GetNextTask self ins w = Ok (None, w') \<longrightarrow> \<not> thief_toContinue (thiefs w' ! self))"
proof (intro conjI allI impI)
  show "thief_GetNextTask self ins w \<noteq> Fault e"
  proof (induction self ins w rule: thief_GetNextTask.induct)
    case (1 self ins w)
    then show ?case
      by (subst thief_GetNextTask.simps)
        (auto simp: Let_def thief_pop_no_fault split: list.splits)
  qed
next
  fix t w' assume "thief_GetNextTask self ins w = Ok (Some t, w')"
  then obtain u where "thief_pop self u = Ok (Some t, w')" using thief_GetNextTask_is_pop by blast
  then show "status (heap w' t) = TASK_RUNNING" "\<not> isStealable (heap w' t)"
    "thief_toContinue (thiefs w' ! self)"
    by (simp_all add: thief_pop_Some)
next
  fix w' assume "thief_GetNextTask self ins w = Ok (None, w')"
  then obtain u where "thief_pop self u = Ok (None, w')" using thief_GetNextTask_is_pop by blast
  then show "\<not> thief_toContinue (thiefs w' ! self)"
    by (auto simp: thief_pop_def split: if_splits list.splits)
qed

lemma thief_GetNextTask_safe_witness:
  "\<exists>w'. thief_GetNextTask 1 [] demo_pool = Ok (Some 1, w') \<and>
        status (heap w' 1) = TASK_RUNNING \<and> \<not> isStealable (heap w' 1)"
proof -
  have "\<exists>w'. thief_GetNextTask 1 [] demo_pool = Ok (Some 1, w')"
    by (subst thief_GetNextTask.simps) (simp add: thief_pop_def demo_simps)
  then show ?thesis using thief_GetNextTask_safe [of 1 "[]" demo_pool] by blast
qed

text \<open>A running thief with work of its own, or with another thief that has two stealable
  tasks, returns a task without ever sleeping: the result does not depend on any wake-up.\<close>

lemma thief_GetNextTask_progress:
  assumes "self < length (thiefs w)" "thief_toContinue (thiefs w ! self)"
    and "readyq w self \<noteq> [] \<or> can_steal_from_others self w"
  shows "\<exists>t w'. \<forall>wake ins. thief_GetNextTask self ((r1, r2, wake) # ins) w = Ok (Some t, w')"
proof (cases "readyq w self")
  case (Cons t ts)
  then have "\<exists>w'. thief_pop self w = Ok (Some t, w')" using assms(2) by (simp add: thief_pop_def)
  then show ?thesis using Cons by (subst thief_GetNextTask.simps) auto
next
  case Nil
  with assms have c: "can_steal_from_others self w" by simp
  let ?w1 = "steal_round self r1 w"
  note got = steal_round_readyq [OF assms(1) c, of r1]
  have "retry_steal self r1 r2 w = ?w1" using got(1) by (simp add: retry_steal_def)
  moreover obtain t ts where "readyq ?w1 self = t # ts" using got(1) by (cases "readyq ?w1 self") auto
  moreover then have "\<exists>w'. thief_pop self ?w1 = Ok (Some t, w')"
    using got(2) assms(2) by (simp add: thief_pop_def)
  ultimately show ?thesis using Nil assms(2) by (subst thief_GetNextTask.simps) (auto simp: Let_def)
qed

lemma thief_GetNextTask_progress_witness:
  "\<exists>t w'. thief_GetNextTask 0 [(5, 6, \<lambda>w. w)] demo_pool = Ok (Some t, w')"
proof -
  have "thief_toContinue (thiefs demo_pool ! 0)" "can_steal_from_others 0 demo_pool"
    by (auto simp: can_steal_from_others_def demo_simps stealableCount_def intro!: exI [of _ 1])
  then show ?thesis using thief_GetNextTask_progress [OF demo_pool_facts(1), of 5 6] by blast
qed

end
