(* ===== verification/Decider.thy ===== *)
theory Decider
  imports Prelude "HOL-Library.Product_Lexorder"
begin

text \<open>
  The schedule decider (\<^verbatim>\<open>include/scheduler/decider.hpp\<close>, \<^verbatim>\<open>src/scheduler/decider.cc\<close>): the record
  of interactive arrivals of a cycle, the earliest-deadline-first simulation that counts how
  many of them a schedule could have served, and the choice between the two schedules.
\<close>

unbundle bit_operations_syntax

section \<open>Data\<close>

text \<open>A slot of a real-time schedule, relative to the start of the cycle. The identifier 0 marks
  a slot of the sporadic server, where interactive and batch tasks run.\<close>

record RealTimeSchedule =
  sTime :: Duration
  eTime :: Duration
  taskId :: u32

text \<open>The fields of \<^verbatim>\<open>ITaskEntry\<close> are of type \<^verbatim>\<open>long\<close>; slots and queue entries are pairs of
  \<^verbatim>\<open>uint64_t\<close>. Both are 64 bits wide, and the code compares them with each other: a mixed
  comparison is unsigned.\<close>

record ITaskEntry =
  it_deadline :: u64
  it_burst :: u64
  it_arrival :: u64

type_synonym QType = "u64 \<times> u64"

record Decider =
  period :: u64
  normalSSSlot :: "QType list"
  greedySSSlot :: "QType list"
  interactiveTaskRecord :: "ITaskEntry list"

text \<open>\<^verbatim>\<open>duration_cast\<close> from nanoseconds to microseconds truncates towards zero; \<^verbatim>\<open>count()\<close> is a
  64-bit integer.\<close>

definition duration_cast_us :: "Duration \<Rightarrow> int" where
  "duration_cast_us d = (if d \<ge> 0 then d div 1000 else - ((- d) div 1000))"

definition us_count :: "Duration \<Rightarrow> u64" where
  "us_count d = word_of_int (duration_cast_us d)"

section \<open>Operations\<close>

definition ss_slots :: "RealTimeSchedule list \<Rightarrow> QType list" where
  "ss_slots xs =
     map (\<lambda>x. (us_count (sTime x), us_count (eTime x))) (filter (\<lambda>x. taskId x = 0) xs)"

definition NotifyChangeOfSchedule ::
  "RealTimeSchedule list \<Rightarrow> RealTimeSchedule list \<Rightarrow> Decider \<Rightarrow> Decider outcome" where
  "NotifyChangeOfSchedule normal greedy d =
     (if normal = [] then Fault OutOfBounds
      else Ok (d\<lparr>normalSSSlot := ss_slots normal, greedySSSlot := ss_slots greedy,
                 period := us_count (eTime (last normal))\<rparr>))"

text \<open>The priority queue of pairs with the order \<^verbatim>\<open>std::greater\<close> yields the least pair first. It is
  kept as a sorted list; equal pairs cannot be told apart.\<close>

definition pair_le :: "QType \<Rightarrow> QType \<Rightarrow> bool" where
  "pair_le a b = (fst a < fst b \<or> (fst a = fst b \<and> snd a \<le> snd b))"

fun pq_push :: "QType \<Rightarrow> QType list \<Rightarrow> QType list" where
  "pq_push e [] = [e]"
| "pq_push e (x # xs) = (if pair_le e x then e # x # xs else x # pq_push e xs)"

text \<open>The three loops over one slot: take over the records that arrived before the end of the
  slot, drop the entries whose deadline is not after its start, and serve the rest in order.\<close>

fun admit :: "QType \<Rightarrow> ITaskEntry list \<Rightarrow> QType list \<Rightarrow> ITaskEntry list \<times> QType list" where
  "admit slot [] q = ([], q)"
| "admit slot (r # rs) q =
     (if it_arrival r \<ge> snd slot then (r # rs, q)
      else admit slot rs (pq_push (it_deadline r, it_burst r) q))"

fun drop_expired :: "QType \<Rightarrow> QType list \<Rightarrow> QType list" where
  "drop_expired slot [] = []"
| "drop_expired slot (e # q) = (if fst e \<le> fst slot then drop_expired slot q else e # q)"

lemma length_pq_push [simp]: "length (pq_push e q) = Suc (length q)"
  by (induction q) auto

text \<open>The time left in the slot is a \<^verbatim>\<open>long\<close>: the loop test is signed, the comparison with a burst
  is unsigned.\<close>

function serve :: "u64 \<Rightarrow> QType list \<Rightarrow> u64 \<Rightarrow> u64 \<times> QType list \<times> u64" where
  "serve tSlot q mCount =
     (if 0 <s tSlot \<and> q \<noteq> [] then
        (if snd (hd q) \<le> tSlot then serve (tSlot - snd (hd q)) (tl q) (mCount + 1)
         else serve 0 (pq_push (fst (hd q), snd (hd q) - tSlot) (tl q)) mCount)
      else (tSlot, q, mCount))"
  by pat_completeness auto

termination serve
  by (relation "measure (\<lambda>(t, q, m). length q + (if 0 <s t then 1 else 0))")
    (auto simp: length_tl neq_Nil_conv)

declare serve.simps [simp del]

fun match_slots :: "QType list \<Rightarrow> ITaskEntry list \<Rightarrow> QType list \<Rightarrow> u64 \<Rightarrow> u64" where
  "match_slots [] tRecord q mCount = mCount"
| "match_slots (slot # slots) tRecord q mCount =
     (let (tRecord', q1) = admit slot tRecord q;
          (tSlot, q2, mCount') = serve (snd slot - fst slot) (drop_expired slot q1) mCount
      in if q2 = [] \<and> tRecord' = [] then mCount' else match_slots slots tRecord' q2 mCount')"

definition CalculateMatchCount :: "QType list \<Rightarrow> Decider \<Rightarrow> u64" where
  "CalculateMatchCount schedule d = match_slots schedule (interactiveTaskRecord d) [] 0"

text \<open>The new record holds the deadline relative to the current cycle and the arrival time. The
  multiplication is one of \<^verbatim>\<open>long\<close>, the number of periods an unsigned 32-bit integer; \<open>now\<close> is
  the clock's reading.\<close>

definition RecordInteractiveJobArrival ::
  "u32 \<Rightarrow> TimePoint \<Rightarrow> TimePoint \<Rightarrow> u64 \<Rightarrow> u64 \<Rightarrow> Decider \<Rightarrow> Decider" where
  "RecordInteractiveJobArrival numPeriods cycleStart now dl bu d =
     d\<lparr>interactiveTaskRecord := interactiveTaskRecord d @
        [\<lparr>it_deadline = dl - ucast numPeriods * period d, it_burst = bu,
          it_arrival = us_count (now - cycleStart)\<rparr>]\<rparr>"

text \<open>\<^verbatim>\<open>std::sort\<close> is the parameter \<open>srt\<close>: it orders by arrival and may permute records that
  arrived at the same time. The random number is \<open>rnd\<close>.\<close>

definition DecideNextScheduleToRun ::
  "(ITaskEntry list \<Rightarrow> ITaskEntry list) \<Rightarrow> nat \<Rightarrow> Decider \<Rightarrow> bool \<times> Decider" where
  "DecideNextScheduleToRun srt rnd d =
     (if interactiveTaskRecord d = [] then (rnd mod 2 = 0, d)
      else
        (let d' = d\<lparr>interactiveTaskRecord := srt (interactiveTaskRecord d)\<rparr>;
             successCountNormal = CalculateMatchCount (normalSSSlot d') d';
             successCountGreedy = CalculateMatchCount (greedySSSlot d') d'
         in (successCountGreedy \<le> successCountNormal, d'\<lparr>interactiveTaskRecord := []\<rparr>)))"

section \<open>The priority queue\<close>

lemma pair_le_iff: "pair_le a b \<longleftrightarrow> a \<le> b"
  by (cases a; cases b) (auto simp: pair_le_def less_eq_prod_simp)

lemma pq_push_insort: "pq_push e q = insort e q"
  by (induction q) (auto simp: pair_le_iff)

lemma pq_push_simps [simp]:
  "mset (pq_push e q) = add_mset e (mset q)" "sorted (pq_push e q) = sorted q"
  by (simp_all add: pq_push_insort sorted_insort)

lemma pq_push_left_comm: "pq_push a (pq_push b q) = pq_push b (pq_push a q)"
  by (simp add: pq_push_insort insort_left_comm)

lemma pq_push_front: "sorted (x # q) \<Longrightarrow> e \<le> x \<Longrightarrow> pq_push e q = e # q"
  by (cases q) (auto simp: pair_le_iff)

section \<open>The loops over one slot\<close>

abbreviation entry :: "ITaskEntry \<Rightarrow> QType" where
  "entry r \<equiv> (it_deadline r, it_burst r)"

abbreviation arrives_before :: "QType \<Rightarrow> ITaskEntry \<Rightarrow> bool" where
  "arrives_before slot r \<equiv> it_arrival r < snd slot"

lemma admit_eq:
  "admit slot rs q =
     (dropWhile (arrives_before slot) rs,
      fold (\<lambda>r. pq_push (entry r)) (takeWhile (arrives_before slot) rs) q)"
  by (induction slot rs q rule: admit.induct) (auto simp: not_le)

lemma drop_expired_eq: "drop_expired slot q = dropWhile (\<lambda>e. fst e \<le> fst slot) q"
  by (induction slot q rule: drop_expired.induct) auto

lemma admit_sorted: "admit slot rs q = (rs', q') \<Longrightarrow> sorted q \<Longrightarrow> sorted q'"
  by (induction slot rs q rule: admit.induct) (auto split: if_splits)

lemma admit_length: "admit slot rs q = (rs', q') \<Longrightarrow> length rs' + length q' = length rs + length q"
  by (induction slot rs q rule: admit.induct) (auto split: if_splits)

lemma admit_le: "admit slot rs q = (rs', q') \<Longrightarrow> length rs' \<le> length rs"
  by (induction slot rs q rule: admit.induct) (auto split: if_splits)

lemma sorted_drop_expired: "sorted q \<Longrightarrow> sorted (drop_expired slot q)"
  by (simp add: drop_expired_eq sorted_dropWhile)

text \<open>In a sorted queue the expired entries are all in front, so every one of them goes.\<close>

lemma drop_expired_filter:
  "sorted q \<Longrightarrow> drop_expired slot q = filter (\<lambda>e. \<not> fst e \<le> fst slot) q"
proof (induction q)
  case Nil
  then show ?case by simp
next
  case (Cons e q)
  show ?case
  proof (cases "fst e \<le> fst slot")
    case True
    with Cons show ?thesis by simp
  next
    case False
    have "\<forall>x \<in> set q. fst e \<le> fst x" using Cons.prems by (auto simp: less_eq_prod_def)
    with False have "\<forall>x \<in> set q. \<not> fst x \<le> fst slot" by (meson order_trans)
    with False show ?thesis by simp
  qed
qed

section \<open>The server of a slot\<close>

definition work :: "QType list \<Rightarrow> int" where
  "work q = sum_list (map (\<lambda>e. uint (snd e)) q)"

lemma work_simps [simp]: "work [] = 0" "work (e # q) = uint (snd e) + work q"
  by (simp_all add: work_def)

lemma serve_stop: "\<not> 0 <s t \<or> q = [] \<Longrightarrow> serve t q m = (t, q, m)"
  by (subst serve.simps) auto

lemma serve_Cons:
  "0 <s t \<Longrightarrow> serve t (e # q) m =
     (if snd e \<le> t then serve (t - snd e) q (m + 1)
      else (0, pq_push (fst e, snd e - t) q, m))"
  by (subst serve.simps) (simp add: serve_stop)

text \<open>Serving a slot: the first \<open>n\<close> entries of the queue, in deadline order, are completed and
  counted; their bursts fit into the slot; the time used is exactly the work done; and the
  slot ends with no time left or with nothing left to do.\<close>

definition served :: "u64 \<Rightarrow> QType list \<Rightarrow> u64 \<Rightarrow> u64 \<times> QType list \<times> u64 \<Rightarrow> nat \<Rightarrow> bool" where
  "served t q m res n = (case res of (t', q', m') \<Rightarrow>
     n \<le> length q \<and> m' = m + of_nat n \<and> map fst q' = map fst (drop n q) \<and>
     work (take n q) \<le> uint t \<and> uint t - uint t' = work q - work q' \<and>
     (t' = 0 \<or> q' = []) \<and> sorted q')"

lemma served_Cons:
  assumes "snd e \<le> t" "sorted (e # q)" "served (t - snd e) q (m + 1) res n"
  shows "served t (e # q) m res (Suc n)"
  using assms uint_diff_u64 [OF assms(1)] by (auto simp: served_def split: prod.splits)

lemma serve_served:
  assumes "sorted q" "uint t < 2 ^ 63"
  shows "\<exists>n. served t q m (serve t q m) n"
  using assms
proof (induction q arbitrary: t m)
  case Nil
  then show ?case by (intro exI [of _ 0]) (simp add: served_def serve_stop)
next
  case (Cons e q)
  consider (zero) "uint t = 0" | (fits) "0 < uint t" "snd e \<le> t" | (long) "0 < uint t" "t < snd e"
    using uint_ge_0 [of t] by (metis not_le order_le_less)
  then show ?case
  proof cases
    case zero
    then show ?thesis using Cons.prems
      by (intro exI [of _ 0]) (simp add: served_def serve_stop sless_0_u64 uint_0_iff)
  next
    case fits
    then have "uint (t - snd e) < 2 ^ 63"
      using Cons.prems(2) uint_diff_u64 [OF fits(2)] uint_ge_0 [of "snd e"] by linarith
    then obtain n where "served (t - snd e) q (m + 1) (serve (t - snd e) q (m + 1)) n"
      using Cons.IH [of "t - snd e" "m + 1"] Cons.prems(1) by auto
    from served_Cons [OF fits(2) Cons.prems(1) this] show ?thesis
      using fits Cons.prems(2) by (auto simp: serve_Cons sless_0_u64)
  next
    case long
    have front: "pq_push (fst e, snd e - t) q = (fst e, snd e - t) # q"
      using long by (intro pq_push_front [OF Cons.prems(1)]) (simp add: less_eq_prod_def word_sub_le)
    have "(fst e, snd e - t) \<le> e" using long by (simp add: less_eq_prod_def word_sub_le)
    then have "sorted ((fst e, snd e - t) # q)" using Cons.prems(1) by (auto intro: order_trans)
    then show ?thesis using long long(2) [unfolded not_le [symmetric]] Cons.prems(2) front uint_diff_u64 [of t "snd e"]
      by (intro exI [of _ 0]) (simp add: served_def serve_Cons sless_0_u64 uint_ge_0)
  qed
qed

lemma serve_length:
  "serve t q m = (t', q', m') \<Longrightarrow> m' - m = of_nat (length q - length q') \<and> length q' \<le> length q"
proof (induction t q m rule: serve.induct)
  case (1 t q m)
  show ?case
  proof (cases "0 <s t \<and> q \<noteq> []")
    case True
    then obtain e r where q: "q = e # r" by (cases q) auto
    show ?thesis
    proof (cases "snd e \<le> t")
      case True
      then show ?thesis using 1 \<open>0 <s t \<and> q \<noteq> []\<close> q by (simp add: serve_Cons) (auto simp: Suc_diff_le algebra_simps)
    next
      case False
      then show ?thesis using 1(3) \<open>0 <s t \<and> q \<noteq> []\<close> q by (auto simp: serve_Cons)
    qed
  next
    case False
    then show ?thesis using 1(3) serve_stop [of t q m] by auto
  qed
qed

text \<open>C18. The simulation of one slot is work-conserving earliest-deadline-first: it completes and
  counts a prefix of the queue in deadline order, whose bursts fit into the slot; the time it
  uses is the work it removes; it leaves the slot only with no time or no work left; and the
  entry it leaves half-served keeps its place.\<close>

theorem serve_edf:
  assumes "sorted q" "uint t < 2 ^ 63" "serve t q m = (t', q', m')"
  shows "\<exists>n \<le> length q. m' = m + of_nat n \<and> map fst q' = map fst (drop n q) \<and>
    work (take n q) \<le> uint t \<and> uint t - uint t' = work q - work q' \<and>
    (t' = 0 \<or> q' = []) \<and> sorted q'"
  using serve_served [OF assms(1,2), of m] assms(3) by (auto simp: served_def)

theorem serve_edf_witness:
  "\<exists>q'. serve 10 [(5, 4), (7, 9)] 0 = (0, q', 1) \<and> map fst q' = [7] \<and> work q' = 3"
proof -
  have run: "serve 10 [(5, 4), (7, 9)] 0 = (0, [(7, 3)], 1)" by code_simp
  have "sorted [(5, 4), (7, 9) :: QType]" "uint (10 :: u64) < 2 ^ 63" by simp_all
  from serve_edf [OF this run] run show ?thesis by (auto simp: work_def)
qed

section \<open>The match count\<close>

text \<open>The count never exceeds the number of records, for any slots: nothing is counted twice.\<close>

lemma unat_add_of_nat_le: "unat (m + of_nat k :: u64) \<le> unat m + k"
proof -
  have "unat (m + of_nat k :: u64) \<le> unat m + unat (of_nat k :: u64)" by unat_arith
  moreover have "unat (of_nat k :: u64) \<le> k" by (simp add: unat_of_nat)
  ultimately show ?thesis by linarith
qed

lemma drop_expired_length: "length (drop_expired slot q) \<le> length q"
  by (simp add: drop_expired_eq length_dropWhile_le)

lemma match_slots_bound:
  "unat (match_slots slots rs q m) \<le> unat m + length rs + length q"
proof (induction slots rs q m rule: match_slots.induct)
  case (1 rs q m)
  then show ?case by simp
next
  case (2 slot slots rs q m)
  obtain rs' q1 where a: "admit slot rs q = (rs', q1)" by (cases "admit slot rs q")
  obtain t q2 m' where s: "serve (snd slot - fst slot) (drop_expired slot q1) m = (t, q2, m')"
    by (cases "serve (snd slot - fst slot) (drop_expired slot q1) m") auto
  have m': "m' = m + of_nat (length (drop_expired slot q1) - length q2)"
    and l: "length q2 \<le> length (drop_expired slot q1)"
    using serve_length [OF s] by (auto simp: algebra_simps)
  have "unat m' \<le> unat m + (length (drop_expired slot q1) - length q2)"
    by (simp only: m' unat_add_of_nat_le)
  then have "unat m' + length q2 \<le> unat m + length q1"
    using l drop_expired_length [of slot q1] by linarith
  then have "unat m' + length rs' + length q2 \<le> unat m + length rs + length q"
    using admit_length [OF a] by linarith
  then show ?case using a s "2.IH" [OF a [symmetric] refl s [symmetric] refl refl] by auto
qed

text \<open>Records with equal arrival times can be swapped.\<close>

abbreviation arrival_sorted :: "ITaskEntry list \<Rightarrow> bool" where
  "arrival_sorted rs \<equiv> sorted_wrt (\<lambda>a b. sint (it_arrival a) \<le> sint (it_arrival b)) rs"

lemma admit_perm:
  assumes "mset rs = mset rs'" "arrival_sorted rs" "arrival_sorted rs'"
  shows "mset (fst (admit slot rs q)) = mset (fst (admit slot rs' q))"
    and "snd (admit slot rs q) = snd (admit slot rs' q)"
    and "arrival_sorted (fst (admit slot rs q))"
proof -
  have tw: "mset (takeWhile (arrives_before slot) rs) = mset (takeWhile (arrives_before slot) rs')"
    using mset_takeWhile_sorted [OF assms(2), of "\<lambda>k. word_of_int k < snd slot"]
      mset_takeWhile_sorted [OF assms(3), of "\<lambda>k. word_of_int k < snd slot"] assms(1)
    by simp
  have split: "mset (takeWhile P xs) + mset (dropWhile P xs) = mset xs" for P and xs :: "ITaskEntry list"
    by (metis mset_append takeWhile_dropWhile_id)
  have "mset (takeWhile (arrives_before slot) rs) + mset (dropWhile (arrives_before slot) rs) =
        mset (takeWhile (arrives_before slot) rs) + mset (dropWhile (arrives_before slot) rs')"
    unfolding split unfolding tw split by (rule assms(1))
  then show "mset (fst (admit slot rs q)) = mset (fst (admit slot rs' q))"
    by (simp add: admit_eq)
  show "snd (admit slot rs q) = snd (admit slot rs' q)"
    using fold_multiset_equiv [OF _ tw, of "\<lambda>r. pq_push (entry r)"] pq_push_left_comm
    by (simp add: admit_eq fun_eq_iff)
  show "arrival_sorted (fst (admit slot rs q))"
    using assms(2) by (simp add: admit_eq)
qed

lemma match_slots_perm:
  "mset rs = mset rs' \<Longrightarrow> arrival_sorted rs \<Longrightarrow> arrival_sorted rs' \<Longrightarrow>
   match_slots slots rs q m = match_slots slots rs' q m"
proof (induction slots arbitrary: rs rs' q m)
  case Nil
  then show ?case by simp
next
  case (Cons slot slots)
  note p = admit_perm [OF Cons.prems, of slot q]
  have s': "arrival_sorted (fst (admit slot rs' q))"
    using admit_perm(3) [OF Cons.prems(1) [symmetric] Cons.prems(3,2)] .
  have "fst (admit slot rs q) = [] \<longleftrightarrow> fst (admit slot rs' q) = []"
    using p(1) by (metis mset_zero_iff)
  then show ?case using p(2) Cons.IH [OF p(1) p(3) s']
    by (auto simp: Let_def split: prod.splits)
qed

text \<open>No schedule is credited with more completed interactive tasks than arrived.\<close>

lemma CalculateMatchCount_bound:
  "unat (CalculateMatchCount schedule d) \<le> length (interactiveTaskRecord d)"
  using match_slots_bound [of schedule "interactiveTaskRecord d" "[]" 0]
  by (simp add: CalculateMatchCount_def)

section \<open>The decision\<close>

text \<open>What \<^verbatim>\<open>std::sort\<close> promises: a permutation that is ordered by arrival.\<close>

definition sorts_by_arrival :: "(ITaskEntry list \<Rightarrow> ITaskEntry list) \<Rightarrow> bool" where
  "sorts_by_arrival srt \<longleftrightarrow> (\<forall>rs. mset (srt rs) = mset rs \<and> arrival_sorted (srt rs))"

definition ref_sort :: "ITaskEntry list \<Rightarrow> ITaskEntry list" where
  "ref_sort = sort_key (\<lambda>r. sint (it_arrival r))"

lemma ref_sort_ok: "sorts_by_arrival ref_sort"
  using sorted_sort_key [of "\<lambda>r :: ITaskEntry. sint (it_arrival r)"]
  unfolding sorts_by_arrival_def ref_sort_def sorted_map by simp

lemma CalculateMatchCount_sort:
  assumes "sorts_by_arrival srt"
  shows "CalculateMatchCount slots (d\<lparr>interactiveTaskRecord := srt rs\<rparr>) =
         CalculateMatchCount slots (d\<lparr>interactiveTaskRecord := ref_sort rs\<rparr>)"
  using assms ref_sort_ok unfolding sorts_by_arrival_def CalculateMatchCount_def
  by (auto intro!: match_slots_perm)

text \<open>C20. The decision is deterministic although the sort is unstable: for every sort that orders
  by arrival, the normal schedule is chosen exactly when the greedy one does not serve more of
  the recorded tasks, counted on the stably sorted record; the record is emptied and nothing
  else of the decider changes.\<close>

theorem DecideNextScheduleToRun_deterministic:
  assumes "sorts_by_arrival srt" "interactiveTaskRecord d \<noteq> []"
  shows "DecideNextScheduleToRun srt rnd d =
    (CalculateMatchCount (greedySSSlot d) (d\<lparr>interactiveTaskRecord := ref_sort (interactiveTaskRecord d)\<rparr>)
     \<le> CalculateMatchCount (normalSSSlot d) (d\<lparr>interactiveTaskRecord := ref_sort (interactiveTaskRecord d)\<rparr>),
     d\<lparr>interactiveTaskRecord := []\<rparr>)"
  using assms(2) by (simp add: DecideNextScheduleToRun_def Let_def CalculateMatchCount_sort [OF assms(1)])

definition demo_decider :: Decider where
  "demo_decider = \<lparr>period = 100, normalSSSlot = [(0, 10)], greedySSSlot = [(0, 10), (20, 40)],
     interactiveTaskRecord = [\<lparr>it_deadline = 30, it_burst = 8, it_arrival = 15\<rparr>,
                              \<lparr>it_deadline = 40, it_burst = 5, it_arrival = 2\<rparr>]\<rparr>"

theorem DecideNextScheduleToRun_deterministic_witness:
  "fst (DecideNextScheduleToRun (\<lambda>rs. ref_sort (rev rs)) 0 demo_decider) = False"
proof -
  have s: "sorts_by_arrival (\<lambda>rs. ref_sort (rev rs))"
    using ref_sort_ok by (auto simp: sorts_by_arrival_def)
  have "interactiveTaskRecord demo_decider \<noteq> []" by (simp add: demo_decider_def)
  then have "fst (DecideNextScheduleToRun (\<lambda>rs. ref_sort (rev rs)) 0 demo_decider) =
      fst (DecideNextScheduleToRun ref_sort 0 demo_decider)"
    using DecideNextScheduleToRun_deterministic [OF s] DecideNextScheduleToRun_deterministic [OF ref_sort_ok]
    by simp
  also have "\<dots> = False" by code_simp
  finally show ?thesis .
qed

text \<open>Deadlines are compared unsigned. A deadline within the cycle that is not after the start
  of the slot is dropped, but one that lies before the start of the cycle, a negative number,
  counts as far in the future: such a task is credited to the schedule although it is late.\<close>

lemma past_deadline_is_credited:
  assumes "interactiveTaskRecord d = [r]" "it_arrival r < snd slot"
    and "fst slot < snd slot" "uint (snd slot) < 2 ^ 63" "it_burst r \<le> snd slot - fst slot"
  shows "(sint (it_deadline r) < 0 \<longrightarrow> CalculateMatchCount [slot] d = 1) \<and>
         (0 \<le> sint (it_deadline r) \<and> sint (it_deadline r) \<le> sint (fst slot) \<longrightarrow>
            CalculateMatchCount [slot] d = 0)"
proof -
  have "uint (snd slot - fst slot) = uint (snd slot) - uint (fst slot)"
    using assms(3) by (intro uint_diff_u64) simp
  then have pos: "0 <s snd slot - fst slot"
    using assms(3,4) uint_ge_0 [of "fst slot"] unfolding sless_0_u64 word_less_def by linarith
  have f: "uint (fst slot) < 2 ^ 63" using assms(3,4) unfolding word_less_def by linarith
  have count: "CalculateMatchCount [slot] d = (if it_deadline r \<le> fst slot then 0 else 1)"
    using assms pos assms(2) [unfolded not_le [symmetric]]
    by (simp add: CalculateMatchCount_def serve_Cons serve_stop)
  have "it_deadline r \<le> fst slot \<longleftrightarrow> 0 \<le> sint (it_deadline r) \<and> sint (it_deadline r) \<le> sint (fst slot)"
    using f uint_lt2p [of "it_deadline r"] unfolding word_le_def sint_u64 by auto
  with count show ?thesis by auto
qed

lemma past_deadline_is_credited_witness:
  "CalculateMatchCount [(0, 10)] (demo_decider\<lparr>interactiveTaskRecord :=
     [\<lparr>it_deadline = -1, it_burst = 8, it_arrival = 5\<rparr>]\<rparr>) = 1"
  using past_deadline_is_credited [of "demo_decider\<lparr>interactiveTaskRecord :=
     [\<lparr>it_deadline = -1, it_burst = 8, it_arrival = 5\<rparr>]\<rparr>"
     "\<lparr>it_deadline = -1, it_burst = 8, it_arrival = 5\<rparr>" "(0, 10)"]
  by simp

end
