(* ===== verification/Ready.thy ===== *)
theory Ready
  imports Thief Decider
begin

text \<open>
  The state of the main scheduler (\<^verbatim>\<open>include/scheduler/scheduler.hpp\<close>) and making a task ready:
  \<^verbatim>\<open>Enable\<close> and \<^verbatim>\<open>EnableImmediately\<close> of both schedulers and their dispatch on the scheduler a
  task belongs to. The locale \<open>enabler\<close> is the contract of \<^verbatim>\<open>SchedulerBase\<close> that the rest of the
  program relies on; every implementation is an interpretation of it.
\<close>

section \<open>State of the main scheduler\<close>

text \<open>The scheduler's own fields, on top of the task store and the thieves. The interactive ready
  queue and the real-time table are containers without an order the code relies on; \<open>active\<close> is
  the thread-local \<^verbatim>\<open>thisTask\<close> of the main thread.\<close>

record sched = thief_pool +
  bQueue :: "tid list"
  iEDFPriorityQueue :: "tid list"
  iCancelStack :: "tid list"
  rtRegisterTable :: "tid list"
  vClockI :: Duration
  vClockB :: Duration
  currentTime :: TimePoint
  schedulerStartTime :: TimePoint
  cycleStartTime :: TimePoint
  taskStartTime :: TimePoint
  rtScheduleNormal :: "RealTimeSchedule list"
  rtScheduleGreedy :: "RealTimeSchedule list"
  currentSchedule :: "RealTimeSchedule list"
  idxRealTimeTask :: nat
  numberOfPeriods :: u32
  jitters :: "Duration list"
  toContinue :: bool
  decider :: Decider
  active :: "tid option"

text \<open>The constructor with a given number of thieves. The decider's period is uninitialised in the
  code and is the argument \<open>p0\<close>.\<close>

definition new_RIBScheduler :: "nat \<Rightarrow> u64 \<Rightarrow> (tid \<Rightarrow> TaskInterface) \<Rightarrow> sched" where
  "new_RIBScheduler nThiefs p0 h =
     \<lparr>heap = h, waitList = (\<lambda>_. []), freed = [], trace = [],
      thiefs = replicate nThiefs new_StealScheduler,
      bQueue = [], iEDFPriorityQueue = [], iCancelStack = [], rtRegisterTable = [],
      vClockI = 0, vClockB = 0,
      currentTime = 0, schedulerStartTime = 0, cycleStartTime = 0, taskStartTime = 0,
      rtScheduleNormal = [], rtScheduleGreedy = [], currentSchedule = [], idxRealTimeTask = 0,
      numberOfPeriods = -1, jitters = [], toContinue = True,
      decider = \<lparr>period = p0, normalSSSlot = [], greedySSSlot = [], interactiveTaskRecord = []\<rparr>,
      active = None\<rparr>"

section \<open>Enabling\<close>

definition rib_Enable :: "tid \<Rightarrow> 'a sched_scheme \<Rightarrow> 'a sched_scheme outcome" where
  "rib_Enable t w =
     (if taskType (heap w t) = INTERACTIVE_TASK_T \<and> List.member (iEDFPriorityQueue w) t
         \<or> taskType (heap w t) = BATCH_TASK_T \<and> List.member (bQueue w) t
      then Fault AssertFailed
      else
        (let w1 = (if taskType (heap w t) = INTERACTIVE_TASK_T
                   then w\<lparr>iEDFPriorityQueue := iEDFPriorityQueue w @ [t]\<rparr> else w);
             w2 = (if taskType (heap w t) = BATCH_TASK_T then w1\<lparr>bQueue := bQueue w1 @ [t]\<rparr> else w1)
         in Ok (upd_task t (status_update (\<lambda>_. TASK_READY)) w2)))"

definition rib_EnableImmediately :: "tid \<Rightarrow> 'a sched_scheme \<Rightarrow> 'a sched_scheme outcome" where
  "rib_EnableImmediately t w =
     (if taskType (heap w t) = INTERACTIVE_TASK_T \<and> List.member (iEDFPriorityQueue w) t
         \<or> taskType (heap w t) = BATCH_TASK_T \<and> List.member (bQueue w) t
      then Fault AssertFailed
      else
        (let w1 = (if taskType (heap w t) = INTERACTIVE_TASK_T
                   then w\<lparr>iEDFPriorityQueue := iEDFPriorityQueue w @ [t]\<rparr> else w);
             w2 = (if taskType (heap w t) = BATCH_TASK_T then w1\<lparr>bQueue := t # bQueue w1\<rparr> else w1)
         in Ok (upd_task t (status_update (\<lambda>_. TASK_READY)) w2)))"

text \<open>\<^verbatim>\<open>TaskInterface::Enable\<close> and \<^verbatim>\<open>EnableImmediately\<close> call the scheduler the task belongs to. The
  main scheduler takes its queue lock, which does not admit a second acquisition by the same
  thread: \<open>held\<close> says that the caller's thread already holds it.\<close>

definition task_Enable :: "bool \<Rightarrow> tid \<Rightarrow> 'a sched_scheme \<Rightarrow> 'a sched_scheme outcome" where
  "task_Enable held t w =
     (case scheduler (heap w t) of
        RIBPtr \<Rightarrow> if held then Fault Deadlock else rib_Enable t w
      | ThiefPtr i \<Rightarrow> thief_Enable i t w)"

definition task_EnableImmediately :: "bool \<Rightarrow> tid \<Rightarrow> 'a sched_scheme \<Rightarrow> 'a sched_scheme outcome" where
  "task_EnableImmediately held t w =
     (case scheduler (heap w t) of
        RIBPtr \<Rightarrow> if held then Fault Deadlock else rib_EnableImmediately t w
      | ThiefPtr i \<Rightarrow> thief_EnableImmediately i t w)"

section \<open>Frame lemmas\<close>

lemma sched_upd_task [simp]:
  "bQueue (upd_task t f w) = bQueue w" "iEDFPriorityQueue (upd_task t f w) = iEDFPriorityQueue w"
  "iCancelStack (upd_task t f w) = iCancelStack w" "rtRegisterTable (upd_task t f w) = rtRegisterTable w"
  "vClockI (upd_task t f w) = vClockI w" "vClockB (upd_task t f w) = vClockB w"
  "currentTime (upd_task t f w) = currentTime w" "schedulerStartTime (upd_task t f w) = schedulerStartTime w"
  "cycleStartTime (upd_task t f w) = cycleStartTime w" "taskStartTime (upd_task t f w) = taskStartTime w"
  "rtScheduleNormal (upd_task t f w) = rtScheduleNormal w"
  "rtScheduleGreedy (upd_task t f w) = rtScheduleGreedy w"
  "currentSchedule (upd_task t f w) = currentSchedule w" "idxRealTimeTask (upd_task t f w) = idxRealTimeTask w"
  "numberOfPeriods (upd_task t f w) = numberOfPeriods w" "jitters (upd_task t f w) = jitters w"
  "toContinue (upd_task t f w) = toContinue w" "decider (upd_task t f w) = decider w"
  "active (upd_task t f w) = active w"
  by (simp_all add: upd_task_def)

lemma sched_upd_thief [simp]:
  "bQueue (upd_thief i g w) = bQueue w" "iEDFPriorityQueue (upd_thief i g w) = iEDFPriorityQueue w"
  "iCancelStack (upd_thief i g w) = iCancelStack w" "rtRegisterTable (upd_thief i g w) = rtRegisterTable w"
  "vClockI (upd_thief i g w) = vClockI w" "vClockB (upd_thief i g w) = vClockB w"
  "currentTime (upd_thief i g w) = currentTime w" "schedulerStartTime (upd_thief i g w) = schedulerStartTime w"
  "cycleStartTime (upd_thief i g w) = cycleStartTime w" "taskStartTime (upd_thief i g w) = taskStartTime w"
  "rtScheduleNormal (upd_thief i g w) = rtScheduleNormal w"
  "rtScheduleGreedy (upd_thief i g w) = rtScheduleGreedy w"
  "currentSchedule (upd_thief i g w) = currentSchedule w" "idxRealTimeTask (upd_thief i g w) = idxRealTimeTask w"
  "numberOfPeriods (upd_thief i g w) = numberOfPeriods w" "jitters (upd_thief i g w) = jitters w"
  "toContinue (upd_thief i g w) = toContinue w" "decider (upd_thief i g w) = decider w"
  "active (upd_thief i g w) = active w"
  by (simp_all add: upd_thief_def)

section \<open>The contract of the schedulers\<close>

text \<open>What a client of \<^verbatim>\<open>SchedulerBase\<close> relies on. A scheduler accepts a task it will queue;
  enabling an accepted task that is not queued makes it ready and queued and touches no other
  task; enabling it again before it is dispatched is an assertion failure.\<close>

locale enabler =
  fixes enable :: "tid \<Rightarrow> 'w \<Rightarrow> 'w outcome"
    and accepts :: "tid \<Rightarrow> 'w \<Rightarrow> bool"
    and linked :: "tid \<Rightarrow> 'w \<Rightarrow> bool"
    and status_of :: "'w \<Rightarrow> tid \<Rightarrow> TaskStatus"
  assumes en_dup: "accepts t w \<Longrightarrow> linked t w \<Longrightarrow> enable t w = Fault AssertFailed"
    and en_ok: "accepts t w \<Longrightarrow> \<not> linked t w \<Longrightarrow> \<exists>w'. enable t w = Ok w'"
    and en_self: "accepts t w \<Longrightarrow> enable t w = Ok w' \<Longrightarrow> linked t w' \<and> status_of w' t = TASK_READY"
    and en_other: "accepts t w \<Longrightarrow> enable t w = Ok w' \<Longrightarrow> u \<noteq> t \<Longrightarrow>
        linked u w' = linked u w \<and> status_of w' u = status_of w u"
    and en_accepts: "accepts t w \<Longrightarrow> enable t w = Ok w' \<Longrightarrow> accepts u w' = accepts u w"
begin

lemma enable_twice: "accepts t w \<Longrightarrow> enable t w = Ok w' \<Longrightarrow> enable t w' = Fault AssertFailed"
  using en_self en_accepts en_dup by blast

text \<open>A batch of distinct tasks, none of them queued, can be enabled one after the other.\<close>

lemma enable_each:
  assumes "distinct ts" "\<And>t. t \<in> set ts \<Longrightarrow> accepts t w \<and> \<not> linked t w"
  shows "\<exists>w'. each enable ts w = Ok w' \<and>
    (\<forall>t \<in> set ts. linked t w' \<and> status_of w' t = TASK_READY) \<and>
    (\<forall>u. u \<notin> set ts \<longrightarrow> linked u w' = linked u w \<and> status_of w' u = status_of w u)"
  using assms
proof (induction ts arbitrary: w)
  case Nil
  then show ?case by simp
next
  case (Cons t ts)
  obtain w1 where w1: "enable t w = Ok w1" using Cons.prems(2) [of t] en_ok by auto
  have t: "accepts t w" "t \<notin> set ts" using Cons.prems by simp_all
  have "accepts u w1 \<and> \<not> linked u w1" if "u \<in> set ts" for u
    using that Cons.prems(2) [of u] t en_other [OF t(1) w1] en_accepts [OF t(1) w1] by fastforce
  then obtain w' where "each enable ts w1 = Ok w'"
    "\<forall>u \<in> set ts. linked u w' \<and> status_of w' u = TASK_READY"
    "\<forall>u. u \<notin> set ts \<longrightarrow> linked u w' = linked u w1 \<and> status_of w' u = status_of w1 u"
    using Cons.IH [of w1] Cons.prems(1) by auto
  then show ?case using w1 t en_self [OF t(1) w1] en_other [OF t(1) w1] by fastforce
qed

end

text \<open>The hook a scheduler would use to queue a task.\<close>

definition rib_linked :: "tid \<Rightarrow> 'a sched_scheme \<Rightarrow> bool" where
  "rib_linked t w = (case taskType (heap w t) of
      INTERACTIVE_TASK_T \<Rightarrow> List.member (iEDFPriorityQueue w) t
    | BATCH_TASK_T \<Rightarrow> List.member (bQueue w) t
    | REAL_TIME_TASK_T \<Rightarrow> False)"

definition rib_accepts :: "tid \<Rightarrow> 'a sched_scheme \<Rightarrow> bool" where
  "rib_accepts t w = (taskType (heap w t) \<noteq> REAL_TIME_TASK_T)"

definition task_linked :: "tid \<Rightarrow> 'a sched_scheme \<Rightarrow> bool" where
  "task_linked t w = (case scheduler (heap w t) of RIBPtr \<Rightarrow> rib_linked t w | ThiefPtr i \<Rightarrow> tr_linked t w)"

definition task_accepts :: "tid \<Rightarrow> 'a sched_scheme \<Rightarrow> bool" where
  "task_accepts t w = (case scheduler (heap w t) of
      RIBPtr \<Rightarrow> rib_accepts t w | ThiefPtr i \<Rightarrow> i < length (thiefs w))"

lemma tr_linked_nth: "tr_linked u w \<longleftrightarrow> (\<exists>j < length (thiefs w). u \<in> set (readyq w j))"
  by (metis in_set_conv_nth tr_linked_iff)

lemma tr_linked_upd_thief:
  assumes "i < length (thiefs w)" "set (isReady (f (thiefs w ! i))) = insert t (set (readyq w i))"
  shows "tr_linked u (upd_thief i f w) \<longleftrightarrow> u = t \<or> tr_linked u w"
proof -
  have "u \<in> set (readyq (upd_thief i f w) j) \<longleftrightarrow> (j = i \<and> u = t) \<or> u \<in> set (readyq w j)"
    if "j < length (thiefs w)" for j
    using that assms by (cases "j = i") auto
  then show ?thesis using assms(1) unfolding tr_linked_nth by auto
qed

lemma tr_linked_upd_task: "tr_linked u (upd_task t f w) = tr_linked u w"
  by simp

declare tr_linked_iff [simp del]

lemmas thief_enable_defs = thief_Enable_def thief_EnableImmediately_def tr_linked_upd_task

interpretation thief_en: enabler "thief_Enable i" "\<lambda>t w. i < length (thiefs w)" tr_linked
    "\<lambda>w t. status (heap w t)" for i
  by unfold_locales (auto simp: thief_enable_defs tr_linked_upd_thief split: if_splits)

interpretation thief_enI: enabler "thief_EnableImmediately i" "\<lambda>t w. i < length (thiefs w)" tr_linked
    "\<lambda>w t. status (heap w t)" for i
  by unfold_locales (auto simp: thief_enable_defs tr_linked_upd_thief split: if_splits)

lemmas rib_enable_defs = rib_Enable_def rib_EnableImmediately_def rib_linked_def rib_accepts_def Let_def

interpretation rib_en: enabler rib_Enable rib_accepts rib_linked "\<lambda>w t. status (heap w t)"
  by unfold_locales (auto simp: rib_enable_defs split: if_splits TaskType.splits)

interpretation rib_enI: enabler rib_EnableImmediately rib_accepts rib_linked "\<lambda>w t. status (heap w t)"
  by unfold_locales (auto simp: rib_enable_defs split: if_splits TaskType.splits)

text \<open>The dispatch on the task's scheduler meets the same contract, as long as the caller does not
  hold the main queue lock.\<close>

lemma rib_enable_frame:
  "rib_Enable t w = Ok w' \<Longrightarrow> thiefs w' = thiefs w \<and> (\<forall>u. scheduler (heap w' u) = scheduler (heap w u) \<and>
     taskType (heap w' u) = taskType (heap w u))"
  "rib_EnableImmediately t w = Ok w' \<Longrightarrow> thiefs w' = thiefs w \<and> (\<forall>u. scheduler (heap w' u) = scheduler (heap w u) \<and>
     taskType (heap w' u) = taskType (heap w u))"
  by (auto simp: rib_enable_defs split: if_splits)

lemma thief_enable_frame:
  "thief_Enable i t w = Ok w' \<Longrightarrow> length (thiefs w') = length (thiefs w) \<and>
     bQueue w' = bQueue w \<and> iEDFPriorityQueue w' = iEDFPriorityQueue w \<and>
     (\<forall>u. scheduler (heap w' u) = scheduler (heap w u) \<and> taskType (heap w' u) = taskType (heap w u))"
  "thief_EnableImmediately i t w = Ok w' \<Longrightarrow> length (thiefs w') = length (thiefs w) \<and>
     bQueue w' = bQueue w \<and> iEDFPriorityQueue w' = iEDFPriorityQueue w \<and>
     (\<forall>u. scheduler (heap w' u) = scheduler (heap w u) \<and> taskType (heap w' u) = taskType (heap w u))"
  by (auto simp: thief_enable_defs split: if_splits)

lemma tr_linked_cong: "thiefs w' = thiefs w \<Longrightarrow> tr_linked u w' = tr_linked u w"
  by (simp add: tr_linked_def)

lemma rib_linked_cong:
  "bQueue w' = bQueue w \<Longrightarrow> iEDFPriorityQueue w' = iEDFPriorityQueue w \<Longrightarrow>
   taskType (heap w' u) = taskType (heap w u) \<Longrightarrow> rib_linked u w' = rib_linked u w"
  by (simp add: rib_linked_def split: TaskType.split)

lemma rib_accepts_cong: "taskType (heap w' u) = taskType (heap w u) \<Longrightarrow> rib_accepts u w' = rib_accepts u w"
  by (simp add: rib_accepts_def)

lemmas dispatch_defs = task_linked_def task_accepts_def

lemma enabler_dispatch:
  fixes ren :: "tid \<Rightarrow> 'a sched_scheme \<Rightarrow> 'a sched_scheme outcome"
    and ten :: "nat \<Rightarrow> tid \<Rightarrow> 'a sched_scheme \<Rightarrow> 'a sched_scheme outcome"
  defines "en \<equiv> \<lambda>t w. case scheduler (heap w t) of RIBPtr \<Rightarrow> ren t w | ThiefPtr i \<Rightarrow> ten i t w"
  assumes r: "enabler ren rib_accepts rib_linked (\<lambda>w t. status (heap w t))"
    and th: "\<And>i. enabler (ten i) (\<lambda>t w. i < length (thiefs w)) tr_linked (\<lambda>w t. status (heap w t))"
    and rf: "\<And>t w w'. ren t w = Ok w' \<Longrightarrow> thiefs w' = thiefs w \<and>
      (\<forall>u. scheduler (heap w' u) = scheduler (heap w u) \<and> taskType (heap w' u) = taskType (heap w u))"
    and tf: "\<And>i t w w'. ten i t w = Ok w' \<Longrightarrow> length (thiefs w') = length (thiefs w) \<and>
      bQueue w' = bQueue w \<and> iEDFPriorityQueue w' = iEDFPriorityQueue w \<and>
      (\<forall>u. scheduler (heap w' u) = scheduler (heap w u) \<and> taskType (heap w' u) = taskType (heap w u))"
  shows "enabler en task_accepts task_linked (\<lambda>w t. status (heap w t))"
proof -
  have post: "task_linked t w' \<and> status (heap w' t) = TASK_READY \<and>
      (\<forall>u. u \<noteq> t \<longrightarrow> task_linked u w' = task_linked u w \<and> status (heap w' u) = status (heap w u)) \<and>
      (\<forall>u. task_accepts u w' = task_accepts u w)"
    if a: "task_accepts t w" and e: "en t w = Ok w'" for t w w'
  proof (cases "scheduler (heap w t)")
    case RIBPtr
    then have e': "ren t w = Ok w'" and a': "rib_accepts t w" using a e by (simp_all add: en_def dispatch_defs)
    note f = rf [OF e'] enabler.en_self [OF r a' e'] enabler.en_other [OF r a' e']
    show ?thesis using RIBPtr f tr_linked_cong [of w' w] rib_accepts_cong [of w' _ w]
      by (simp add: dispatch_defs split: SchedulerPtr.split)
  next
    case (ThiefPtr i)
    then have e': "ten i t w = Ok w'" and a': "i < length (thiefs w)" using a e by (simp_all add: en_def dispatch_defs)
    note f = tf [OF e'] enabler.en_self [OF th a' e'] enabler.en_other [OF th a' e']
    show ?thesis using ThiefPtr f rib_linked_cong [of w' w] rib_accepts_cong [of w' _ w]
      by (simp add: dispatch_defs split: SchedulerPtr.split)
  qed
  show ?thesis
  proof (unfold_locales, goal_cases)
    case (1 t w)
    then show ?case using enabler.en_dup [OF r] enabler.en_dup [OF th]
      by (auto simp: en_def dispatch_defs split: SchedulerPtr.splits)
  next
    case (2 t w)
    then show ?case using enabler.en_ok [OF r, of t w] enabler.en_ok [OF th, of _ w t]
      by (auto simp: en_def dispatch_defs split: SchedulerPtr.splits)
  qed (use post in blast)+
qed

interpretation task_en: enabler "task_Enable False" task_accepts task_linked "\<lambda>w t. status (heap w t)"
  unfolding task_Enable_def if_False
  by (rule enabler_dispatch [OF rib_en.enabler_axioms thief_en.enabler_axioms
        rib_enable_frame(1) thief_enable_frame(1)])

interpretation task_enI: enabler "task_EnableImmediately False" task_accepts task_linked "\<lambda>w t. status (heap w t)"
  unfolding task_EnableImmediately_def if_False
  by (rule enabler_dispatch [OF rib_enI.enabler_axioms thief_enI.enabler_axioms
        rib_enable_frame(2) thief_enable_frame(2)])

end
