(* ===== verification/ThiefSystem.thy ===== *)
theory ThiefSystem
  imports Ready
begin

text \<open>
  The thieves as concurrent processes. Each critical section of \<^verbatim>\<open>src/scheduler/taskthief.cc\<close> and
  each context switch is one step of an interleaving semantics; so is each of the two unlocked
  accesses of \<^verbatim>\<open>EndTask\<close>. Tasks between the two critical
  sections of \<^verbatim>\<open>StealFrom\<close> are in transit, a task handed out by \<^verbatim>\<open>GetNextTask\<close> and not yet switched
  to is the thief's next task, and a task that a thief has left and whose \<^verbatim>\<open>EndTask\<close> is not over is
  being ended. The invariant shows that a task is never run by two threads, and that a task on a shared stack stays
  where it started and is not used after it was deleted. A task with a stack of its own can be deleted
  twice.
\<close>

section \<open>States and steps\<close>

record tsys = thief_pool +
  running :: "nat \<Rightarrow> tid option"
  nextTask :: "nat \<Rightarrow> tid option"
  transit :: "nat \<Rightarrow> tid list"
  started :: "tid set"
  ending :: "nat \<Rightarrow> (tid \<times> bool) option"

definition busy :: "tid \<Rightarrow> tsys \<Rightarrow> bool" where
  "busy t w \<longleftrightarrow> tr_linked t w \<or> (\<exists>i. nextTask w i = Some t) \<or> (\<exists>i. t \<in> set (transit w i))"

text \<open>The switch of thief \<open>i\<close> away from its running task, to another task or to the main loop: what runs next first calls \<^verbatim>\<open>EndTask\<close> for
  the task that was left. \<open>False\<close> says that the task is not yet made stealable.\<close>

definition leave :: "nat \<Rightarrow> tid option \<Rightarrow> tsys \<Rightarrow> tsys" where
  "leave i next w = w\<lparr>running := (running w)(i := next), nextTask := (nextTask w)(i := None),
     started := set_option next \<union> started w, ending := (ending w)(i := map_option (\<lambda>t. (t, False)) (running w i))\<rparr>"

definition thief_switch :: "nat \<Rightarrow> tid \<Rightarrow> tsys \<Rightarrow> tsys" where
  "thief_switch i t w =
     (if running w i = Some t then w\<lparr>nextTask := (nextTask w)(i := None)\<rparr> else leave i (Some t) w)"

text \<open>The steps. Callers enable only tasks that wait, are new, or run at the moment: that is the
  guard \<open>\<not> busy\<close>; the assertion in the code checks a part of it. A task finishes while it runs. A thread that is
  in \<^verbatim>\<open>EndTask\<close> does nothing else before it returns.\<close>

inductive tstep :: "tsys \<Rightarrow> tsys \<Rightarrow> bool" where
  create: "\<not> busy t w \<Longrightarrow> t \<notin> set (freed w) \<Longrightarrow> t \<notin> started w \<Longrightarrow> (\<forall>i. running w i \<noteq> Some t) \<Longrightarrow>
     status x = TASK_READY \<Longrightarrow> tstep w (upd_task t (\<lambda>_. x) w)"
| enable: "i < length (thiefs w) \<Longrightarrow> scheduler (heap w t) = ThiefPtr i \<Longrightarrow> \<not> busy t w \<Longrightarrow>
     t \<notin> set (freed w) \<Longrightarrow> status (heap w t) \<noteq> TASK_FINISHED \<Longrightarrow>
     thief_Enable i t w = Ok w' \<or> thief_EnableImmediately i t w = Ok w' \<Longrightarrow> tstep w w'"
| steal_begin: "i < length (thiefs w) \<Longrightarrow> v < length (thiefs w) \<Longrightarrow> i \<noteq> v \<Longrightarrow> transit w i = [] \<Longrightarrow> ending w i = None \<Longrightarrow>
     steal_out i v w = (ts, w') \<Longrightarrow> tstep w (w'\<lparr>transit := (transit w')(i := ts)\<rparr>)"
| steal_end: "i < length (thiefs w) \<Longrightarrow> w' = steal_in i (transit w i) w \<Longrightarrow>
     tstep w (w'\<lparr>transit := (transit w')(i := [])\<rparr>)"
| pop: "i < length (thiefs w) \<Longrightarrow> nextTask w i = None \<Longrightarrow> ending w i = None \<Longrightarrow> thief_pop i w = Ok (Some t, w') \<Longrightarrow>
     tstep w (w'\<lparr>nextTask := (nextTask w')(i := Some t)\<rparr>)"
| switch: "i < length (thiefs w) \<Longrightarrow> nextTask w i = Some t \<Longrightarrow> tstep w (thief_switch i t w)"
| end_mark: "ending w i = Some (t, False) \<Longrightarrow>
     tstep w ((thief_EndTask_mark t w)\<lparr>ending := (ending w)(i := Some (t, True))\<rparr>)"
| end_free: "ending w i = Some (t, True) \<Longrightarrow> tstep w ((thief_EndTask_free t w)\<lparr>ending := (ending w)(i := None)\<rparr>)"
| halt: "i < length (thiefs w) \<Longrightarrow> nextTask w i = None \<Longrightarrow> ending w i = None \<Longrightarrow> thief_pop i w = Ok (None, w') \<Longrightarrow>
     tstep w (leave i None w')"
| finish: "running w i = Some t \<Longrightarrow> nextTask w i = None \<Longrightarrow> ending w i = None \<Longrightarrow> \<not> tr_linked t w \<Longrightarrow>
     tstep w (upd_task t (status_update (\<lambda>_. TASK_FINISHED)) w)"

definition tinit :: "tsys \<Rightarrow> bool" where
  "tinit w \<longleftrightarrow> (\<forall>th \<in> set (thiefs w). isReady th = []) \<and> (\<forall>i. running w i = None) \<and>
     (\<forall>i. nextTask w i = None) \<and> (\<forall>i. transit w i = []) \<and> started w = {} \<and> (\<forall>i. ending w i = None) \<and> freed w = []"

section \<open>The invariant\<close>

text \<open>Tasks with a stack of their own can be stolen while they are being ended, so that nothing is said about their
  deletion.\<close>

definition intact :: "tid \<Rightarrow> tsys \<Rightarrow> bool" where
  "intact t w \<longleftrightarrow> CanSteal (heap w t) \<or> t \<notin> set (freed w)"

definition queued_ok :: "tsys \<Rightarrow> bool" where
  "queued_ok w \<longleftrightarrow> (\<forall>i < length (thiefs w). distinct (readyq w i) \<and>
     (\<forall>t \<in> set (readyq w i). scheduler (heap w t) = ThiefPtr i \<and> intact t w \<and>
        status (heap w t) \<noteq> TASK_FINISHED))"

definition transit_ok :: "tsys \<Rightarrow> bool" where
  "transit_ok w \<longleftrightarrow> (\<forall>i. distinct (transit w i) \<and>
     (\<forall>t \<in> set (transit w i). isStealable (heap w t) \<and> \<not> tr_linked t w \<and> intact t w \<and>
        status (heap w t) \<noteq> TASK_FINISHED)) \<and>
     (\<forall>i j. i \<noteq> j \<longrightarrow> set (transit w i) \<inter> set (transit w j) = {})"

definition running_ok :: "tsys \<Rightarrow> bool" where
  "running_ok w \<longleftrightarrow> (\<forall>i t. running w i = Some t \<longrightarrow>
     scheduler (heap w t) = ThiefPtr i \<and> \<not> isStealable (heap w t) \<and> intact t w \<and> t \<in> started w)"

definition next_ok :: "tsys \<Rightarrow> bool" where
  "next_ok w \<longleftrightarrow> (\<forall>i t. nextTask w i = Some t \<longrightarrow>
     scheduler (heap w t) = ThiefPtr i \<and> \<not> isStealable (heap w t) \<and> intact t w \<and>
     \<not> tr_linked t w \<and> status (heap w t) \<noteq> TASK_FINISHED)"

definition started_ok :: "tsys \<Rightarrow> bool" where
  "started_ok w \<longleftrightarrow> (\<forall>t \<in> started w. \<not> CanSteal (heap w t) \<longrightarrow> \<not> isStealable (heap w t))"

text \<open>A task that is being ended, as long as it is not made stealable.\<close>

definition held_ok :: "nat \<Rightarrow> tid \<Rightarrow> tsys \<Rightarrow> bool" where
  "held_ok i t w \<longleftrightarrow> scheduler (heap w t) = ThiefPtr i \<and> \<not> isStealable (heap w t) \<and> intact t w \<and> running w i \<noteq> Some t"

definition ending_ok :: "tsys \<Rightarrow> bool" where
  "ending_ok w \<longleftrightarrow> (\<forall>i t b. ending w i = Some (t, b) \<longrightarrow>
     nextTask w i = None \<and> t \<in> started w \<and> (b \<and> CanSteal (heap w t) \<or> held_ok i t w))"

definition deleted_ok :: "tsys \<Rightarrow> bool" where
  "deleted_ok w \<longleftrightarrow> (\<forall>t. \<not> CanSteal (heap w t) \<longrightarrow> count_list (freed w) t \<le> 1)"

definition tinv :: "tsys \<Rightarrow> bool" where
  "tinv w \<longleftrightarrow> queued_ok w \<and> transit_ok w \<and> running_ok w \<and> next_ok w \<and> started_ok w \<and> ending_ok w \<and> deleted_ok w"

lemmas tinv_parts = queued_ok_def transit_ok_def running_ok_def next_ok_def started_ok_def ending_ok_def held_ok_def deleted_ok_def
  intact_def

lemma queued_linked:
  "queued_ok w \<Longrightarrow> tr_linked t w \<longleftrightarrow>
     (\<exists>i < length (thiefs w). scheduler (heap w t) = ThiefPtr i \<and> t \<in> set (readyq w i))"
  by (auto simp: tr_linked_nth queued_ok_def)

section \<open>Preservation\<close>

lemma CanSteal_update [simp]:
  "CanSteal (Steal s x) = CanSteal x" "CanSteal (x\<lparr>status := st\<rparr>) = CanSteal x"
  "CanSteal (x\<lparr>isStealable := b\<rparr>) = CanSteal x"
  by (simp_all add: CanSteal_def)

lemma tsys_more_eq:
  fixes w w' :: tsys
  assumes "thief_pool.more w' = thief_pool.more w"
  shows "running w' = running w" "nextTask w' = nextTask w" "transit w' = transit w" "started w' = started w"
    "ending w' = ending w"
  using assms by (cases w; cases w'; simp)+

lemma tsys_upd_simps [simp]:
  "running (upd_task t f w) = running w" "nextTask (upd_task t f w) = nextTask w"
  "transit (upd_task t f w) = transit w" "started (upd_task t f w) = started w"
  "running (delete_task t w) = running w" "nextTask (delete_task t w) = nextTask w"
  "transit (delete_task t w) = transit w" "started (delete_task t w) = started w"
  "running (upd_thief i g w) = running w" "nextTask (upd_thief i g w) = nextTask w"
  "transit (upd_thief i g w) = transit w" "started (upd_thief i g w) = started w"
  "ending (upd_task t f w) = ending w" "ending (delete_task t w) = ending w" "ending (upd_thief i g w) = ending w"
  by (simp_all add: upd_task_def delete_task_def upd_thief_def)

lemma tr_linked_more_simps [simp]:
  "tr_linked u (w\<lparr>transit := x\<rparr>) = tr_linked u w" "tr_linked u (w\<lparr>nextTask := y\<rparr>) = tr_linked u w"
  "tr_linked u (w\<lparr>running := z\<rparr>) = tr_linked u w" "tr_linked u (w\<lparr>started := s\<rparr>) = tr_linked u w"
  "tr_linked u (w\<lparr>ending := e\<rparr>) = tr_linked u w" "tr_linked u (delete_task t w) = tr_linked u w"
  by (simp_all add: tr_linked_def)

lemma intact_more_simps [simp]:
  "intact u (w\<lparr>transit := x\<rparr>) = intact u w" "intact u (w\<lparr>nextTask := y\<rparr>) = intact u w"
  "intact u (w\<lparr>running := z\<rparr>) = intact u w" "intact u (w\<lparr>started := s\<rparr>) = intact u w"
  "intact u (w\<lparr>ending := e\<rparr>) = intact u w"
  by (simp_all add: intact_def)

lemma tinv_create:
  assumes "tinv w" "\<not> busy t w" "t \<notin> set (freed w)" "t \<notin> started w" "\<forall>i. running w i \<noteq> Some t"
  shows "tinv (upd_task t (\<lambda>_. x) w)" (is "tinv ?W")
proof -
  have ne: "u \<noteq> t" if "tr_linked u w \<or> nextTask w i = Some u \<or> u \<in> set (transit w i)" for u i
    using that assms(2) by (auto simp: busy_def)
  have q: "u \<noteq> t" if "i < length (thiefs w)" "u \<in> set (readyq w i)" for u i
    using that ne by (auto simp: tr_linked_nth)
  have "queued_ok ?W" using assms(1) q unfolding tinv_def tinv_parts by simp
  moreover have "transit_ok ?W" using assms(1) ne unfolding tinv_def tinv_parts tr_linked_upd_task by (simp, metis)
  moreover have "next_ok ?W" using assms(1) ne unfolding tinv_def tinv_parts tr_linked_upd_task by auto
  moreover have "running_ok ?W" using assms(1,5) unfolding tinv_def tinv_parts by auto
  moreover have "started_ok ?W" "ending_ok ?W" using assms(1,4) unfolding tinv_def tinv_parts by auto
  moreover have "deleted_ok ?W" using assms(1,3) unfolding tinv_def tinv_parts by (simp add: count_list_0_iff)
  ultimately show ?thesis by (simp add: tinv_def)
qed

text \<open>What enabling does, for both ends of the queue.\<close>

lemma thief_enable_effect:
  assumes "thief_Enable i t w = Ok w' \<or> thief_EnableImmediately i t w = Ok w'" "i < length (thiefs w)"
  shows "length (thiefs w') = length (thiefs w)" "set (readyq w' i) = insert t (set (readyq w i))"
    "distinct (readyq w' i) = distinct (t # readyq w i)" "\<And>j. j \<noteq> i \<Longrightarrow> thiefs w' ! j = thiefs w ! j"
    "heap w' = (heap w)(t := (heap w t)\<lparr>status := TASK_READY\<rparr>)" "freed w' = freed w"
    "thief_pool.more w' = thief_pool.more w" "tr_linked u w' \<longleftrightarrow> u = t \<or> tr_linked u w"
  using assms by (auto simp: thief_enable_defs tr_linked_upd_thief split: if_splits)

lemma tinv_enable:
  assumes inv: "tinv w" and i: "i < length (thiefs w)" and s: "scheduler (heap w t) = ThiefPtr i"
    and b: "\<not> busy t w" "t \<notin> set (freed w)" "status (heap w t) \<noteq> TASK_FINISHED"
    and e: "thief_Enable i t w = Ok w' \<or> thief_EnableImmediately i t w = Ok w'"
  shows "tinv w'"
proof -
  note f = thief_enable_effect [OF e i]
  note m = tsys_more_eq [OF f(7)]
  have nl: "\<not> tr_linked t w" using b(1) by (simp add: busy_def)
  have cs: "CanSteal (heap w' u) = CanSteal (heap w u)" for u by (simp add: f(5))
  have int: "intact u w' = intact u w" for u by (simp add: intact_def cs f(6))
  have "queued_ok w'"
    unfolding queued_ok_def
  proof (intro allI impI)
    fix j assume j: "j < length (thiefs w')"
    show "distinct (readyq w' j) \<and> (\<forall>u \<in> set (readyq w' j). scheduler (heap w' u) = ThiefPtr j \<and>
        intact u w' \<and> status (heap w' u) \<noteq> TASK_FINISHED)"
      using j f nl inv i s b int by (cases "j = i") (auto simp: tinv_def queued_ok_def tr_linked_nth intact_def)
  qed
  moreover have "transit_ok w'"
    using inv b(1) unfolding tinv_def transit_ok_def m int f(8) f(5) busy_def by (simp, metis)
  moreover have "running_ok w'" "started_ok w'" "ending_ok w'" "deleted_ok w'"
    using inv unfolding tinv_def running_ok_def started_ok_def ending_ok_def held_ok_def deleted_ok_def m int cs f(6)
    by (auto simp: f(5))
  moreover have "next_ok w'"
    using inv b(1) unfolding tinv_def next_ok_def m int f(5,8) busy_def by auto
  ultimately show ?thesis by (simp add: tinv_def)
qed

lemma thief_pop_effect:
  assumes "thief_pop i w = Ok (Some t, w')" "i < length (thiefs w)"
  shows "readyq w i = t # readyq w' i" "length (thiefs w') = length (thiefs w)"
    "\<And>j. j \<noteq> i \<Longrightarrow> thiefs w' ! j = thiefs w ! j"
    "heap w' = (heap w)(t := (heap w t)\<lparr>isStealable := False, status := TASK_RUNNING\<rparr>)"
    "freed w' = freed w" "thief_pool.more w' = thief_pool.more w"
  using assms by (auto simp: thief_pop_def split: if_splits list.splits)

lemma tinv_pop:
  assumes inv: "tinv w" and i: "i < length (thiefs w)" and e: "ending w i = None"
    and p: "thief_pop i w = Ok (Some t, w')"
  shows "tinv (w'\<lparr>nextTask := (nextTask w')(i := Some t)\<rparr>)"
proof -
  note f = thief_pop_effect [OF p i]
  note m = tsys_more_eq [OF f(6)]
  have q: "queued_ok w" using inv by (simp add: tinv_def)
  have cs: "CanSteal (heap w' u) = CanSteal (heap w u)" for u by (simp add: f(4))
  have int: "intact u w' = intact u w" for u by (simp add: intact_def cs f(5))
  have st: "scheduler (heap w' u) = scheduler (heap w u) \<and> (isStealable (heap w' u) \<longrightarrow> isStealable (heap w u))" for u
    by (simp add: f(4))
  have ti: "scheduler (heap w t) = ThiefPtr i" "intact t w" "tr_linked t w" "t \<notin> set (readyq w' i)"
    using q i f(1) by (auto simp: queued_ok_def tr_linked_nth)
  have tj: "t \<notin> set (readyq w j)" if "j < length (thiefs w)" "j \<noteq> i" for j
    using q that ti(1) by (auto simp: queued_ok_def)
  have q': "queued_ok w'"
    unfolding queued_ok_def
  proof (intro allI impI)
    fix j assume j: "j < length (thiefs w')"
    show "distinct (readyq w' j) \<and> (\<forall>u \<in> set (readyq w' j). scheduler (heap w' u) = ThiefPtr j \<and>
        intact u w' \<and> status (heap w' u) \<noteq> TASK_FINISHED)"
      using j f ti tj q i int by (cases "j = i") (auto simp: queued_ok_def)
  qed
  have lk: "tr_linked u w' \<longleftrightarrow> u \<noteq> t \<and> tr_linked u w" for u
    using f(1-3) ti(4) tj i unfolding tr_linked_nth by (metis list.set_intros(2) set_ConsD)
  have nt: "t \<notin> set (transit w j)" for j using inv ti(3) by (auto simp: tinv_def transit_ok_def)
  have "transit_ok w'"
    using inv nt unfolding tinv_def transit_ok_def m int lk f(4) by (simp, metis)
  moreover have "running_ok w'" "started_ok w'" "deleted_ok w'"
    using inv unfolding tinv_def running_ok_def started_ok_def deleted_ok_def m int cs f(5) by (auto simp: f(4))
  moreover have "ending_ok (w'\<lparr>nextTask := (nextTask w')(i := Some t)\<rparr>)"
    using inv e st unfolding tinv_def ending_ok_def held_ok_def intact_more_simps int by (simp add: m cs, metis)
  moreover have "next_ok (w'\<lparr>nextTask := (nextTask w')(i := Some t)\<rparr>)"
    using inv ti unfolding tinv_def next_ok_def tr_linked_more_simps intact_more_simps int lk by (auto simp: m f(4))
  ultimately show ?thesis using q'
    by (simp add: tinv_def queued_ok_def transit_ok_def running_ok_def started_ok_def deleted_ok_def)
qed

lemma steal_out_effect:
  assumes "steal_out i v w = (ts, w')" "i < length (thiefs w)" "v < length (thiefs w)" "i \<noteq> v"
  shows "ts = steal_tasks w v" "length (thiefs w') = length (thiefs w)"
    "mset ts + mset (readyq w' v) = mset (readyq w v)" "\<And>j. j \<noteq> v \<Longrightarrow> readyq w' j = readyq w j"
    "heap w' = heap w" "freed w' = freed w" "thief_pool.more w' = thief_pool.more w"
proof -
  obtain rest where out: "steal_out i v w =
       (steal_tasks w v,
        upd_thief i (\<lambda>th. th\<lparr>sizeOfQueue := sizeOfQueue th + of_nat (steal_amount w v)\<rparr>)
          (upd_thief v (\<lambda>th. th\<lparr>isReady := rest,
             sizeOfQueue := sizeOfQueue th - of_nat (steal_amount w v)\<rparr>) w))"
    and ms: "mset (steal_tasks w v) + mset rest = mset (readyq w v)"
    by (rule steal_out_eq)
  have w': "w' = upd_thief i (\<lambda>th. th\<lparr>sizeOfQueue := sizeOfQueue th + of_nat (steal_amount w v)\<rparr>)
          (upd_thief v (\<lambda>th. th\<lparr>isReady := rest,
             sizeOfQueue := sizeOfQueue th - of_nat (steal_amount w v)\<rparr>) w)"
    using assms(1) out by simp
  show "ts = steal_tasks w v" using assms(1) out by simp
  show "length (thiefs w') = length (thiefs w)" "heap w' = heap w" "freed w' = freed w"
    "thief_pool.more w' = thief_pool.more w" by (simp_all add: w')
  have "readyq w' v = rest" using assms(3,4) by (simp add: w')
  then show "mset ts + mset (readyq w' v) = mset (readyq w v)" using ms assms(1) out by simp
  show "readyq w' j = readyq w j" if "j \<noteq> v" for j
    using that assms(2,4) by (cases "j = i") (simp_all add: w')
qed

lemma tinv_steal_begin:
  assumes inv: "tinv w" and i: "i < length (thiefs w)" "v < length (thiefs w)" "i \<noteq> v"
    and tr: "transit w i = []" and so: "steal_out i v w = (ts, w')"
  shows "tinv (w'\<lparr>transit := (transit w')(i := ts)\<rparr>)"
proof -
  note f = steal_out_effect [OF so i]
  note m = tsys_more_eq [OF f(7)]
  have q: "queued_ok w" using inv by (simp add: tinv_def)
  have dv: "distinct (ts @ readyq w' v)"
    using q i(2) f(3) by (metis distinct_mset_iff mset_append queued_ok_def)
  have int: "intact u w' = intact u w" for u by (simp add: intact_def f(5,6))
  have sv: "set (readyq w v) = set ts \<union> set (readyq w' v)"
    using f(3) by (metis set_mset_mset set_mset_union)
  have q': "queued_ok w'"
    unfolding queued_ok_def
  proof (intro allI impI)
    fix j assume j: "j < length (thiefs w')"
    show "distinct (readyq w' j) \<and> (\<forall>u \<in> set (readyq w' j). scheduler (heap w' u) = ThiefPtr j \<and>
        intact u w' \<and> status (heap w' u) \<noteq> TASK_FINISHED)"
      using j f dv sv q i int by (cases "j = v") (auto simp: queued_ok_def)
  qed
  have ts: "tr_linked t w \<and> intact t w \<and> status (heap w t) \<noteq> TASK_FINISHED \<and> isStealable (heap w t) \<and>
      \<not> tr_linked t w'" if "t \<in> set ts" for t
  proof -
    have tv: "t \<in> set (readyq w v)" "t \<notin> set (readyq w' v)" using that sv dv by auto
    then have s: "scheduler (heap w t) = ThiefPtr v" "intact t w" "status (heap w t) \<noteq> TASK_FINISHED"
      using q i(2) by (auto simp: queued_ok_def)
    have "\<not> tr_linked t w'" using queued_linked [OF q'] s(1) tv(2) f(5) by auto
    moreover have "tr_linked t w" using tv(1) i(2) by (auto simp: tr_linked_nth)
    moreover have "isStealable (heap w t)" using that f(1) steal_tasks_stealable by auto
    ultimately show ?thesis using s by simp
  qed
  have mono: "tr_linked u w' \<Longrightarrow> tr_linked u w" for u
    using f(2,4) sv unfolding tr_linked_nth by (metis UnCI)
  have old: "transit_ok w" "next_ok w" using inv by (simp_all add: tinv_def)
  have "transit_ok (w'\<lparr>transit := (transit w')(i := ts)\<rparr>)"
    unfolding transit_ok_def
  proof (intro conjI allI impI)
    fix j
    show "distinct (transit (w'\<lparr>transit := (transit w')(i := ts)\<rparr>) j)"
      using old(1) dv by (simp add: transit_ok_def m)
    show "\<forall>t \<in> set (transit (w'\<lparr>transit := (transit w')(i := ts)\<rparr>) j).
       isStealable (heap (w'\<lparr>transit := (transit w')(i := ts)\<rparr>) t) \<and>
       \<not> tr_linked t (w'\<lparr>transit := (transit w')(i := ts)\<rparr>) \<and>
       intact t (w'\<lparr>transit := (transit w')(i := ts)\<rparr>) \<and>
       status (heap (w'\<lparr>transit := (transit w')(i := ts)\<rparr>) t) \<noteq> TASK_FINISHED"
      using old(1) ts mono by (auto simp: transit_ok_def m f(5) int)
    fix k assume "j \<noteq> k"
    then show "set (transit (w'\<lparr>transit := (transit w')(i := ts)\<rparr>) j) \<inter>
        set (transit (w'\<lparr>transit := (transit w')(i := ts)\<rparr>) k) = {}"
      using old(1) ts by (auto simp: transit_ok_def m)
  qed
  moreover have "next_ok w'" using old(2) mono unfolding next_ok_def m f(5) int by blast
  moreover have "running_ok w'" "started_ok w'" "ending_ok w'" "deleted_ok w'"
    using inv unfolding tinv_def running_ok_def started_ok_def ending_ok_def held_ok_def deleted_ok_def m int f(5,6)
    by auto
  ultimately show ?thesis using q'
    by (simp add: tinv_def queued_ok_def running_ok_def next_ok_def started_ok_def ending_ok_def held_ok_def deleted_ok_def)
qed

lemma tinv_steal_end:
  assumes inv: "tinv w" and i: "i < length (thiefs w)" and w': "w' = steal_in i (transit w i) w"
  shows "tinv (w'\<lparr>transit := (transit w')(i := [])\<rparr>)"
proof -
  let ?ts = "transit w i"
  note m = tsys_more_eq [OF steal_in_frame(3) [of i ?ts w, folded w']]
  have th: "readyq w' j = (if j = i then rev ?ts @ readyq w i else readyq w j)" for j
    using i by (simp add: w' steal_in_thiefs)
  have len: "length (thiefs w') = length (thiefs w)" using i by (simp add: w' steal_in_thiefs)
  have hp: "heap w' u = (if u \<in> set ?ts then Steal (ThiefPtr i) (heap w u) else heap w u)" for u
    by (simp add: w' steal_in_heap)
  have fr: "freed w' = freed w" by (simp add: w')
  have cs: "CanSteal (heap w' u) = CanSteal (heap w u)" for u by (simp add: hp)
  have int: "intact u w' = intact u w" for u by (simp add: intact_def cs fr)
  have tok: "transit_ok w" and qok: "queued_ok w" using inv by (simp_all add: tinv_def)
  have ts: "isStealable (heap w t) \<and> \<not> tr_linked t w \<and> intact t w \<and> status (heap w t) \<noteq> TASK_FINISHED"
    if "t \<in> set ?ts" for t using that tok by (auto simp: transit_ok_def)
  have out: "u \<notin> set ?ts" if "j < length (thiefs w)" "u \<in> set (readyq w j)" for u j
    using that ts [of u] by (auto simp: tr_linked_nth)
  have lk: "tr_linked u w' \<longleftrightarrow> u \<in> set ?ts \<or> tr_linked u w" for u
    using i unfolding tr_linked_nth len th by auto
  have "queued_ok w'"
    unfolding queued_ok_def
  proof (intro allI impI)
    fix j assume j: "j < length (thiefs w')"
    then have old: "distinct (readyq w j)" "\<forall>u \<in> set (readyq w j). scheduler (heap w u) = ThiefPtr j \<and>
        intact u w \<and> status (heap w u) \<noteq> TASK_FINISHED" using qok len by (auto simp: queued_ok_def)
    have "distinct ?ts" using tok by (simp add: transit_ok_def)
    then show "distinct (readyq w' j) \<and> (\<forall>u \<in> set (readyq w' j). scheduler (heap w' u) = ThiefPtr j \<and>
        intact u w' \<and> status (heap w' u) \<noteq> TASK_FINISHED)"
      using old j len out [of j] ts by (auto simp: th hp int)
  qed
  moreover have "transit_ok (w'\<lparr>transit := (transit w')(i := [])\<rparr>)"
  proof -
    have "u \<notin> set ?ts" if "u \<in> set (transit w j)" "j \<noteq> i" for u j
      using tok that unfolding transit_ok_def by blast
    then show ?thesis using tok by (auto simp: transit_ok_def m hp int lk)
  qed
  moreover have nn: "t \<notin> set ?ts" if "nextTask w j = Some t \<or> running w j = Some t" for j t
    using that inv ts [of t] by (auto simp: tinv_def running_ok_def next_ok_def)
  then have "running_ok w'" "next_ok w'"
    using inv unfolding tinv_def running_ok_def next_ok_def m hp int lk by auto
  moreover have "started_ok w'" "deleted_ok w'" using inv unfolding tinv_def started_ok_def deleted_ok_def m cs fr by (auto simp: hp)
  moreover have "ending_ok w'"
    using inv ts unfolding tinv_def ending_ok_def held_ok_def m cs int by (simp add: hp, metis)
  ultimately show ?thesis
    by (simp add: tinv_def queued_ok_def running_ok_def next_ok_def started_ok_def ending_ok_def held_ok_def deleted_ok_def)
qed

text \<open>Leaving the running task only moves it into the hands of \<^verbatim>\<open>EndTask\<close>.\<close>

lemma leave_frame [simp]:
  "thiefs (leave i next w) = thiefs w" "heap (leave i next w) = heap w" "freed (leave i next w) = freed w"
  "transit (leave i next w) = transit w" "intact u (leave i next w) = intact u w"
  "tr_linked u (leave i next w) = tr_linked u w"
  by (simp_all add: leave_def intact_def tr_linked_def)

lemma tinv_leave:
  assumes inv: "tinv w"
    and n: "\<And>t. next = Some t \<Longrightarrow> running w i \<noteq> Some t \<and> scheduler (heap w t) = ThiefPtr i \<and>
        \<not> isStealable (heap w t) \<and> intact t w"
  shows "tinv (leave i next w)" (is "tinv ?W")
proof -
  have parts: "running_ok w" "next_ok w" "started_ok w" "ending_ok w" using inv by (simp_all add: tinv_def)
  have sel: "running ?W = (running w)(i := next)" "nextTask ?W = (nextTask w)(i := None)"
    "started ?W = set_option next \<union> started w"
    "ending ?W = (ending w)(i := map_option (\<lambda>t. (t, False)) (running w i))" by (simp_all add: leave_def)
  have "queued_ok ?W" "transit_ok ?W" "deleted_ok ?W"
    using inv by (simp_all add: tinv_def queued_ok_def transit_ok_def deleted_ok_def)
  moreover have "running_ok ?W" using parts(1) n by (auto simp: running_ok_def sel)
  moreover have "next_ok ?W" using parts(2) by (auto simp: next_ok_def sel)
  moreover have "started_ok ?W" using parts(3) n by (auto simp: started_ok_def sel)
  moreover have "ending_ok ?W"
    using parts(1,4) n by (auto simp: ending_ok_def held_ok_def running_ok_def sel)
  ultimately show ?thesis by (simp add: tinv_def)
qed

lemma tinv_switch:
  assumes inv: "tinv w" and n: "nextTask w i = Some t"
  shows "tinv (thief_switch i t w)"
proof (cases "running w i = Some t")
  case True
  then show ?thesis using inv
    by (auto simp: thief_switch_def tinv_def queued_ok_def transit_ok_def running_ok_def next_ok_def started_ok_def
        ending_ok_def held_ok_def deleted_ok_def)
next
  case False
  have "scheduler (heap w t) = ThiefPtr i" "\<not> isStealable (heap w t)" "intact t w"
    using inv n by (auto simp: tinv_def next_ok_def)
  then show ?thesis using False tinv_leave [OF inv, of "Some t" i] by (simp add: thief_switch_def)
qed

lemma tinv_halt:
  assumes "tinv w" "thief_pop i w = Ok (None, w')"
  shows "tinv (leave i None w')"
proof -
  have "w' = w" using assms(2) by (auto simp: thief_pop_def split: if_splits list.splits)
  then show ?thesis using tinv_leave [OF assms(1), of None i] by simp
qed

text \<open>A task that is held is in the hands of its own thread only: making it stealable concerns nobody who runs
  a task or has taken one.\<close>

lemma tinv_end_mark:
  assumes inv: "tinv w" and e: "ending w i = Some (t, False)"
  shows "tinv ((thief_EndTask_mark t w)\<lparr>ending := (ending w)(i := Some (t, True))\<rparr>)" (is "tinv ?W")
proof -
  have parts: "queued_ok w" "transit_ok w" "running_ok w" "next_ok w" "started_ok w" "ending_ok w" "deleted_ok w"
    using inv by (simp_all add: tinv_def)
  have h: "held_ok i t w" "nextTask w i = None" "t \<in> started w" using parts(6) e by (auto simp: ending_ok_def)
  have hp: "heap (thief_EndTask_mark t w) u =
      (if u = t \<and> CanSteal (heap w t) then (heap w t)\<lparr>isStealable := True\<rparr> else heap w u)" for u
    by (simp add: thief_EndTask_mark_def)
  have sel: "thiefs ?W = thiefs w" "freed ?W = freed w" "transit ?W = transit w" "running ?W = running w"
    "nextTask ?W = nextTask w" "started ?W = started w" by (simp_all add: thief_EndTask_mark_def)
  have lk: "tr_linked u ?W = tr_linked u w" for u by (simp add: tr_linked_def sel)
  have keep: "scheduler (heap ?W u) = scheduler (heap w u)" "status (heap ?W u) = status (heap w u)"
    "CanSteal (heap ?W u) = CanSteal (heap w u)" for u by (simp_all add: hp)
  have int: "intact u ?W = intact u w" for u unfolding intact_def keep sel ..
  have ne: "u \<noteq> t" if "scheduler (heap w u) = ThiefPtr j \<and> j \<noteq> i \<or> running w j = Some u \<or> nextTask w j = Some u" for u j
    using that h parts(3,4) by (auto simp: held_ok_def running_ok_def next_ok_def)
  have "queued_ok ?W" using parts(1) unfolding queued_ok_def keep int by (simp add: sel)
  moreover have "transit_ok ?W" using parts(2) unfolding transit_ok_def keep int lk sel by (simp add: hp)
  moreover have "running_ok ?W" using parts(3) ne unfolding running_ok_def keep int sel by (simp add: hp, metis)
  moreover have "next_ok ?W" using parts(4) ne unfolding next_ok_def keep int sel lk by (simp add: hp, metis)
  moreover have "started_ok ?W" using parts(5) unfolding started_ok_def keep sel by (simp add: hp)
  moreover have "deleted_ok ?W" using parts(7) unfolding deleted_ok_def keep sel .
  moreover have "ending_ok ?W"
    unfolding ending_ok_def
  proof (intro allI impI)
    fix j u b assume a: "ending ?W j = Some (u, b)"
    show "nextTask ?W j = None \<and> u \<in> started ?W \<and> (b \<and> CanSteal (heap ?W u) \<or> held_ok j u ?W)"
    proof (cases "j = i")
      case True
      then have "u = t" "b" using a by simp_all
      then show ?thesis using True h unfolding held_ok_def keep int sel by (simp add: hp)
    next
      case False
      then have "nextTask w j = None \<and> u \<in> started w \<and> (b \<and> CanSteal (heap w u) \<or> held_ok j u w)"
        using a parts(6) by (simp add: ending_ok_def)
      then show ?thesis using False ne [of u j] unfolding held_ok_def keep int sel by (auto simp: hp)
    qed
  qed
  ultimately show ?thesis by (simp add: tinv_def)
qed

text \<open>A finished task that cannot be stolen is still held when it is deleted: it is in no queue, in nobody's hands
  and runs nowhere.\<close>

lemma tinv_end_free:
  assumes inv: "tinv w" and e: "ending w i = Some (t, True)"
  shows "tinv ((thief_EndTask_free t w)\<lparr>ending := (ending w)(i := None)\<rparr>)" (is "tinv ?W")
proof -
  have parts: "queued_ok w" "transit_ok w" "running_ok w" "next_ok w" "started_ok w" "ending_ok w" "deleted_ok w"
    using inv by (simp_all add: tinv_def)
  have h: "CanSteal (heap w t) \<or> held_ok i t w" using parts(6) e by (auto simp: ending_ok_def)
  have sel: "thiefs ?W = thiefs w" "heap ?W = heap w" "transit ?W = transit w" "running ?W = running w"
    "nextTask ?W = nextTask w" "started ?W = started w" "ending ?W = (ending w)(i := None)"
    "freed ?W = (if status (heap w t) = TASK_FINISHED then t # freed w else freed w)"
    by (simp_all add: thief_EndTask_free_def delete_task_def)
  have lk: "tr_linked u ?W = tr_linked u w" for u by (simp add: tr_linked_def sel)
  have int: "intact u w \<Longrightarrow> u \<noteq> t \<or> status (heap w t) \<noteq> TASK_FINISHED \<or> CanSteal (heap w t) \<Longrightarrow> intact u ?W" for u
    by (auto simp: intact_def sel)
  have ne: "intact u ?W" if "intact u w" "running w j = Some u \<or> scheduler (heap w u) = ThiefPtr j \<and> j \<noteq> i" for u j
    using that h parts(3) by (intro int) (auto simp: held_ok_def running_ok_def)
  have "queued_ok ?W" using parts(1) int unfolding queued_ok_def sel by metis
  moreover have "transit_ok ?W" using parts(2) int unfolding transit_ok_def sel lk by metis
  moreover have "running_ok ?W" using parts(3) ne unfolding running_ok_def sel by metis
  moreover have "next_ok ?W" using parts(4) int unfolding next_ok_def sel lk by metis
  moreover have "started_ok ?W" using parts(5) unfolding started_ok_def sel .
  moreover have "ending_ok ?W"
    using parts(6) ne unfolding ending_ok_def held_ok_def sel by (simp, metis)
  moreover have "deleted_ok ?W"
    using parts(7) h by (auto simp: deleted_ok_def sel held_ok_def intact_def count_list_0_iff)
  ultimately show ?thesis by (simp add: tinv_def)
qed

lemma tinv_finish:
  assumes inv: "tinv w" and r: "running w i = Some t" "nextTask w i = None" "\<not> tr_linked t w"
  shows "tinv (upd_task t (status_update (\<lambda>_. TASK_FINISHED)) w)" (is "tinv ?W")
proof -
  have o: "scheduler (heap w t) = ThiefPtr i" "\<not> isStealable (heap w t)"
    using inv r by (auto simp: tinv_def running_ok_def)
  have q: "u \<noteq> t" if "j < length (thiefs w)" "u \<in> set (readyq w j)" for u j
    using that r(3) by (auto simp: tr_linked_nth)
  have nx: "u \<noteq> t" if "nextTask w j = Some u" for u j
    using that inv o r(2) by (auto simp: tinv_def next_ok_def)
  have tr: "u \<noteq> t" if "u \<in> set (transit w j)" for u j
    using that inv o by (auto simp: tinv_def transit_ok_def)
  have cs: "CanSteal (heap ?W u) = CanSteal (heap w u)" for u by simp
  have int: "intact u ?W = intact u w" for u unfolding intact_def cs by simp
  have "queued_ok ?W" using inv q by (auto simp: tinv_def queued_ok_def int)
  moreover have "transit_ok ?W" using inv tr unfolding tinv_def transit_ok_def tr_linked_upd_task int by auto
  moreover have "next_ok ?W" using inv nx unfolding tinv_def next_ok_def tr_linked_upd_task int by auto
  moreover have "running_ok ?W" "started_ok ?W" "ending_ok ?W" "deleted_ok ?W"
    using inv by (auto simp: tinv_def running_ok_def started_ok_def ending_ok_def held_ok_def deleted_ok_def cs int)
  ultimately show ?thesis by (simp add: tinv_def)
qed

lemma tinv_step: "tstep w w' \<Longrightarrow> tinv w \<Longrightarrow> tinv w'"
  by (induction rule: tstep.induct)
    (auto intro: tinv_create tinv_enable tinv_steal_begin tinv_steal_end tinv_pop tinv_switch tinv_end_mark
      tinv_end_free tinv_halt tinv_finish)

lemma tinv_init: "tinit w \<Longrightarrow> tinv w"
  by (auto simp: tinit_def tinv_def tinv_parts)

interpretation thieves: invariant_system tinit tstep tinv
  by unfold_locales (auto intro: tinv_init tinv_step)

section \<open>Consequences\<close>

text \<open>Runs as lists of events, so that concrete runs can be evaluated. As long as nobody but the thieves has
  a task, looking at the thieves alone decides whether a task is busy.\<close>

datatype tevent = Create tid TaskInterface | Enables nat tid | Steals nat nat | Stolen nat | Pops nat | Switches nat
  | Marks nat | Frees nat | Finishes nat

definition quiet :: "tsys \<Rightarrow> bool" where
  "quiet w \<longleftrightarrow> (\<forall>i \<ge> length (thiefs w). running w i = None \<and> nextTask w i = None \<and> transit w i = [])"

definition busy_thieves :: "tid \<Rightarrow> tsys \<Rightarrow> bool" where
  "busy_thieves t w \<longleftrightarrow> tr_linked t w \<or>
     (\<exists>i \<in> set [0..<length (thiefs w)]. nextTask w i = Some t \<or> t \<in> set (transit w i))"

fun texec :: "tevent \<Rightarrow> tsys \<Rightarrow> tsys option" where
  "texec (Create t x) w = (if \<not> busy_thieves t w \<and> t \<notin> set (freed w) \<and> t \<notin> started w \<and>
      (\<forall>i \<in> set [0..<length (thiefs w)]. running w i \<noteq> Some t) \<and> status x = TASK_READY
      then Some (upd_task t (\<lambda>_. x) w) else None)"
| "texec (Enables i t) w = (if i < length (thiefs w) \<and> scheduler (heap w t) = ThiefPtr i \<and> \<not> busy_thieves t w \<and>
      t \<notin> set (freed w) \<and> status (heap w t) \<noteq> TASK_FINISHED
      then (case thief_Enable i t w of Ok w' \<Rightarrow> Some w' | _ \<Rightarrow> None) else None)"
| "texec (Steals i v) w = (if i < length (thiefs w) \<and> v < length (thiefs w) \<and> i \<noteq> v \<and> transit w i = [] \<and> ending w i = None
      then (case steal_out i v w of (ts, w') \<Rightarrow> Some (w'\<lparr>transit := (transit w')(i := ts)\<rparr>)) else None)"
| "texec (Stolen i) w = (if i < length (thiefs w)
      then Some ((steal_in i (transit w i) w)\<lparr>transit := (transit (steal_in i (transit w i) w))(i := [])\<rparr>) else None)"
| "texec (Pops i) w = (if i < length (thiefs w) \<and> nextTask w i = None \<and> ending w i = None
      then (case thief_pop i w of Ok (Some t, w') \<Rightarrow> Some (w'\<lparr>nextTask := (nextTask w')(i := Some t)\<rparr>) | _ \<Rightarrow> None) else None)"
| "texec (Switches i) w = (if i < length (thiefs w)
      then (case nextTask w i of Some t \<Rightarrow> Some (thief_switch i t w) | None \<Rightarrow> None) else None)"
| "texec (Marks i) w = (case ending w i of
      Some (t, False) \<Rightarrow> Some ((thief_EndTask_mark t w)\<lparr>ending := (ending w)(i := Some (t, True))\<rparr>) | _ \<Rightarrow> None)"
| "texec (Frees i) w = (case ending w i of
      Some (t, True) \<Rightarrow> Some ((thief_EndTask_free t w)\<lparr>ending := (ending w)(i := None)\<rparr>) | _ \<Rightarrow> None)"
| "texec (Finishes i) w = (case running w i of
      Some t \<Rightarrow> if nextTask w i = None \<and> ending w i = None \<and> \<not> tr_linked t w
        then Some (upd_task t (status_update (\<lambda>_. TASK_FINISHED)) w) else None | None \<Rightarrow> None)"

fun truns :: "tevent list \<Rightarrow> tsys \<Rightarrow> tsys option" where
  "truns [] w = Some w"
| "truns (e # es) w = (case texec e w of Some w' \<Rightarrow> truns es w' | None \<Rightarrow> None)"

lemma busy_thieves_busy: "quiet w \<Longrightarrow> busy_thieves t w = busy t w"
  unfolding busy_thieves_def busy_def quiet_def set_upt
  by (metis (no_types, lifting) atLeastLessThan_iff empty_iff empty_set le0 linorder_not_less option.distinct(1))

lemma quiet_running: "quiet w \<Longrightarrow> \<forall>i \<in> set [0..<length (thiefs w)]. running w i \<noteq> Some t \<Longrightarrow> running w i \<noteq> Some t"
  by (cases "i < length (thiefs w)") (auto simp: quiet_def)

lemma texec_quiet:
  assumes "texec e w = Some w'" "quiet w"
  shows "quiet w'"
proof (cases e)
  case (Enables i t)
  then obtain w1 where e: "thief_Enable i t w = Ok w1" "w' = w1" and i: "i < length (thiefs w)"
    using assms(1) by (auto split: if_splits outcome.splits)
  note f = thief_enable_effect [OF disjI1 [OF e(1)] i]
  show ?thesis using assms(2) tsys_more_eq [OF f(7)] f(1) e(2) by (simp add: quiet_def)
next
  case (Steals i v)
  then obtain ts w1 where s: "steal_out i v w = (ts, w1)" "w' = w1\<lparr>transit := (transit w1)(i := ts)\<rparr>"
    and i: "i < length (thiefs w)" "v < length (thiefs w)" "i \<noteq> v" using assms(1) by (auto split: if_splits prod.splits)
  note f = steal_out_effect [OF s(1) i]
  show ?thesis using assms(2) tsys_more_eq [OF f(7)] f(2) s(2) i(1) by (simp add: quiet_def)
next
  case (Stolen i)
  then show ?thesis using assms tsys_more_eq [OF steal_in_frame(3) [of i "transit w i" w]]
    by (auto simp: quiet_def steal_in_thiefs split: if_splits)
next
  case (Pops i)
  then obtain t w1 where p: "thief_pop i w = Ok (Some t, w1)" "w' = w1\<lparr>nextTask := (nextTask w1)(i := Some t)\<rparr>"
    and i: "i < length (thiefs w)" using assms(1) by (auto split: if_splits outcome.splits prod.splits option.splits)
  note f = thief_pop_effect [OF p(1) i]
  show ?thesis using assms(2) tsys_more_eq [OF f(6)] f(2) p(2) i by (simp add: quiet_def)
qed (use assms in \<open>auto simp: quiet_def thief_switch_def leave_def thief_EndTask_mark_def thief_EndTask_free_def
       split: if_splits option.splits bool.splits\<close>)

lemma texec_sound:
  assumes "texec e w = Some w'" "quiet w"
  shows "tstep w w'"
proof (cases e)
  case (Create t x)
  then show ?thesis using assms quiet_running [OF assms(2)]
    by (auto intro!: tstep.create simp: busy_thieves_busy split: if_splits)
next
  case (Steals i v)
  then show ?thesis using assms(1)
    by (auto intro!: tstep.steal_begin [where i = i and v = v] split: if_splits prod.splits)
qed (use assms(1) in \<open>auto intro!: tstep.intros simp: busy_thieves_busy [OF assms(2)]
      split: if_splits option.splits prod.splits bool.splits outcome.splits\<close>)

lemma truns_sound: "truns es w = Some w' \<Longrightarrow> quiet w \<Longrightarrow> tstep\<^sup>*\<^sup>* w w' \<and> quiet w'"
proof (induction es arbitrary: w)
  case (Cons e es)
  then obtain w1 where "texec e w = Some w1" "truns es w1 = Some w'" by (auto split: option.splits)
  then show ?case using Cons.IH texec_sound texec_quiet Cons.prems(2)
    by (meson converse_rtranclp_into_rtranclp)
qed simp

text \<open>Two thieves and no task; a task on a shared stack is created for the first, enabled, taken and started.\<close>

definition demo_t0 :: tsys where
  "demo_t0 = \<lparr>heap = (\<lambda>_. demo_task), waitList = (\<lambda>_. []), freed = [], trace = [],
     thiefs = [new_StealScheduler, new_StealScheduler],
     running = (\<lambda>_. None), nextTask = (\<lambda>_. None), transit = (\<lambda>_. []), started = {}, ending = (\<lambda>_. None)\<rparr>"

definition demo_thief_task :: "StackKind \<Rightarrow> nat \<Rightarrow> TaskInterface" where
  "demo_thief_task k i = new_TaskInterface BATCH_TASK_T k (ThiefPtr i)"

definition demo_start :: "StackKind \<Rightarrow> tevent list" where
  "demo_start k = [Create 7 (demo_thief_task k 0), Enables 0 7, Pops 0, Switches 0]"

lemma demo_t0_init: "tinit demo_t0" "quiet demo_t0"
  by (simp_all add: tinit_def quiet_def demo_t0_def new_StealScheduler_def)

lemma demo_t_run:
  "tinit demo_t0 \<and> (\<exists>w. tstep\<^sup>*\<^sup>* demo_t0 w \<and> running w 0 = Some 7 \<and> 7 \<in> started w \<and>
     stackKind (heap w 7) = SharedCopyStack \<and> nextTask w 0 = None \<and> ending w 0 = None \<and> \<not> tr_linked 7 w \<and>
     scheduler (heap w 7) = ThiefPtr 0)"
proof -
  have "case truns (demo_start SharedCopyStack) demo_t0 of None \<Rightarrow> False | Some w \<Rightarrow>
      running w 0 = Some 7 \<and> 7 \<in> started w \<and> stackKind (heap w 7) = SharedCopyStack \<and> nextTask w 0 = None \<and>
      ending w 0 = None \<and> \<not> tr_linked 7 w \<and> scheduler (heap w 7) = ThiefPtr 0" by code_simp
  then show ?thesis using demo_t0_init truns_sound by (auto split: option.splits)
qed

text \<open>C1. In every reachable state of the concurrent thieves, no task is run by two threads, and a
  task that runs is in no other thief's queue and in nobody's hands: stealing moves only tasks
  whose context has been saved.\<close>

theorem no_task_runs_twice:
  assumes "tinit w0" "tstep\<^sup>*\<^sup>* w0 w" "running w i = Some t"
  shows "(\<forall>j. running w j = Some t \<longrightarrow> j = i) \<and> (\<forall>j. nextTask w j = Some t \<longrightarrow> j = i) \<and>
    (\<forall>j. t \<notin> set (transit w j)) \<and> (\<forall>j < length (thiefs w). t \<in> set (readyq w j) \<longrightarrow> j = i)"
proof -
  have inv: "tinv w" using thieves.reachable_inv [OF assms(1,2)] .
  have t: "scheduler (heap w t) = ThiefPtr i" "\<not> isStealable (heap w t)"
    using inv assms(3) by (auto simp: tinv_def running_ok_def)
  have "\<forall>j. running w j = Some t \<longrightarrow> j = i" using inv t(1) by (auto simp: tinv_def running_ok_def)
  moreover have "\<forall>j. nextTask w j = Some t \<longrightarrow> j = i" using inv t(1) by (auto simp: tinv_def next_ok_def)
  moreover have "\<forall>j. t \<notin> set (transit w j)" using inv t(2) by (auto simp: tinv_def transit_ok_def)
  moreover have "\<forall>j < length (thiefs w). t \<in> set (readyq w j) \<longrightarrow> j = i"
    using inv t(1) by (auto simp: tinv_def queued_ok_def)
  ultimately show ?thesis by blast
qed

theorem no_task_runs_twice_witness:
  "\<exists>w. tstep\<^sup>*\<^sup>* demo_t0 w \<and> running w 0 = Some 7 \<and> (\<forall>j. running w j = Some 7 \<longrightarrow> j = 0)"
  using demo_t_run no_task_runs_twice [of demo_t0 _ 0 7] by blast

text \<open>C15. A task on a shared stack is deleted at most once and not used afterwards: in every reachable state of the
  concurrent thieves, the deleted list has it at most once, and when it is deleted it does not run, is not about to
  run, is not queued and not in transit.\<close>

theorem no_use_after_delete:
  assumes "tinit w0" "tstep\<^sup>*\<^sup>* w0 w" "stackKind (heap w t) = SharedCopyStack"
  shows "count_list (freed w) t \<le> 1 \<and> (t \<in> set (freed w) \<longrightarrow> \<not> busy t w \<and> (\<forall>i. running w i \<noteq> Some t))"
proof -
  have inv: "tinv w" using thieves.reachable_inv [OF assms(1,2)] .
  have c: "\<not> CanSteal (heap w t)" using assms(3) by (simp add: CanSteal_def)
  have "t \<notin> set (freed w)" if "tr_linked t w"
    using that inv c by (auto simp: tinv_def queued_ok_def tr_linked_nth intact_def)
  then show ?thesis using inv c
    by (auto simp: tinv_def busy_def running_ok_def next_ok_def transit_ok_def intact_def deleted_ok_def)
qed

theorem no_use_after_delete_witness:
  "\<exists>w. tstep\<^sup>*\<^sup>* demo_t0 w \<and> 7 \<in> set (freed w) \<and> count_list (freed w) 7 \<le> 1 \<and> \<not> busy 7 w"
proof -
  let ?es = "demo_start SharedCopyStack @ [Create 8 (demo_thief_task StandAloneStack 0), Enables 0 8, Finishes 0,
    Pops 0, Switches 0, Marks 0, Frees 0]"
  have "case truns ?es demo_t0 of None \<Rightarrow> False | Some w \<Rightarrow> 7 \<in> set (freed w) \<and> stackKind (heap w 7) = SharedCopyStack"
    by code_simp
  then obtain w where w: "truns ?es demo_t0 = Some w" "7 \<in> set (freed w)" "stackKind (heap w 7) = SharedCopyStack"
    by (auto split: option.splits)
  have r: "tstep\<^sup>*\<^sup>* demo_t0 w" using truns_sound [OF w(1)] demo_t0_init by simp
  show ?thesis using no_use_after_delete [OF demo_t0_init(1) r w(3)] r w(2) by blast
qed

text \<open>C21. A task with a stack of its own can be deleted while another thread runs it, and then once more. The thread
  that leaves the task makes it stealable before it reads its status; meanwhile a second thread steals the task, which has been
  enabled again, runs it and lets it finish.\<close>

theorem EndTask_double_delete:
  "\<exists>w w'. tinit demo_t0 \<and> tstep\<^sup>*\<^sup>* demo_t0 w \<and> stackKind (heap w 7) = StandAloneStack \<and>
     7 \<in> set (freed w) \<and> running w 1 = Some 7 \<and> tstep\<^sup>*\<^sup>* w w' \<and> count_list (freed w') 7 = 2"
proof -
  let ?es = "demo_start StandAloneStack @
    [Create 8 (demo_thief_task StandAloneStack 0), Create 9 (demo_thief_task StandAloneStack 0),
     Enables 0 8, Enables 0 9, Enables 0 7, Pops 0, Switches 0, Marks 0, Steals 1 0, Stolen 1, Pops 1, Switches 1,
     Finishes 1, Frees 0]"
  let ?fs = "[Create 10 (demo_thief_task StandAloneStack 1), Enables 1 10, Pops 1, Switches 1, Marks 1, Frees 1]"
  have "case truns ?es demo_t0 of None \<Rightarrow> False | Some w \<Rightarrow> stackKind (heap w 7) = StandAloneStack \<and>
      7 \<in> set (freed w) \<and> running w 1 = Some 7 \<and>
      (case truns ?fs w of None \<Rightarrow> False | Some w' \<Rightarrow> count_list (freed w') 7 = 2)" by code_simp
  then obtain w w' where w: "truns ?es demo_t0 = Some w" "truns ?fs w = Some w'"
    "stackKind (heap w 7) = StandAloneStack" "7 \<in> set (freed w)" "running w 1 = Some 7" "count_list (freed w') 7 = 2"
    by (auto split: option.splits)
  have "tstep\<^sup>*\<^sup>* demo_t0 w \<and> quiet w" using truns_sound [OF w(1)] demo_t0_init by simp
  then show ?thesis using truns_sound [OF w(2)] w(3-6) demo_t0_init(1) by blast
qed

text \<open>A task on a shared stack that has started never changes its scheduler: its saved stack
  content belongs to the stack of the thread it started on.\<close>

lemma shared_stack_task_stays:
  assumes "tinit w0" "tstep\<^sup>*\<^sup>* w0 w" "tstep w w'" "t \<in> started w" "stackKind (heap w t) = SharedCopyStack"
  shows "scheduler (heap w' t) = scheduler (heap w t) \<and> stackKind (heap w' t) = SharedCopyStack \<and> t \<in> started w'"
proof -
  have inv: "tinv w" using thieves.reachable_inv [OF assms(1,2)] .
  have ns: "\<not> isStealable (heap w t)" using inv assms(4,5) by (auto simp: tinv_def started_ok_def CanSteal_def)
  show ?thesis using assms(3)
  proof cases
    case (create u x)
    then show ?thesis using assms(4,5) by auto
  next
    case (enable i u)
    note f = thief_enable_effect [OF enable(6,1)]
    show ?thesis using assms(4,5) tsys_more_eq(4) [OF f(7)] by (auto simp: f(5))
  next
    case (steal_begin i v ts w1)
    note f = steal_out_effect [OF steal_begin(7,2,3,4)]
    show ?thesis using steal_begin(1) assms(4,5) tsys_more_eq(4) [OF f(7)] by (simp add: f(5))
  next
    case (steal_end i w1)
    then show ?thesis using assms(4,5) ns tsys_more_eq(4) [OF steal_in_frame(3) [of i "transit w i" w]]
      by (simp add: steal_in_heap Steal_def)
  next
    case (pop i u w1)
    note f = thief_pop_effect [OF pop(5,2)]
    show ?thesis using pop(1) assms(4,5) tsys_more_eq(4) [OF f(6)] by (auto simp: f(4))
  next
    case (switch i u)
    then show ?thesis using assms(4,5) by (simp add: thief_switch_def leave_def)
  next
    case (end_mark i u)
    then show ?thesis using assms(4,5) by (auto simp: thief_EndTask_mark_def)
  next
    case (end_free i u)
    then show ?thesis using assms(4,5) by (simp add: thief_EndTask_free_def)
  next
    case (halt i w1)
    then have "w1 = w" by (auto simp: thief_pop_def split: if_splits list.splits)
    then show ?thesis using halt assms(4,5) by (simp add: leave_def)
  next
    case (finish i u)
    then show ?thesis using assms(4,5) by auto
  qed
qed

lemma shared_stack_task_stays_witness:
  "\<exists>w w'. tstep\<^sup>*\<^sup>* demo_t0 w \<and> tstep w w' \<and> scheduler (heap w' 7) = ThiefPtr 0"
proof -
  obtain w where w: "tstep\<^sup>*\<^sup>* demo_t0 w" "running w 0 = Some 7" "7 \<in> started w"
    "stackKind (heap w 7) = SharedCopyStack" "nextTask w 0 = None" "ending w 0 = None" "\<not> tr_linked 7 w"
    "scheduler (heap w 7) = ThiefPtr 0" using demo_t_run by blast
  let ?w' = "upd_task 7 (status_update (\<lambda>_. TASK_FINISHED)) w"
  have s: "tstep w ?w'" using w by (intro tstep.finish) auto
  have "scheduler (heap ?w' 7) = ThiefPtr 0"
    using shared_stack_task_stays [OF _ w(1) s w(3,4)] w(8) demo_t_run by metis
  with w(1) s show ?thesis by blast
qed

end
