(* ===== verification/CondVar.thy ===== *)
theory CondVar
  imports Ready
begin

text \<open>
  Condition variables and notifiers (\<^verbatim>\<open>include/concurrency/condition_variable.hpp\<close>,
  \<^verbatim>\<open>src/concurrency/condition_variable.cc\<close>, \<^verbatim>\<open>src/concurrency/notifier.cc\<close>) and the timer's callback
  (\<^verbatim>\<open>src/time/time.cc\<close>), which competes with the notifiers for a task in a timed wait. Each
  operation runs under the lock of the wait list; a waiting task is split at its switch into
  the part before and the part after.
\<close>

section \<open>Operations\<close>

definition set_waitList :: "cvptr \<Rightarrow> tid list \<Rightarrow> 'a sched_scheme \<Rightarrow> 'a sched_scheme" where
  "set_waitList c ts w = w\<lparr>waitList := (waitList w)(c := ts)\<rparr>"

definition push_wait :: "cvptr \<Rightarrow> tid \<Rightarrow> cvword \<Rightarrow> 'a sched_scheme \<Rightarrow> 'a sched_scheme" where
  "push_wait c t s w =
     upd_task t (\<lambda>x. x\<lparr>wsHook := True, cvStatus := s\<rparr>) (set_waitList c (waitList w c @ [t]) w)"

text \<open>\<^verbatim>\<open>wait\<close>: before the switch the running task enters the wait list; after it, it must have been
  taken off.\<close>

definition cv_wait_begin :: "cvptr \<Rightarrow> tid \<Rightarrow> 'a sched_scheme \<Rightarrow> 'a sched_scheme outcome" where
  "cv_wait_begin c t w = (if wsHook (heap w t) then Fault AssertFailed else Ok (push_wait c t CvZero w))"

definition cv_wait_end :: "tid \<Rightarrow> 'a sched_scheme \<Rightarrow> 'a sched_scheme outcome" where
  "cv_wait_end t w = (if wsHook (heap w t) then Fault AssertFailed else Ok w)"

definition cv_wait_until_begin :: "cvptr \<Rightarrow> tid \<Rightarrow> 'a sched_scheme \<Rightarrow> 'a sched_scheme outcome" where
  "cv_wait_until_begin c t w =
     (if wsHook (heap w t) then Fault AssertFailed else Ok (push_wait c t (CvPtr c) w))"

text \<open>\<^verbatim>\<open>waitList.remove\<close> erases every element equal to its argument, and tasks are equal when
  their identifiers are.\<close>

definition cv_remove :: "cvptr \<Rightarrow> tid \<Rightarrow> 'a sched_scheme \<Rightarrow> 'a sched_scheme" where
  "cv_remove c t w =
     (let gone = filter (\<lambda>u. task_eq (heap w u) (heap w t)) (waitList w c) in
      fold (\<lambda>u. upd_task u (wsHook_update (\<lambda>_. False))) gone
        (set_waitList c (filter (\<lambda>u. \<not> task_eq (heap w u) (heap w t)) (waitList w c)) w))"

text \<open>The end of a timed wait; the first component of the result says that it timed out.\<close>

definition cv_wait_until_end ::
  "cvptr \<Rightarrow> tid \<Rightarrow> TimePoint \<Rightarrow> TimePoint \<Rightarrow> 'a sched_scheme \<Rightarrow> (bool \<times> 'a sched_scheme) outcome" where
  "cv_wait_until_end c t timeoutTime now w =
     (let isTimeout = (timeoutTime \<le> now); w1 = (if isTimeout then cv_remove c t w else w) in
      if wsHook (heap w1 t) then Fault AssertFailed else Ok (isTimeout, w1))"

definition pop_wait :: "cvptr \<Rightarrow> tid \<Rightarrow> 'a sched_scheme \<Rightarrow> 'a sched_scheme" where
  "pop_wait c t w = upd_task t (wsHook_update (\<lambda>_. False)) (set_waitList c (tl (waitList w c)) w)"

text \<open>A notifier claims a task by replacing the address in its status word; a task in an untimed
  wait needs no claim.\<close>

definition cv_claim :: "bool \<Rightarrow> cvptr \<Rightarrow> tid \<Rightarrow> 'a sched_scheme \<Rightarrow> 'a sched_scheme outcome" where
  "cv_claim held c t w =
     (if cvStatus (heap w t) = CvPtr c
      then task_EnableImmediately held t (upd_task t (cvStatus_update (\<lambda>_. CvNotified)) w)
      else if cvStatus (heap w t) = CvZero then task_EnableImmediately held t w
      else Ok w)"

definition notify_one :: "bool \<Rightarrow> cvptr \<Rightarrow> 'a sched_scheme \<Rightarrow> 'a sched_scheme outcome" where
  "notify_one held c w =
     (case waitList w c of [] \<Rightarrow> Ok w | t # _ \<Rightarrow> cv_claim held c t (pop_wait c t w))"

definition notify_all :: "bool \<Rightarrow> cvptr \<Rightarrow> 'a sched_scheme \<Rightarrow> 'a sched_scheme outcome" where
  "notify_all held c w = each (\<lambda>t w. cv_claim held c t (pop_wait c t w)) (waitList w c) w"

definition TimeoutCallback :: "tid \<Rightarrow> 'a sched_scheme \<Rightarrow> 'a sched_scheme outcome" where
  "TimeoutCallback t w =
     (let cvWaitFlag = cvStatus (heap w t); w1 = upd_task t (cvStatus_update (\<lambda>_. CvTimedOut)) w in
      if cvWaitFlag \<noteq> CvNotified then task_EnableImmediately False t w1 else Ok w1)"

text \<open>The notifier of a task: joiners wait until the flag is set.\<close>

definition Notify :: "bool \<Rightarrow> tid \<Rightarrow> 'a sched_scheme \<Rightarrow> 'a sched_scheme outcome" where
  "Notify held t w =
     notify_all held (NotifierCV t)
       (upd_task t (isFinished_update (\<lambda>_. True)) (w\<lparr>trace := trace w @ [Notified t]\<rparr>))"

definition Join_step :: "tid \<Rightarrow> tid \<Rightarrow> 'a sched_scheme \<Rightarrow> 'a sched_scheme outcome" where
  "Join_step j t w = (if isFinished (heap w t) then Ok w else cv_wait_begin (NotifierCV t) j w)"

section \<open>Frame lemmas\<close>

lemma set_waitList_simps [simp]:
  "heap (set_waitList c ts w) = heap w" "waitList (set_waitList c ts w) = (waitList w)(c := ts)"
  "thiefs (set_waitList c ts w) = thiefs w" "bQueue (set_waitList c ts w) = bQueue w"
  "iEDFPriorityQueue (set_waitList c ts w) = iEDFPriorityQueue w"
  "freed (set_waitList c ts w) = freed w" "trace (set_waitList c ts w) = trace w"
  by (simp_all add: set_waitList_def)

text \<open>Updates that keep scheduler and type of all tasks do not change who is queued or accepted.\<close>

definition same_place :: "'a sched_scheme \<Rightarrow> 'a sched_scheme \<Rightarrow> bool" where
  "same_place w w' \<longleftrightarrow> thiefs w' = thiefs w \<and> bQueue w' = bQueue w \<and>
     iEDFPriorityQueue w' = iEDFPriorityQueue w \<and>
     (\<forall>u. scheduler (heap w' u) = scheduler (heap w u) \<and> taskType (heap w' u) = taskType (heap w u) \<and>
          status (heap w' u) = status (heap w u))"

lemma same_place_linked: "same_place w w' \<Longrightarrow> task_linked u w' = task_linked u w"
  using tr_linked_cong [of w' w u] rib_linked_cong [of w' w u]
  by (simp add: same_place_def task_linked_def split: SchedulerPtr.split)

lemma same_place_accepts: "same_place w w' \<Longrightarrow> task_accepts u w' = task_accepts u w"
  using rib_accepts_cong [of w' u w]
  by (simp add: same_place_def task_accepts_def split: SchedulerPtr.split)

lemma same_place_status: "same_place w w' \<Longrightarrow> status (heap w' u) = status (heap w u)"
  by (simp add: same_place_def)

lemmas same_place_rules = same_place_linked same_place_accepts same_place_status

lemma same_place_pop [simp]: "same_place w (pop_wait c t w)"
  by (simp add: same_place_def pop_wait_def)

lemma same_place_cvStatus [simp]: "same_place w (upd_task t (cvStatus_update f) w)"
  by (simp add: same_place_def)

lemma same_place_trans: "same_place u v \<Longrightarrow> same_place v w \<Longrightarrow> same_place u w"
  by (simp add: same_place_def)

lemma enable_keeps:
  assumes "task_EnableImmediately held t w = Ok w'"
  shows "waitList w' = waitList w" "cvStatus (heap w' u) = cvStatus (heap w u)"
    "wsHook (heap w' u) = wsHook (heap w u)" "isFinished (heap w' u) = isFinished (heap w u)"
  using assms
  by (auto simp: task_EnableImmediately_def rib_enable_defs thief_enable_defs
      split: SchedulerPtr.splits if_splits)

lemma pop_wait_simps [simp]:
  "waitList (pop_wait c t w) = (waitList w)(c := tl (waitList w c))"
  "cvStatus (heap (pop_wait c t w) u) = cvStatus (heap w u)"
  "wsHook (heap (pop_wait c t w) u) = (if u = t then False else wsHook (heap w u))"
  by (simp_all add: pop_wait_def)

section \<open>Waking up\<close>

definition waiting_on :: "cvptr \<Rightarrow> tid \<Rightarrow> 'a sched_scheme \<Rightarrow> bool" where
  "waiting_on c t w \<longleftrightarrow> cvStatus (heap w t) \<in> {CvZero, CvPtr c} \<and> task_accepts t w \<and> \<not> task_linked t w"

text \<open>What waking \<open>t\<close> does to everybody.\<close>

definition woken :: "tid \<Rightarrow> 'a sched_scheme \<Rightarrow> 'a sched_scheme \<Rightarrow> bool" where
  "woken t w w' \<longleftrightarrow> task_linked t w' \<and> status (heap w' t) = TASK_READY \<and>
     (\<forall>u. u \<noteq> t \<longrightarrow> task_linked u w' = task_linked u w \<and> status (heap w' u) = status (heap w u) \<and>
        cvStatus (heap w' u) = cvStatus (heap w u)) \<and>
     (\<forall>u. task_accepts u w' = task_accepts u w)"

lemma enable_woken:
  assumes "task_accepts t w" "\<not> task_linked t w"
  obtains w' where "task_EnableImmediately False t w = Ok w'" "woken t w w'"
    "waitList w' = waitList w" "\<And>u. wsHook (heap w' u) = wsHook (heap w u)"
    "\<And>u. cvStatus (heap w' u) = cvStatus (heap w u)"
proof -
  obtain w' where e: "task_EnableImmediately False t w = Ok w'"
    using task_enI.en_ok [OF assms] by blast
  have "woken t w w'"
    using task_enI.en_self [OF assms(1) e] task_enI.en_other [OF assms(1) e]
      task_enI.en_accepts [OF assms(1) e] enable_keeps(2) [OF e] by (simp add: woken_def)
  with e enable_keeps [OF e] that show ?thesis by blast
qed

lemma woken_same_place:
  "same_place v w \<Longrightarrow> (\<And>u. u \<noteq> t \<Longrightarrow> cvStatus (heap w u) = cvStatus (heap v u)) \<Longrightarrow>
   woken t w w' \<Longrightarrow> woken t v w'"
  by (simp add: woken_def same_place_rules)

lemma cv_claim_woken:
  assumes "waiting_on c t w"
  obtains w' where "cv_claim False c t w = Ok w'" "woken t w w'" "waitList w' = waitList w"
    "\<And>u. wsHook (heap w' u) = wsHook (heap w u)" "cvStatus (heap w' t) \<in> {CvZero, CvNotified}"
proof (cases "cvStatus (heap w t) = CvPtr c")
  case True
  let ?v = "upd_task t (cvStatus_update (\<lambda>_. CvNotified)) w"
  have sp: "same_place w ?v" by simp
  have "task_accepts t ?v" "\<not> task_linked t ?v"
    using assms by (simp_all add: waiting_on_def same_place_rules [OF sp])
  then obtain w' where w': "task_EnableImmediately False t ?v = Ok w'" "woken t ?v w'"
    "waitList w' = waitList ?v" "\<And>u. wsHook (heap w' u) = wsHook (heap ?v u)"
    "\<And>u. cvStatus (heap w' u) = cvStatus (heap ?v u)"
    by (rule enable_woken) blast
  have "woken t w w'" using woken_same_place [OF sp _ w'(2)] by simp
  with True w' show ?thesis by (intro that [of w']) (simp_all add: cv_claim_def)
next
  case False
  then have z: "cvStatus (heap w t) = CvZero" using assms by (auto simp: waiting_on_def)
  have a: "task_accepts t w" "\<not> task_linked t w" using assms by (simp_all add: waiting_on_def)
  obtain w' where w': "task_EnableImmediately False t w = Ok w'" "woken t w w'"
    "waitList w' = waitList w" "\<And>u. wsHook (heap w' u) = wsHook (heap w u)"
    "\<And>u. cvStatus (heap w' u) = cvStatus (heap w u)"
    using a by (rule enable_woken) blast
  with z show ?thesis by (intro that [of w']) (simp_all add: cv_claim_def)
qed

lemma waiting_on_pop [simp]: "waiting_on c u (pop_wait d t w) = waiting_on c u w"
  using same_place_rules [OF same_place_pop [of w d t]] by (simp add: waiting_on_def)

lemma woken_waiting:
  "woken t w w' \<Longrightarrow> u \<noteq> t \<Longrightarrow> waiting_on c u w' = waiting_on c u w"
  by (simp add: woken_def waiting_on_def)

lemma notify_all_ok:
  assumes "distinct (waitList w c)" "\<forall>t \<in> set (waitList w c). waiting_on c t w"
  shows "\<exists>w'. notify_all False c w = Ok w' \<and> waitList w' c = [] \<and>
    (\<forall>t \<in> set (waitList w c). task_linked t w' \<and> status (heap w' t) = TASK_READY \<and> \<not> wsHook (heap w' t)) \<and>
    (\<forall>u. u \<notin> set (waitList w c) \<longrightarrow> task_linked u w' = task_linked u w \<and>
       status (heap w' u) = status (heap w u) \<and> wsHook (heap w' u) = wsHook (heap w u))"
proof -
  have "\<exists>w'. each (\<lambda>t w. cv_claim False c t (pop_wait c t w)) ts w = Ok w' \<and> waitList w' c = [] \<and>
      (\<forall>t \<in> set ts. task_linked t w' \<and> status (heap w' t) = TASK_READY \<and> \<not> wsHook (heap w' t)) \<and>
      (\<forall>u. u \<notin> set ts \<longrightarrow> task_linked u w' = task_linked u w \<and>
        status (heap w' u) = status (heap w u) \<and> wsHook (heap w' u) = wsHook (heap w u))"
    if "waitList w c = ts" "distinct ts" "\<forall>t \<in> set ts. waiting_on c t w" for ts
    using that
  proof (induction ts arbitrary: w)
    case Nil
    then show ?case by simp
  next
    case (Cons t ts)
    let ?v = "pop_wait c t w"
    have "waiting_on c t ?v" using Cons.prems by simp
    then obtain w1 where w1: "cv_claim False c t ?v = Ok w1" "woken t ?v w1" "waitList w1 = waitList ?v"
      "\<And>u. wsHook (heap w1 u) = wsHook (heap ?v u)"
      by (rule cv_claim_woken) blast
    have "waitList w1 c = ts" using w1(3) Cons.prems(1) by simp
    moreover have "waiting_on c u w1" if "u \<in> set ts" for u
      using that Cons.prems(2,3) woken_waiting [OF w1(2), of u c] by (cases "u = t") auto
    ultimately obtain w' where w': "each (\<lambda>t w. cv_claim False c t (pop_wait c t w)) ts w1 = Ok w'"
      "waitList w' c = []"
      "\<forall>t \<in> set ts. task_linked t w' \<and> status (heap w' t) = TASK_READY \<and> \<not> wsHook (heap w' t)"
      "\<forall>u. u \<notin> set ts \<longrightarrow> task_linked u w' = task_linked u w1 \<and>
        status (heap w' u) = status (heap w1 u) \<and> wsHook (heap w' u) = wsHook (heap w1 u)"
      using Cons.IH [of w1] Cons.prems(2) by auto
    moreover have "t \<notin> set ts" using Cons.prems(2) by simp
    ultimately show ?case using w1 by (auto simp: woken_def same_place_rules [OF same_place_pop])
  qed
  then show ?thesis using assms by (simp add: notify_all_def)
qed

text \<open>C12. Notifying all wakes every waiter exactly once and nobody else: whatever mixture of timed
  and untimed waits is on the list, all of them end up queued and ready on the scheduler they
  belong to, the list is empty, their hooks are free, and no other task changes.\<close>

theorem notify_all_wakes_all:
  assumes "distinct (waitList w c)" "\<forall>t \<in> set (waitList w c). waiting_on c t w"
  shows "\<exists>w'. notify_all False c w = Ok w' \<and> waitList w' c = [] \<and>
    (\<forall>t \<in> set (waitList w c). task_linked t w' \<and> status (heap w' t) = TASK_READY \<and> \<not> wsHook (heap w' t)) \<and>
    (\<forall>u. u \<notin> set (waitList w c) \<longrightarrow> task_linked u w' = task_linked u w \<and>
       status (heap w' u) = status (heap w u) \<and> wsHook (heap w' u) = wsHook (heap w u))"
  using assms by (rule notify_all_ok)

text \<open>A state with two tasks of the second thief waiting on a condition variable, the first of them
  in a timed wait.\<close>

definition demo_waiter :: "cvword \<Rightarrow> TaskInterface" where
  "demo_waiter s = (new_TaskInterface BATCH_TASK_T StandAloneStack (ThiefPtr 1))
     \<lparr>status := TASK_PENDING, wsHook := True, cvStatus := s\<rparr>"

definition demo_cv :: "cvword \<Rightarrow> cvword \<Rightarrow> sched" where
  "demo_cv s1 s2 = (new_RIBScheduler 2 0 (\<lambda>t. demo_waiter (if t = 1 then s1 else s2)))
     \<lparr>waitList := (\<lambda>_. [])(UserCV 0 := [1, 2])\<rparr>"

lemmas demo_cv_simps = demo_cv_def demo_waiter_def new_RIBScheduler_def new_TaskInterface_def
  new_StealScheduler_def

lemma demo_cv_facts [simp]:
  "waitList (demo_cv s1 s2) (UserCV 0) = [1, 2]" "task_accepts t (demo_cv s1 s2)"
  "\<not> task_linked t (demo_cv s1 s2)" "cvStatus (heap (demo_cv s1 s2) t) = (if t = 1 then s1 else s2)"
  "task_id (heap (demo_cv s1 s2) t) = 0"
  by (auto simp: demo_cv_simps task_accepts_def task_linked_def tr_linked_def list_ex_iff)

theorem notify_all_wakes_all_witness:
  "\<exists>w'. notify_all False (UserCV 0) (demo_cv (CvPtr (UserCV 0)) CvZero) = Ok w' \<and>
     task_linked 1 w' \<and> task_linked 2 w'"
  using notify_all_wakes_all [of "demo_cv (CvPtr (UserCV 0)) CvZero" "UserCV 0"]
  by (auto simp: waiting_on_def)

text \<open>C11. The timer and a notifier compete for a task in a timed wait, and exactly one of them
  enables it: in either order both calls return, the task is queued once, and the loser does
  nothing (a second enabling would be an assertion failure).\<close>

theorem timed_wait_woken_once:
  assumes "waitList w c = t # ts" "cvStatus (heap w t) = CvPtr c" "task_accepts t w" "\<not> task_linked t w"
  shows "(\<exists>w'. obind (notify_one False c w) (TimeoutCallback t) = Ok w' \<and>
            task_linked t w' \<and> status (heap w' t) = TASK_READY \<and> \<not> wsHook (heap w' t)) \<and>
         (\<exists>w'. obind (TimeoutCallback t w) (notify_one False c) = Ok w' \<and>
            task_linked t w' \<and> status (heap w' t) = TASK_READY \<and> \<not> wsHook (heap w' t)) \<and>
         task_EnableImmediately False t w \<noteq> Fault AssertFailed \<and>
         (\<forall>w'. task_EnableImmediately False t w = Ok w' \<longrightarrow>
            task_EnableImmediately False t w' = Fault AssertFailed)"
proof (intro conjI)
  let ?v = "upd_task t (cvStatus_update (\<lambda>_. CvNotified)) (pop_wait c t w)"
  have sv: "same_place w ?v" using same_place_trans [OF same_place_pop same_place_cvStatus] .
  have "task_accepts t ?v" "\<not> task_linked t ?v" using assms same_place_rules [OF sv] by simp_all
  then obtain w1 where w1: "task_EnableImmediately False t ?v = Ok w1" "woken t ?v w1"
    "\<And>u. wsHook (heap w1 u) = wsHook (heap ?v u)" "\<And>u. cvStatus (heap w1 u) = cvStatus (heap ?v u)"
    by (rule enable_woken) blast
  have "notify_one False c w = Ok w1" using assms w1(1) by (simp add: notify_one_def cv_claim_def)
  moreover have "cvStatus (heap w1 t) = CvNotified" using w1(4) by simp
  moreover have sp: "same_place w1 (upd_task t (cvStatus_update (\<lambda>_. CvTimedOut)) w1)" by simp
  ultimately show "\<exists>w'. obind (notify_one False c w) (TimeoutCallback t) = Ok w' \<and>
      task_linked t w' \<and> status (heap w' t) = TASK_READY \<and> \<not> wsHook (heap w' t)"
    using w1(2,3) same_place_rules [OF sp] by (simp add: TimeoutCallback_def woken_def)
next
  let ?v = "upd_task t (cvStatus_update (\<lambda>_. CvTimedOut)) w"
  have sv: "same_place w ?v" by simp
  have "task_accepts t ?v" "\<not> task_linked t ?v" using assms same_place_rules [OF sv] by simp_all
  then obtain w1 where w1: "task_EnableImmediately False t ?v = Ok w1" "woken t ?v w1"
    "waitList w1 = waitList ?v" "\<And>u. cvStatus (heap w1 u) = cvStatus (heap ?v u)"
    by (rule enable_woken) blast
  have "TimeoutCallback t w = Ok w1" using assms w1(1) by (simp add: TimeoutCallback_def)
  moreover have "notify_one False c w1 = Ok (pop_wait c t w1)"
    using w1(3,4) assms by (simp add: notify_one_def cv_claim_def)
  ultimately show "\<exists>w'. obind (TimeoutCallback t w) (notify_one False c) = Ok w' \<and>
      task_linked t w' \<and> status (heap w' t) = TASK_READY \<and> \<not> wsHook (heap w' t)"
    using w1(2) same_place_rules [OF same_place_pop [of w1 c t]] by (simp add: woken_def)
next
  show "task_EnableImmediately False t w \<noteq> Fault AssertFailed"
    using task_enI.en_ok [OF assms(3,4)] by auto
  show "\<forall>w'. task_EnableImmediately False t w = Ok w' \<longrightarrow>
      task_EnableImmediately False t w' = Fault AssertFailed"
    using task_enI.enable_twice [OF assms(3)] by blast
qed

theorem timed_wait_woken_once_witness:
  "\<exists>w'. obind (TimeoutCallback 1 (demo_cv (CvPtr (UserCV 0)) CvZero)) (notify_one False (UserCV 0)) = Ok w' \<and>
     task_linked 1 w'"
  using timed_wait_woken_once [of "demo_cv (CvPtr (UserCV 0)) CvZero" "UserCV 0" 1 "[2]"] by auto

text \<open>A notification can be lost: \<^verbatim>\<open>notify_one\<close> looks at the first waiter only, and if the timer
  already claimed it, nobody is woken although others wait.\<close>

lemma notify_one_lost:
  assumes "waitList w c = t # ts" "cvStatus (heap w t) = CvTimedOut"
  shows "notify_one held c w = Ok (pop_wait c t w) \<and> waitList (pop_wait c t w) c = ts \<and>
    (\<forall>u. task_linked u (pop_wait c t w) = task_linked u w)"
  using assms same_place_linked [OF same_place_pop [of w c t]]
  by (simp add: notify_one_def cv_claim_def)

lemma notify_one_lost_witness:
  "\<exists>w'. notify_one False (UserCV 0) (demo_cv CvTimedOut CvZero) = Ok w' \<and>
     waitList w' (UserCV 0) = [2] \<and> \<not> task_linked 2 w'"
  using notify_one_lost [of "demo_cv CvTimedOut CvZero" "UserCV 0" 1 "[2]" False] by auto

section \<open>Timeouts and notifiers\<close>

lemma unhook_fold:
  "heap (fold (\<lambda>u. upd_task u (wsHook_update (\<lambda>_. False))) us w) x =
     (if x \<in> set us then (heap w x)\<lparr>wsHook := False\<rparr> else heap w x)"
  "thiefs (fold (\<lambda>u. upd_task u (wsHook_update (\<lambda>_. False))) us w) = thiefs w"
  "bQueue (fold (\<lambda>u. upd_task u (wsHook_update (\<lambda>_. False))) us w) = bQueue w"
  "iEDFPriorityQueue (fold (\<lambda>u. upd_task u (wsHook_update (\<lambda>_. False))) us w) = iEDFPriorityQueue w"
  "waitList (fold (\<lambda>u. upd_task u (wsHook_update (\<lambda>_. False))) us w) = waitList w"
  by (induction us arbitrary: w) auto

lemma cv_remove_simps:
  "waitList (cv_remove c t w) c = filter (\<lambda>u. task_id (heap w u) \<noteq> task_id (heap w t)) (waitList w c)"
  "wsHook (heap (cv_remove c t w) u) =
     (wsHook (heap w u) \<and> \<not> (u \<in> set (waitList w c) \<and> task_id (heap w u) = task_id (heap w t)))"
  "same_place w (cv_remove c t w)"
  by (auto simp: cv_remove_def Let_def unhook_fold task_eq_def same_place_def)

text \<open>A timeout removes too much: the timed-out task is erased from the wait list by comparing
  identifiers, and with it every other waiter with the same identifier, although it was not
  woken. All tasks but the real-time ones have the identifier 0.\<close>

lemma timeout_drops_equal_ids:
  assumes "timeoutTime \<le> now" "t \<in> set (waitList w c)" "u \<in> set (waitList w c)"
    and "task_id (heap w u) = task_id (heap w t)"
  shows "\<exists>w'. cv_wait_until_end c t timeoutTime now w = Ok (True, w') \<and>
    u \<notin> set (waitList w' c) \<and> \<not> wsHook (heap w' u) \<and>
    task_linked u w' = task_linked u w \<and> status (heap w' u) = status (heap w u)"
  using assms same_place_rules [OF cv_remove_simps(3) [of w c t]]
  by (simp add: cv_wait_until_end_def Let_def cv_remove_simps)

lemma timeout_drops_equal_ids_witness:
  "\<exists>w'. cv_wait_until_end (UserCV 0) 1 5 6 (demo_cv CvTimedOut CvZero) = Ok (True, w') \<and>
     2 \<notin> set (waitList w' (UserCV 0)) \<and> \<not> task_linked 2 w'"
  using timeout_drops_equal_ids [of 5 6 1 "demo_cv CvTimedOut CvZero" "UserCV 0" 2] by auto

lemma Notify_ok:
  assumes "distinct (waitList w (NotifierCV t))"
    "\<forall>j \<in> set (waitList w (NotifierCV t)). waiting_on (NotifierCV t) j w"
  shows "\<exists>w'. Notify False t w = Ok w' \<and> waitList w' (NotifierCV t) = [] \<and>
    (\<forall>j \<in> set (waitList w (NotifierCV t)). task_linked j w' \<and> status (heap w' j) = TASK_READY)"
proof -
  let ?v = "upd_task t (isFinished_update (\<lambda>_. True)) (w\<lparr>trace := trace w @ [Notified t]\<rparr>)"
  have sp: "same_place w ?v" by (simp add: same_place_def)
  have "\<forall>j \<in> set (waitList ?v (NotifierCV t)). waiting_on (NotifierCV t) j ?v"
    using assms(2) by (auto simp: waiting_on_def same_place_rules [OF sp])
  then show ?thesis using notify_all_ok [of ?v "NotifierCV t"] assms(1) by (auto simp: Notify_def)
qed

text \<open>Finishing a task releases its joiners, but only if the notifying thread does not hold the
  main scheduler's queue lock: with the lock held, as during the cancellation of expired tasks,
  a joiner that belongs to the main scheduler makes the thread spin on its own lock.\<close>

lemma Notify_joiners:
  assumes "distinct (waitList w (NotifierCV t))"
    and "\<forall>j \<in> set (waitList w (NotifierCV t)). waiting_on (NotifierCV t) j w"
  shows "(\<exists>w'. Notify False t w = Ok w' \<and> waitList w' (NotifierCV t) = [] \<and>
      (\<forall>j \<in> set (waitList w (NotifierCV t)). task_linked j w' \<and> status (heap w' j) = TASK_READY)) \<and>
    (waitList w (NotifierCV t) \<noteq> [] \<and> scheduler (heap w (hd (waitList w (NotifierCV t)))) = RIBPtr \<longrightarrow>
      Notify True t w = Fault Deadlock)"
proof (intro conjI impI)
  show "\<exists>w'. Notify False t w = Ok w' \<and> waitList w' (NotifierCV t) = [] \<and>
      (\<forall>j \<in> set (waitList w (NotifierCV t)). task_linked j w' \<and> status (heap w' j) = TASK_READY)"
    using assms by (rule Notify_ok)
next
  assume a: "waitList w (NotifierCV t) \<noteq> [] \<and> scheduler (heap w (hd (waitList w (NotifierCV t)))) = RIBPtr"
  then obtain j js where j: "waitList w (NotifierCV t) = j # js" by (cases "waitList w (NotifierCV t)") auto
  have "cvStatus (heap w j) \<in> {CvZero, CvPtr (NotifierCV t)}" using assms(2) j by (simp add: waiting_on_def)
  then show "Notify True t w = Fault Deadlock"
    using a j by (auto simp: Notify_def notify_all_def cv_claim_def task_EnableImmediately_def pop_wait_def)
qed

definition demo_join :: sched where
  "demo_join = (new_RIBScheduler 1 0 (\<lambda>t. (new_TaskInterface BATCH_TASK_T StandAloneStack RIBPtr)
     \<lparr>wsHook := (t = 2)\<rparr>))\<lparr>waitList := (\<lambda>_. [])(NotifierCV 1 := [2])\<rparr>"

lemma Notify_joiners_witness:
  "(\<exists>w'. Notify False 1 demo_join = Ok w' \<and> task_linked 2 w') \<and> Notify True 1 demo_join = Fault Deadlock"
proof -
  have "waitList demo_join (NotifierCV 1) = [2]" "waiting_on (NotifierCV 1) 2 demo_join"
    "scheduler (heap demo_join 2) = RIBPtr"
    by (simp_all add: demo_join_def new_RIBScheduler_def new_TaskInterface_def waiting_on_def
        task_accepts_def task_linked_def rib_accepts_def rib_linked_def)
  then show ?thesis using Notify_joiners [of demo_join 1] by auto
qed

end
