(* ===== verification/Scheduler.thy ===== *)
theory Scheduler
  imports CondVar
begin

text \<open>
  The main scheduler's operations (\<^verbatim>\<open>src/scheduler/scheduler.cc\<close> and the task factories of
  \<^verbatim>\<open>include/scheduler/scheduler.hpp\<close>): the choice of an interactive or batch task, the dispatch
  loop \<^verbatim>\<open>GetNextTask\<close>, the creation and the end of tasks, and the context switch.
\<close>

section \<open>Containers and interference\<close>

text \<open>The treap yields an element that no other precedes in the priority order, the hash table an
  element with the key asked for. Which one of several, the libraries do not say: the argument
  \<open>tie\<close> decides. The treap is ordered by the priorities at the time of the insertion, the model reads those of the
  moment: the two agree as long as the priority of a queued task does not change. It can change: a task that
  yields is queued before \<^verbatim>\<open>GetNextTask\<close> subtracts the time it used from its burst, and which element the treap then
  yields among tasks of the same deadline is not known.\<close>

definition pick :: "(tid list \<Rightarrow> nat) \<Rightarrow> tid list \<Rightarrow> tid" where
  "pick tie xs = xs ! (tie xs mod length xs)"

definition edf_minima :: "(tid \<Rightarrow> TaskInterface) \<Rightarrow> tid list \<Rightarrow> tid list" where
  "edf_minima h q = filter (\<lambda>t. list_all (\<lambda>u. \<not> priority_order (h u) (h t)) q) q"

definition edf_top :: "(tid list \<Rightarrow> nat) \<Rightarrow> (tid \<Rightarrow> TaskInterface) \<Rightarrow> tid list \<Rightarrow> tid" where
  "edf_top tie h q = pick tie (edf_minima h q)"

definition rt_matching :: "(tid \<Rightarrow> TaskInterface) \<Rightarrow> u32 \<Rightarrow> tid list \<Rightarrow> tid list" where
  "rt_matching h k q = filter (\<lambda>t. task_id (h t) = k) q"

definition rt_find :: "(tid list \<Rightarrow> nat) \<Rightarrow> (tid \<Rightarrow> TaskInterface) \<Rightarrow> u32 \<Rightarrow> tid list \<Rightarrow> tid" where
  "rt_find tie h k q = pick tie (rt_matching h k q)"

lemma pick_mem: "xs \<noteq> [] \<Longrightarrow> pick tie xs \<in> set xs"
  by (simp add: pick_def)

interpretation heap_prio: strict_weak_order "\<lambda>t u. priority_order (h t) (h u)" for h :: "tid \<Rightarrow> TaskInterface"
  by unfold_locales (auto simp: order_defs split: if_splits)

lemma edf_minima_ne: "q \<noteq> [] \<Longrightarrow> edf_minima h q \<noteq> []"
proof -
  assume "q \<noteq> []"
  then obtain m where m: "first_min (\<lambda>a b. priority_order (h a) (h b)) q = Some m"
    by (cases "first_min (\<lambda>a b. priority_order (h a) (h b)) q") auto
  have "m \<in> set (edf_minima h q)"
    using first_min_mem [OF m] heap_prio.first_min_minimal [OF m] by (auto simp: edf_minima_def list_all_iff)
  then show ?thesis by auto
qed

lemma edf_top_mem: "q \<noteq> [] \<Longrightarrow> edf_top tie h q \<in> set q"
  using pick_mem [OF edf_minima_ne] by (auto simp: edf_top_def edf_minima_def)

lemma edf_top_minimal: "q \<noteq> [] \<Longrightarrow> u \<in> set q \<Longrightarrow> \<not> priority_order (h u) (h (edf_top tie h q))"
  using pick_mem [OF edf_minima_ne] by (auto simp: edf_top_def edf_minima_def list_all_iff)

lemma rt_find_mem:
  "rt_matching h k q \<noteq> [] \<Longrightarrow> rt_find tie h k q \<in> set q \<and> task_id (h (rt_find tie h k q)) = k"
  using pick_mem [of "rt_matching h k q" tie] by (auto simp: rt_find_def rt_matching_def)

text \<open>What other threads can do while the main thread waits or has released its lock: anything to
  the shared state, nothing to the fields only the main thread writes.\<close>

definition interfere :: "(sched \<Rightarrow> sched) \<Rightarrow> sched \<Rightarrow> sched" where
  "interfere env w = (env w)
     \<lparr>vClockI := vClockI w, vClockB := vClockB w, currentTime := currentTime w,
      schedulerStartTime := schedulerStartTime w, cycleStartTime := cycleStartTime w,
      taskStartTime := taskStartTime w, currentSchedule := currentSchedule w,
      idxRealTimeTask := idxRealTimeTask w, numberOfPeriods := numberOfPeriods w,
      jitters := jitters w, active := active w\<rparr>"

lemma interfere_simps [simp]:
  "vClockI (interfere env w) = vClockI w" "vClockB (interfere env w) = vClockB w"
  "currentTime (interfere env w) = currentTime w"
  "schedulerStartTime (interfere env w) = schedulerStartTime w"
  "cycleStartTime (interfere env w) = cycleStartTime w" "taskStartTime (interfere env w) = taskStartTime w"
  "currentSchedule (interfere env w) = currentSchedule w"
  "idxRealTimeTask (interfere env w) = idxRealTimeTask w"
  "numberOfPeriods (interfere env w) = numberOfPeriods w" "jitters (interfere env w) = jitters w"
  "active (interfere env w) = active w"
  "heap (interfere env w) = heap (env w)" "toContinue (interfere env w) = toContinue (env w)"
  "bQueue (interfere env w) = bQueue (env w)" "iCancelStack (interfere env w) = iCancelStack (env w)"
  "iEDFPriorityQueue (interfere env w) = iEDFPriorityQueue (env w)"
  "rtScheduleNormal (interfere env w) = rtScheduleNormal (env w)"
  "rtScheduleGreedy (interfere env w) = rtScheduleGreedy (env w)"
  by (simp_all add: interfere_def)

lemma interfere_id [simp]: "interfere (\<lambda>w. w) w = w"
  by (simp add: interfere_def)

section \<open>Setting a schedule and choosing a thief\<close>

definition SetSchedule ::
  "RealTimeSchedule list \<Rightarrow> RealTimeSchedule list \<Rightarrow> sched \<Rightarrow> sched outcome" where
  "SetSchedule normal greedy w =
     (if normal = [] \<or> greedy = [] \<or> eTime (last normal) \<noteq> eTime (last greedy) then Ok w
      else obind (NotifyChangeOfSchedule normal greedy (decider w))
             (\<lambda>d. Ok (w\<lparr>rtScheduleNormal := normal, rtScheduleGreedy := greedy, decider := d\<rparr>)))"

definition ShutDown :: "sched \<Rightarrow> sched" where
  "ShutDown w = (if toContinue w then w\<lparr>toContinue := False\<rparr> else w)"

text \<open>The sum is kept in 32 bits, each size in 64.\<close>

definition GetThiefSizes :: "'a sched_scheme \<Rightarrow> u32" where
  "GetThiefSizes w = fold (\<lambda>th sz. ucast (ucast sz + Size th :: u64)) (thiefs w) 0"

text \<open>The smallest size so far is an \<^verbatim>\<open>unsigned int\<close>, compared with a \<^verbatim>\<open>size_t\<close>; \<open>i\<close> is the position of
  the next thief. An idle thief is returned at once.\<close>

fun min_thief_loop :: "nat \<Rightarrow> thief list \<Rightarrow> nat option \<Rightarrow> u32 \<Rightarrow> nat option" where
  "min_thief_loop i [] minThief minSize = minThief"
| "min_thief_loop i (th # ths) minThief minSize =
     (if Size th = 0 then Some i
      else if (ucast minSize :: u64) > Size th
           then min_thief_loop (Suc i) ths (Some i) (ucast (Size th))
           else min_thief_loop (Suc i) ths minThief minSize)"

definition GetMinThief :: "'a sched_scheme \<Rightarrow> nat option" where
  "GetMinThief w = min_thief_loop 0 (thiefs w) None (-1)"

section \<open>Interactive and batch tasks\<close>

datatype decision = DecideNone | DecideBatch | DecideInteractive

definition ib_decide :: "sched \<Rightarrow> decision" where
  "ib_decide w =
     (if bQueue w = [] \<and> iEDFPriorityQueue w = [] \<and> iCancelStack w = [] then DecideNone
      else if bQueue w \<noteq> [] \<and> iEDFPriorityQueue w = [] \<and> iCancelStack w = [] then DecideBatch
      else if bQueue w = [] \<and> (iEDFPriorityQueue w \<noteq> [] \<or> iCancelStack w \<noteq> []) then DecideInteractive
      else if vClockB w > vClockI w then DecideInteractive else DecideBatch)"

definition expired :: "sched \<Rightarrow> tid \<Rightarrow> bool" where
  "expired w t = (deadline (heap w t) - burst (heap w t) + schedulerStartTime w < currentTime w)"

text \<open>Expired tasks leave the ready queue, earliest first: those that can run elsewhere are
  collected for the thieves, the others go on the cancel stack.\<close>

function expire_loop :: "(tid list \<Rightarrow> nat) \<Rightarrow> tid list \<Rightarrow> sched \<Rightarrow> tid list \<times> sched" where
  "expire_loop tie toSteal w =
     (if iEDFPriorityQueue w \<noteq> [] \<and> expired w (edf_top tie (heap w) (iEDFPriorityQueue w)) then
        (let t = edf_top tie (heap w) (iEDFPriorityQueue w);
             w1 = w\<lparr>iEDFPriorityQueue := remove1 t (iEDFPriorityQueue w)\<rparr>
         in if thiefs w1 \<noteq> [] \<and> isStealable (heap w1 t) \<and> CanSteal (heap w1 t)
            then expire_loop tie (toSteal @ [t]) w1
            else expire_loop tie toSteal (w1\<lparr>iCancelStack := t # iCancelStack w1\<rparr>))
      else (toSteal, w))"
  by pat_completeness auto

termination expire_loop
  by (relation "measure (\<lambda>(tie, ts, w). length (iEDFPriorityQueue w))")
    (auto simp: edf_top_mem length_remove1)

declare expire_loop.simps [simp del]

text \<open>With the queue lock released, the collected tasks are handed to the thieves.\<close>

definition give_to_thief :: "tid \<Rightarrow> sched \<Rightarrow> sched outcome" where
  "give_to_thief t w =
     (case GetMinThief w of
        Some i \<Rightarrow> thief_EnableImmediately i t (upd_task t (Steal (ThiefPtr i)) w)
      | None \<Rightarrow> Ok (delete_task t w))"

text \<open>At most three expired tasks are kept; the oldest of the others are cancelled, with the
  queue lock held.\<close>

fun trim_cancel_loop :: "nat \<Rightarrow> sched \<Rightarrow> sched outcome" where
  "trim_cancel_loop 0 w = Ok w"
| "trim_cancel_loop (Suc n) w =
     (if length (iCancelStack w) > 3 then
        (let t = last (iCancelStack w); w1 = w\<lparr>iCancelStack := butlast (iCancelStack w)\<rparr> in
         obind (Notify True t (call_onCancel t w1)) (\<lambda>w2. trim_cancel_loop n (delete_task t w2)))
      else Ok w)"

definition trim_cancel :: "sched \<Rightarrow> sched outcome" where
  "trim_cancel w = trim_cancel_loop (length (iCancelStack w)) w"

definition pick_interactive ::
  "(tid list \<Rightarrow> nat) \<Rightarrow> TimePoint \<Rightarrow> sched \<Rightarrow> tid option \<times> sched" where
  "pick_interactive tie now w =
     (if iEDFPriorityQueue w \<noteq> [] then
        (let t = edf_top tie (heap w) (iEDFPriorityQueue w) in
         (Some t, w\<lparr>iEDFPriorityQueue := remove1 t (iEDFPriorityQueue w), taskStartTime := now\<rparr>))
      else case iCancelStack w of
        t # ts \<Rightarrow> (Some t, w\<lparr>iCancelStack := ts, taskStartTime := now\<rparr>)
      | [] \<Rightarrow> (None, w))"

definition pick_batch :: "TimePoint \<Rightarrow> sched \<Rightarrow> (tid option \<times> sched) outcome" where
  "pick_batch now w = (case bQueue w of
      [] \<Rightarrow> Fault OutOfBounds
    | t # ts \<Rightarrow> Ok (Some t, w\<lparr>bQueue := ts, taskStartTime := now\<rparr>))"

definition GetAnInteractiveBatchTask ::
  "(tid list \<Rightarrow> nat) \<Rightarrow> (sched \<Rightarrow> sched) \<Rightarrow> TimePoint \<Rightarrow> sched \<Rightarrow> (tid option \<times> sched) outcome" where
  "GetAnInteractiveBatchTask tie env now w =
     (case ib_decide w of
        DecideNone \<Rightarrow> Ok (None, w)
      | DecideBatch \<Rightarrow> pick_batch now w
      | DecideInteractive \<Rightarrow>
          (let (toSteal, w1) = expire_loop tie [] w in
           obind (each give_to_thief toSteal w1)
             (\<lambda>w2. obind (trim_cancel (interfere env w2))
               (\<lambda>w3. Ok (pick_interactive tie now w3)))))"

section \<open>The schedule pair\<close>

text \<open>Either no schedule is set, or both are and have the same period.\<close>

definition schedule_ok :: "sched \<Rightarrow> bool" where
  "schedule_ok w \<longleftrightarrow> (rtScheduleNormal w = [] \<and> rtScheduleGreedy w = []) \<or>
     (rtScheduleNormal w \<noteq> [] \<and> rtScheduleGreedy w \<noteq> [] \<and>
      eTime (last (rtScheduleNormal w)) = eTime (last (rtScheduleGreedy w)) \<and>
      normalSSSlot (decider w) = ss_slots (rtScheduleNormal w) \<and>
      greedySSSlot (decider w) = ss_slots (rtScheduleGreedy w) \<and>
      period (decider w) = us_count (eTime (last (rtScheduleNormal w))))"

text \<open>Setting a schedule never fails: a pair that is empty or disagrees on the period is
  ignored, any other is installed with the decider's slots and period in step, so that the
  scheduler always has no schedule or a consistent pair.\<close>

lemma SetSchedule_consistent:
  assumes "schedule_ok w"
  shows "\<exists>w'. SetSchedule normal greedy w = Ok w' \<and> schedule_ok w' \<and>
    (if normal \<noteq> [] \<and> greedy \<noteq> [] \<and> eTime (last normal) = eTime (last greedy)
     then rtScheduleNormal w' = normal \<and> rtScheduleGreedy w' = greedy else w' = w)"
  using assms by (auto simp: SetSchedule_def NotifyChangeOfSchedule_def schedule_ok_def)

section \<open>The least loaded thief\<close>

lemma min_thief_loop_spec:
  assumes "\<And>j. m = Some j \<Longrightarrow> j < length pre \<and> Size (pre ! j) = ucast s"
    and "\<And>j. j < length pre \<Longrightarrow> (ucast s :: u64) \<le> Size (pre ! j)"
    and "m = None \<Longrightarrow> s = -1"
  shows "case min_thief_loop (length pre) ths m s of
      Some i \<Rightarrow> i < length (pre @ ths) \<and> (\<forall>j < length (pre @ ths). Size ((pre @ ths) ! i) \<le> Size ((pre @ ths) ! j))
    | None \<Rightarrow> \<forall>j < length (pre @ ths). ucast (-1 :: u32) \<le> Size ((pre @ ths) ! j)"
  using assms
proof (induction ths arbitrary: pre m s)
  case Nil
  then show ?case by (auto split: option.splits)
next
  case (Cons th ths)
  let ?all = "pre @ th # ths"
  have reassoc: "?all = (pre @ [th]) @ ths" by simp
  show ?case
  proof (cases "Size th = 0")
    case True
    then show ?thesis by simp
  next
    case nz: False
    show ?thesis
    proof (cases "(ucast s :: u64) > Size th")
      case True
      have "uint (Size th) < 2 ^ 32"
      proof -
        have "uint (ucast s :: u64) = uint s" by (rule uint_up_ucast) (simp add: is_up)
        then show ?thesis using True uint_lt2p [of s] by (simp add: word_less_def)
      qed
      then have rtrip: "(ucast (ucast (Size th) :: u32) :: u64) = Size th"
        by (simp add: word_uint_eq_iff unsigned_ucast_eq take_bit_eq_mod uint_mod)
      have "\<And>j. j < length (pre @ [th]) \<Longrightarrow> Size th \<le> Size ((pre @ [th]) ! j)"
        using Cons.prems(2) True by (auto simp: nth_append less_Suc_eq intro: order_trans [OF less_imp_le])
      then show ?thesis unfolding reassoc
        using nz True rtrip Cons.IH [of "Some (length pre)" "pre @ [th]" "ucast (Size th)"] by simp
    next
      case False
      have "\<And>j. m = Some j \<Longrightarrow> j < length (pre @ [th]) \<and> Size ((pre @ [th]) ! j) = ucast s"
        using Cons.prems(1) by (auto simp: nth_append)
      moreover have "\<And>j. j < length (pre @ [th]) \<Longrightarrow> (ucast s :: u64) \<le> Size ((pre @ [th]) ! j)"
        using Cons.prems(2) False by (auto simp: nth_append less_Suc_eq)
      ultimately show ?thesis unfolding reassoc
        using nz False Cons.prems(3) Cons.IH [of m "pre @ [th]" s] by simp
    qed
  qed
qed

text \<open>\<^verbatim>\<open>GetMinThief\<close> returns a thief whose recorded load no other thief undercuts; it returns
  none only if there is no thief with a load below the largest 32-bit number.\<close>

lemma GetMinThief_minimal:
  "case GetMinThief w of
     Some i \<Rightarrow> i < length (thiefs w) \<and> (\<forall>j < length (thiefs w). Size (thiefs w ! i) \<le> Size (thiefs w ! j))
   | None \<Rightarrow> \<forall>j < length (thiefs w). 4294967295 \<le> Size (thiefs w ! j)"
proof -
  have max: "ucast (-1 :: u32) = (4294967295 :: u64)" by code_simp
  show ?thesis using min_thief_loop_spec [of None "[]" "-1" "thiefs w"]
    by (simp add: GetMinThief_def max split: option.splits)
qed

lemma GetMinThief_minimal_witness:
  "GetMinThief (demo_cv CvZero CvZero) = Some 0 \<and>
   Size (thiefs (demo_cv CvZero CvZero) ! 0) \<le> Size (thiefs (demo_cv CvZero CvZero) ! 1)"
proof -
  have "GetMinThief (demo_cv CvZero CvZero) = Some 0" by code_simp
  moreover have "length (thiefs (demo_cv CvZero CvZero)) = 2" by (simp add: demo_cv_simps)
  ultimately show ?thesis using GetMinThief_minimal [of "demo_cv CvZero CvZero"] by auto
qed

section \<open>What the helpers leave alone\<close>

text \<open>The main scheduler's own fields are the extension of the thieves' record: an operation that
  keeps the extension keeps all of them.\<close>

lemma sched_more_eq:
  fixes w w' :: sched
  assumes "thief_pool.more w' = thief_pool.more w"
  shows "bQueue w' = bQueue w" "iEDFPriorityQueue w' = iEDFPriorityQueue w"
    "iCancelStack w' = iCancelStack w" "rtRegisterTable w' = rtRegisterTable w"
    "vClockI w' = vClockI w" "vClockB w' = vClockB w" "currentTime w' = currentTime w"
    "schedulerStartTime w' = schedulerStartTime w" "cycleStartTime w' = cycleStartTime w"
    "currentSchedule w' = currentSchedule w" "idxRealTimeTask w' = idxRealTimeTask w"
    "jitters w' = jitters w" "toContinue w' = toContinue w" "active w' = active w"
    "taskStartTime w' = taskStartTime w"
    "rtScheduleNormal w' = rtScheduleNormal w" "rtScheduleGreedy w' = rtScheduleGreedy w"
  using assms by (cases w; cases w'; simp)+

lemma set_waitList_more [simp]: "thief_pool.more (set_waitList c ts w) = thief_pool.more w"
  by (simp add: set_waitList_def)

lemma pop_wait_more [simp]: "thief_pool.more (pop_wait c t w) = thief_pool.more w"
  "freed (pop_wait c t w) = freed w" "trace (pop_wait c t w) = trace w" "thiefs (pop_wait c t w) = thiefs w"
  by (simp_all add: pop_wait_def)

lemma thief_EnableImmediately_keeps:
  assumes "thief_EnableImmediately i t w = Ok w'"
  shows "thief_pool.more w' = thief_pool.more w" "freed w' = freed w" "trace w' = trace w"
    "mset (all_ready w') = (if i < length (thiefs w) then {#t#} else {#}) + mset (all_ready w)"
    "length (thiefs w') = length (thiefs w)"
proof -
  let ?th = "(thiefs w ! i)\<lparr>sizeOfQueue := sizeOfQueue (thiefs w ! i) + 1, isReady := t # readyq w i\<rparr>"
  have th: "thiefs w' = (thiefs w)[i := ?th]" using assms by (auto simp: thief_enable_defs split: if_splits)
  show "mset (all_ready w') = (if i < length (thiefs w) then {#t#} else {#}) + mset (all_ready w)"
    using mset_concat_update [of i "map isReady (thiefs w)" "t # readyq w i"]
    by (auto simp: all_ready_def th map_update list_update_beyond)
qed (use assms in \<open>auto simp: thief_enable_defs split: if_splits\<close>)

lemma cv_claim_held:
  assumes "cv_claim True c t w = Ok w'"
  shows "thief_pool.more w' = thief_pool.more w" "freed w' = freed w" "trace w' = trace w"
    "mset (all_ready w) \<subseteq># mset (all_ready w')"
  using assms
  by (auto simp: cv_claim_def task_EnableImmediately_def all_ready_def [symmetric]
      dest: thief_EnableImmediately_keeps split: if_splits SchedulerPtr.splits)
    (auto dest!: thief_EnableImmediately_keeps(4) simp: all_ready_def)

lemma notify_each_held:
  assumes "each (\<lambda>t w. cv_claim True c t (pop_wait c t w)) ts w = Ok w'"
  shows "thief_pool.more w' = thief_pool.more w \<and> freed w' = freed w \<and> trace w' = trace w \<and>
    mset (all_ready w) \<subseteq># mset (all_ready w')"
  using assms
proof (induction ts arbitrary: w)
  case Nil
  then show ?case by simp
next
  case (Cons t ts)
  then obtain w1 where w1: "cv_claim True c t (pop_wait c t w) = Ok w1"
    and r: "each (\<lambda>t w. cv_claim True c t (pop_wait c t w)) ts w1 = Ok w'" by auto
  have "mset (all_ready (pop_wait c t w)) = mset (all_ready w)" by (simp add: all_ready_def)
  then show ?case using cv_claim_held [OF w1] Cons.IH [OF r] by (auto intro: subset_mset.order_trans)
qed

lemma Notify_held:
  assumes "Notify True t w = Ok w'"
  shows "thief_pool.more w' = thief_pool.more w" "freed w' = freed w"
    "trace w' = trace w @ [Notified t]" "mset (all_ready w) \<subseteq># mset (all_ready w')"
proof -
  let ?v = "upd_task t (isFinished_update (\<lambda>_. True)) (w\<lparr>trace := trace w @ [Notified t]\<rparr>)"
  have "mset (all_ready ?v) = mset (all_ready w)" by (simp add: all_ready_def)
  with notify_each_held [OF assms [unfolded Notify_def notify_all_def]]
  show "thief_pool.more w' = thief_pool.more w" "freed w' = freed w"
    "trace w' = trace w @ [Notified t]" "mset (all_ready w) \<subseteq># mset (all_ready w')"
    by simp_all
qed

section \<open>Cancellation\<close>

lemma trim_cancel_loop_spec:
  "trim_cancel_loop n w = Ok w' \<Longrightarrow> length (iCancelStack w) \<le> n + 3 \<Longrightarrow>
   iCancelStack w' = take 3 (iCancelStack w) \<and> freed w' = drop 3 (iCancelStack w) @ freed w \<and>
   trace w' = trace w @ concat (map (\<lambda>t. [OnCancel t, Notified t]) (rev (drop 3 (iCancelStack w)))) \<and>
   mset (all_ready w) \<subseteq># mset (all_ready w') \<and>
   thief_pool.more w' = thief_pool.more (w\<lparr>iCancelStack := take 3 (iCancelStack w)\<rparr>)"
proof (induction n arbitrary: w)
  case 0
  then show ?case by simp
next
  case (Suc n)
  show ?case
  proof (cases "length (iCancelStack w) > 3")
    case True
    let ?s = "iCancelStack w"
    let ?t = "last ?s" let ?w1 = "call_onCancel ?t (w\<lparr>iCancelStack := butlast ?s\<rparr>)"
    from Suc.prems(1) True obtain w2 where w2: "Notify True ?t ?w1 = Ok w2"
      and r: "trim_cancel_loop n (delete_task ?t w2) = Ok w'" by (auto simp: Let_def)
    note nh = Notify_held [OF w2]
    have st: "iCancelStack w2 = butlast ?s" using sched_more_eq(3) [OF nh(1)] by (simp add: call_onCancel_def)
    have d: "drop 3 ?s = drop 3 (butlast ?s) @ [?t]" "take 3 (butlast ?s) = take 3 ?s"
      using drop_last take_butlast_less True by blast+
    have m: "thief_pool.more (w2\<lparr>freed := ys, iCancelStack := xs\<rparr>) = thief_pool.more (w\<lparr>iCancelStack := xs\<rparr>)"
      for xs ys
      using nh(1) by (cases w; cases w2) (simp add: call_onCancel_def)
    have all: "mset (all_ready w) \<subseteq># mset (all_ready w2)"
      using nh(4) by (simp add: all_ready_def call_onCancel_def)
    have "length (iCancelStack (delete_task ?t w2)) \<le> n + 3"
      using st Suc.prems(2) by (simp add: delete_task_def)
    from Suc.IH [OF r this] show ?thesis
      using st d nh m all by (auto simp: delete_task_def call_onCancel_def all_ready_def
          intro: subset_mset.order_trans)
  next
    case False
    then show ?thesis using Suc.prems by simp
  qed
qed

lemma trim_cancel_spec:
  assumes "trim_cancel w = Ok w'"
  shows "iCancelStack w' = take 3 (iCancelStack w)" "freed w' = drop 3 (iCancelStack w) @ freed w"
    "trace w' = trace w @ concat (map (\<lambda>t. [OnCancel t, Notified t]) (rev (drop 3 (iCancelStack w))))"
    "mset (all_ready w) \<subseteq># mset (all_ready w')"
    "thief_pool.more w' = thief_pool.more (w\<lparr>iCancelStack := take 3 (iCancelStack w)\<rparr>)"
  using trim_cancel_loop_spec [OF assms [unfolded trim_cancel_def]] by simp_all

text \<open>Without joiners nothing can block.\<close>

lemma trim_cancel_loop_ok:
  "\<forall>t \<in> set (iCancelStack w). waitList w (NotifierCV t) = [] \<Longrightarrow> \<exists>w'. trim_cancel_loop n w = Ok w'"
proof (induction n arbitrary: w)
  case 0
  then show ?case by simp
next
  case (Suc n)
  show ?case
  proof (cases "length (iCancelStack w) > 3")
    case True
    let ?s = "iCancelStack w" let ?t = "last ?s"
    let ?w1 = "call_onCancel ?t (w\<lparr>iCancelStack := butlast ?s\<rparr>)"
    let ?w2 = "upd_task ?t (isFinished_update (\<lambda>_. True)) (?w1\<lparr>trace := trace ?w1 @ [Notified ?t]\<rparr>)"
    have "?t \<in> set ?s" using True by (intro last_in_set) auto
    then have n: "Notify True ?t ?w1 = Ok ?w2"
      using Suc.prems by (simp add: Notify_def notify_all_def call_onCancel_def)
    have "\<forall>t \<in> set (iCancelStack (delete_task ?t ?w2)). waitList (delete_task ?t ?w2) (NotifierCV t) = []"
      using Suc.prems in_set_butlastD [of _ ?s] by (auto simp: delete_task_def call_onCancel_def)
    from Suc.IH [OF this] show ?thesis using True n by (simp add: Let_def)
  next
    case False
    then show ?thesis by simp
  qed
qed

text \<open>Cancellation keeps the three most recently expired tasks and cancels exactly the others,
  oldest first: for each, the cancellation callback runs, then its joiners are notified, then
  it is deleted, once. If nobody joins them the loop always completes.\<close>

lemma trim_cancel_exact:
  "(\<forall>w'. trim_cancel w = Ok w' \<longrightarrow>
      iCancelStack w' = take 3 (iCancelStack w) \<and> freed w' = drop 3 (iCancelStack w) @ freed w \<and>
      trace w' = trace w @ concat (map (\<lambda>t. [OnCancel t, Notified t]) (rev (drop 3 (iCancelStack w))))) \<and>
   ((\<forall>t \<in> set (iCancelStack w). waitList w (NotifierCV t) = []) \<longrightarrow> (\<exists>w'. trim_cancel w = Ok w'))"
proof (intro conjI allI impI)
  fix w' assume "trim_cancel w = Ok w'"
  from trim_cancel_spec [OF this]
  show "iCancelStack w' = take 3 (iCancelStack w)" "freed w' = drop 3 (iCancelStack w) @ freed w"
    "trace w' = trace w @ concat (map (\<lambda>t. [OnCancel t, Notified t]) (rev (drop 3 (iCancelStack w))))"
    by simp_all
next
  assume "\<forall>t \<in> set (iCancelStack w). waitList w (NotifierCV t) = []"
  then show "\<exists>w'. trim_cancel w = Ok w'" unfolding trim_cancel_def by (rule trim_cancel_loop_ok)
qed

definition demo_cancel :: sched where
  "demo_cancel = (new_RIBScheduler 1 0 (\<lambda>_. new_TaskInterface INTERACTIVE_TASK_T SharedCopyStack RIBPtr))
     \<lparr>iCancelStack := [1, 2, 3, 4, 5]\<rparr>"

lemma trim_cancel_exact_witness:
  "\<exists>w'. trim_cancel demo_cancel = Ok w' \<and> iCancelStack w' = [1, 2, 3] \<and> freed w' = [4, 5] \<and>
     trace w' = [OnCancel 5, Notified 5, OnCancel 4, Notified 4]"
  using trim_cancel_exact [of demo_cancel] by (auto simp: demo_cancel_def new_RIBScheduler_def)

text \<open>Cancelling an expired task deadlocks the main thread when a task of the main scheduler
  is joining it: the notification runs with the queue lock held and enables the joiner, which
  takes the same lock.\<close>

lemma cancel_joined_deadlocks:
  assumes "length (iCancelStack w) > 3" "waitList w (NotifierCV (last (iCancelStack w))) = j # js"
    and "scheduler (heap w j) = RIBPtr" "cvStatus (heap w j) = CvZero"
  shows "trim_cancel w = Fault Deadlock"
proof -
  obtain n where n: "length (iCancelStack w) = Suc n" using assms(1) by (cases "length (iCancelStack w)") auto
  let ?t = "last (iCancelStack w)"
  have "Notify True ?t (call_onCancel ?t (w\<lparr>iCancelStack := butlast (iCancelStack w)\<rparr>)) = Fault Deadlock"
    using assms(2-4)
    by (auto simp: Notify_def notify_all_def cv_claim_def task_EnableImmediately_def pop_wait_def call_onCancel_def)
  then show ?thesis using assms(1) by (simp add: trim_cancel_def n Let_def)
qed

lemma cancel_joined_deadlocks_witness:
  "trim_cancel (demo_cancel\<lparr>waitList := (\<lambda>_. [])(NotifierCV 5 := [9])\<rparr>) = Fault Deadlock"
  by (rule cancel_joined_deadlocks [of _ 9 "[]"])
    (simp_all add: demo_cancel_def new_RIBScheduler_def new_TaskInterface_def)

section \<open>Expiry\<close>

definition goes_to_thief :: "sched \<Rightarrow> tid \<Rightarrow> bool" where
  "goes_to_thief w t \<longleftrightarrow> thiefs w \<noteq> [] \<and> isStealable (heap w t) \<and> CanSteal (heap w t)"

lemma expire_loop_stop:
  "iEDFPriorityQueue w = [] \<or> \<not> expired w (edf_top tie (heap w) (iEDFPriorityQueue w)) \<Longrightarrow>
   expire_loop tie ts w = (ts, w)"
  by (subst expire_loop.simps) auto

lemma expire_loop_step:
  assumes "iEDFPriorityQueue w \<noteq> []" "expired w (edf_top tie (heap w) (iEDFPriorityQueue w))"
  shows "expire_loop tie ts w =
    (let t = edf_top tie (heap w) (iEDFPriorityQueue w);
         w1 = w\<lparr>iEDFPriorityQueue := remove1 t (iEDFPriorityQueue w)\<rparr>
     in if goes_to_thief w t then expire_loop tie (ts @ [t]) w1
        else expire_loop tie ts (w1\<lparr>iCancelStack := t # iCancelStack w1\<rparr>))"
  using assms by (subst expire_loop.simps) (simp add: Let_def goes_to_thief_def)

text \<open>The result in terms of the start: \<open>ss\<close> are the tasks for the thieves, \<open>cs\<close> those put on the
  cancel stack, and \<open>e\<close> what is left in the queue.\<close>

definition expiry_ok ::
  "(tid list \<Rightarrow> nat) \<Rightarrow> sched \<Rightarrow> tid list \<Rightarrow> tid list \<Rightarrow> tid list \<Rightarrow> bool" where
  "expiry_ok tie w ss cs e \<longleftrightarrow>
     mset ss + mset cs + mset e = mset (iEDFPriorityQueue w) \<and>
     (\<forall>t \<in> set ss. expired w t \<and> goes_to_thief w t) \<and>
     (\<forall>t \<in> set cs. expired w t \<and> \<not> goes_to_thief w t) \<and>
     (e = [] \<or> \<not> expired w (edf_top tie (heap w) e))"

lemma expire_loop_spec:
  "\<exists>ss cs e. expire_loop tie ts w =
     (ts @ ss, w\<lparr>iEDFPriorityQueue := e, iCancelStack := rev cs @ iCancelStack w\<rparr>) \<and>
     expiry_ok tie w ss cs e"
proof (induction "length (iEDFPriorityQueue w)" arbitrary: w ts)
  case 0
  then show ?case
    by (intro exI [of _ "[]"]) (simp add: expire_loop_stop expiry_ok_def)
next
  case (Suc n)
  let ?q = "iEDFPriorityQueue w" let ?t = "edf_top tie (heap w) ?q"
  show ?case
  proof (cases "expired w ?t")
    case False
    then show ?thesis
      by (intro exI [of _ "[]"] exI [of _ ?q]) (simp add: expire_loop_stop expiry_ok_def)
  next
    case True
    have ne: "?q \<noteq> []" using Suc.hyps(2) by auto
    let ?w1 = "w\<lparr>iEDFPriorityQueue := remove1 ?t ?q\<rparr>"
    have t: "?t \<in> set ?q" using edf_top_mem [OF ne] .
    then have len: "n = length (remove1 ?t ?q)" using Suc.hyps(2) by (simp add: length_remove1)
    have ms: "add_mset ?t (mset (remove1 ?t ?q)) = mset ?q" using t by (rule mset_remove1_add)
    let ?w2 = "if goes_to_thief w ?t then ?w1 else ?w1\<lparr>iCancelStack := ?t # iCancelStack w\<rparr>"
    let ?ts = "if goes_to_thief w ?t then ts @ [?t] else ts"
    have step: "expire_loop tie ts w = expire_loop tie ?ts ?w2"
      using expire_loop_step [OF ne True] by (simp add: Let_def)
    have exp: "expired ?w2 = expired w" "goes_to_thief ?w2 = goes_to_thief w" "heap ?w2 = heap w"
      "iEDFPriorityQueue ?w2 = remove1 ?t ?q"
      by (auto simp: expired_def goes_to_thief_def fun_eq_iff)
    obtain ss cs e where r: "expire_loop tie ?ts ?w2 =
        (?ts @ ss, ?w2\<lparr>iEDFPriorityQueue := e, iCancelStack := rev cs @ iCancelStack ?w2\<rparr>)"
      and ok: "expiry_ok tie ?w2 ss cs e"
      using Suc.hyps(1) [of ?w2 ?ts] len exp(4) by auto
    from ok ms exp True have ok':
      "if goes_to_thief w ?t then expiry_ok tie w (?t # ss) cs e else expiry_ok tie w ss (?t # cs) e"
      by (auto simp: expiry_ok_def)
    show ?thesis
    proof (cases "goes_to_thief w ?t")
      case g: True
      then have "expire_loop tie ts w =
          (ts @ (?t # ss), w\<lparr>iEDFPriorityQueue := e, iCancelStack := rev cs @ iCancelStack w\<rparr>)"
        using step r by simp
      with ok' g show ?thesis by metis
    next
      case g: False
      then have "expire_loop tie ts w =
          (ts @ ss, w\<lparr>iEDFPriorityQueue := e, iCancelStack := rev (?t # cs) @ iCancelStack w\<rparr>)"
        using step r by simp
      with ok' g show ?thesis by metis
    qed
  qed
qed

section \<open>Choosing an interactive or batch task\<close>

lemma GetMinThief_lt: "GetMinThief w = Some i \<Longrightarrow> i < length (thiefs w)"
  using min_thief_loop_spec [of None "[]" "-1" "thiefs w"] by (simp add: GetMinThief_def)

text \<open>\<^verbatim>\<open>GetMinThief\<close> counts with 32 bits: \<open>n\<close> more tasks have a place when some thief can grow that much below the
  largest 32-bit number.\<close>

definition thief_room :: "nat \<Rightarrow> 'a thief_pool_scheme \<Rightarrow> bool" where
  "thief_room n w \<longleftrightarrow> (\<exists>th \<in> set (thiefs w). unat (Size th) + n < 4294967295)"

lemma thief_room_less: "thief_room n w \<Longrightarrow> m \<le> n \<Longrightarrow> thief_room m w"
  unfolding thief_room_def by (meson add_left_mono order_le_less_trans)

lemma GetMinThief_some:
  assumes "thief_room n w"
  obtains i where "GetMinThief w = Some i" "i < length (thiefs w)"
proof (cases "GetMinThief w")
  case None
  obtain j where j: "j < length (thiefs w)" "unat (Size (thiefs w ! j)) + n < 4294967295"
    using assms by (auto simp: thief_room_def in_set_conv_nth)
  then have "4294967295 \<le> Size (thiefs w ! j)" using GetMinThief_minimal [of w] None by simp
  then show ?thesis using j(2) by (simp add: word_le_nat_alt)
next
  case (Some i)
  then show ?thesis using that GetMinThief_lt by blast
qed

lemma EnableImmediately_room:
  assumes "thief_EnableImmediately i t w = Ok w'" "thief_room (Suc n) w"
  shows "thief_room n w'"
proof -
  obtain j where j: "j < length (thiefs w)" "unat (Size (thiefs w ! j)) + Suc n < 4294967295"
    using assms(2) by (auto simp: thief_room_def in_set_conv_nth)
  have "length (thiefs w') = length (thiefs w)" by (rule thief_EnableImmediately_keeps(5) [OF assms(1)])
  moreover have "Size (thiefs w' ! j) = (if j = i then Size (thiefs w ! j) + 1 else Size (thiefs w ! j))"
    using assms(1) j(1) by (auto simp: thief_enable_defs Size_def split: if_splits)
  moreover have "unat (Size (thiefs w ! j) + 1) \<le> unat (Size (thiefs w ! j)) + 1"
    by (simp add: unat_word_ariths(1) le_trans [OF mod_less_eq_dividend])
  ultimately show ?thesis using j by (auto simp: thief_room_def in_set_conv_nth intro!: bexI [of _ "thiefs w' ! j"])
qed

lemma give_to_thief_keeps:
  assumes "give_to_thief t w = Ok w'" "thief_room (Suc n) w"
  shows "thief_pool.more w' = thief_pool.more w" "mset (all_ready w') = add_mset t (mset (all_ready w))"
    "freed w' = freed w" "trace w' = trace w" "thief_room n w'"
proof -
  obtain i where i: "GetMinThief w = Some i" "i < length (thiefs w)" using GetMinThief_some [OF assms(2)] .
  then have e: "thief_EnableImmediately i t (upd_task t (Steal (ThiefPtr i)) w) = Ok w'"
    using assms(1) by (simp add: give_to_thief_def)
  note k = thief_EnableImmediately_keeps [OF e]
  show "thief_pool.more w' = thief_pool.more w" "freed w' = freed w" "trace w' = trace w" using k(1-3) by simp_all
  show "mset (all_ready w') = add_mset t (mset (all_ready w))" using k(4) i(2) by (simp add: all_ready_def)
  show "thief_room n w'" by (rule EnableImmediately_room [OF e]) (use assms(2) in \<open>simp add: thief_room_def\<close>)
qed

lemma give_each_more: "each give_to_thief ts w = Ok w' \<Longrightarrow> thief_pool.more w' = thief_pool.more w"
proof (induction ts arbitrary: w)
  case (Cons t ts)
  then obtain w1 where "give_to_thief t w = Ok w1" "each give_to_thief ts w1 = Ok w'" by auto
  with Cons.IH [of w1] show ?case
    using thief_EnableImmediately_keeps(1) by (fastforce simp: give_to_thief_def split: option.splits)
qed simp

lemma give_each_keeps:
  "each give_to_thief ts w = Ok w' \<Longrightarrow> ts = [] \<or> thief_room (length ts) w \<Longrightarrow>
   thief_pool.more w' = thief_pool.more w \<and> mset (all_ready w') = mset ts + mset (all_ready w) \<and>
   freed w' = freed w \<and> trace w' = trace w"
proof (induction ts arbitrary: w)
  case Nil
  then show ?case by simp
next
  case (Cons t ts)
  then obtain w1 where "give_to_thief t w = Ok w1" "each give_to_thief ts w1 = Ok w'" by auto
  with Cons.IH [of w1] give_to_thief_keeps [of t w w1 "length ts"] Cons.prems(2) show ?case by simp
qed

text \<open>The queues a task can be in.\<close>

definition queues :: "sched \<Rightarrow> tid multiset" where
  "queues w = mset (bQueue w) + mset (iEDFPriorityQueue w) + mset (iCancelStack w) + mset (all_ready w)"

lemma trim_cancel_keeps:
  assumes "trim_cancel w = Ok w'"
  shows "queues w \<subseteq># queues w' + mset (drop 3 (iCancelStack w))"
proof -
  note s = trim_cancel_spec [OF assms]
  have q: "iEDFPriorityQueue w' = iEDFPriorityQueue w" "bQueue w' = bQueue w"
    using sched_more_eq(1,2) [OF s(5)] by simp_all
  have "mset (iCancelStack w) = mset (take 3 (iCancelStack w)) + mset (drop 3 (iCancelStack w))"
    by (metis append_take_drop_id mset_append)
  then show ?thesis using s(1,4) q by (simp add: queues_def)
qed

lemma pick_interactive_cases:
  assumes "pick_interactive tie now w = (r, w')"
  obtains (edf) t where "r = Some t" "iEDFPriorityQueue w \<noteq> []"
      "t = edf_top tie (heap w) (iEDFPriorityQueue w)"
      "w' = w\<lparr>iEDFPriorityQueue := remove1 t (iEDFPriorityQueue w), taskStartTime := now\<rparr>"
  | (late) t ts where "r = Some t" "iEDFPriorityQueue w = []" "iCancelStack w = t # ts"
      "w' = w\<lparr>iCancelStack := ts, taskStartTime := now\<rparr>"
  | (none) "r = None" "iEDFPriorityQueue w = []" "iCancelStack w = []" "w' = w"
  using assms by (auto simp: pick_interactive_def Let_def split: if_splits list.splits)

lemma pick_interactive_queues:
  "pick_interactive tie now w = (r, w') \<Longrightarrow>
   queues w = mset_set (set_option r) + queues w' \<and> freed w' = freed w \<and> trace w' = trace w"
proof (erule pick_interactive_cases, goal_cases)
  case (1 t)
  then have "mset (iEDFPriorityQueue w) = add_mset t (mset (remove1 t (iEDFPriorityQueue w)))"
    using mset_remove1_add [OF edf_top_mem] by metis
  with 1 show ?case by (simp add: queues_def all_ready_def)
qed (simp_all add: queues_def all_ready_def)

text \<open>C9. The choice of a task loses none and deletes only cancelled tasks. Suppose that some thief, if there are any, has room in its counter for
  the interactive tasks. Then every task that was in the batch queue, the interactive
  queue, on the cancel stack or with a thief is afterwards returned, in one of these queues, or among the tasks \<open>gone\<close>. Those are
  exactly the tasks that were deleted; each was on the cancel stack before or was an expired interactive task that
  cannot run on a thief, and for each the cancellation callback ran and its joiners were notified, once.\<close>

theorem GetAnInteractiveBatchTask_loses_none:
  assumes "GetAnInteractiveBatchTask tie (\<lambda>w. w) now w = Ok (r, w')"
    and "thiefs w = [] \<or> thief_room (length (iEDFPriorityQueue w)) w"
  shows "\<exists>gone. queues w \<subseteq># mset_set (set_option r) + queues w' + mset gone \<and> freed w' = gone @ freed w \<and>
    trace w' = trace w @ concat (map (\<lambda>t. [OnCancel t, Notified t]) (rev gone)) \<and>
    (\<forall>t \<in> set gone. t \<in> set (iCancelStack w) \<or> t \<in> set (iEDFPriorityQueue w) \<and> expired w t \<and> \<not> goes_to_thief w t)"
proof (cases "ib_decide w")
  case DecideNone
  then show ?thesis using assms(1) by (intro exI [of _ "[]"]) (simp add: GetAnInteractiveBatchTask_def)
next
  case DecideBatch
  then show ?thesis using assms(1)
    by (intro exI [of _ "[]"])
      (auto simp: GetAnInteractiveBatchTask_def pick_batch_def queues_def all_ready_def split: list.splits)
next
  case DecideInteractive
  obtain ss cs e where ex: "expire_loop tie [] w =
      (ss, w\<lparr>iEDFPriorityQueue := e, iCancelStack := rev cs @ iCancelStack w\<rparr>)"
    and ok: "expiry_ok tie w ss cs e" using expire_loop_spec [of tie "[]" w] by auto
  let ?s = "rev cs @ iCancelStack w"
  let ?w1 = "w\<lparr>iEDFPriorityQueue := e, iCancelStack := ?s\<rparr>"
  from assms(1) DecideInteractive ex obtain w2 w3 where g: "each give_to_thief ss ?w1 = Ok w2"
    and tr: "trim_cancel w2 = Ok w3" and p: "pick_interactive tie now w3 = (r, w')"
    by (auto simp: GetAnInteractiveBatchTask_def)
  have ms: "mset ss + mset cs + mset e = mset (iEDFPriorityQueue w)" using ok by (simp add: expiry_ok_def)
  have "length ss \<le> length (iEDFPriorityQueue w)" using arg_cong [OF ms, of size] by simp
  moreover have "ss = [] \<or> thiefs w \<noteq> []" using ok by (cases ss) (auto simp: expiry_ok_def goes_to_thief_def)
  ultimately have "ss = [] \<or> thief_room (length ss) w" using assms(2) thief_room_less by blast
  then have "ss = [] \<or> thief_room (length ss) ?w1" by (simp add: thief_room_def)
  note k = give_each_keeps [OF g this] and c = trim_cancel_spec [OF tr] and f = pick_interactive_queues [OF p]
  note m = sched_more_eq [OF k [THEN conjunct1]]
  have s2: "iCancelStack w2 = ?s" using m by simp
  have "queues w = queues w2" using ms m k by (simp add: queues_def all_ready_def ac_simps)
  then have "queues w \<subseteq># mset_set (set_option r) + queues w' + mset (drop 3 ?s)"
    using trim_cancel_keeps [OF tr] f s2 by simp
  moreover have "freed w' = drop 3 ?s @ freed w" "trace w' =
      trace w @ concat (map (\<lambda>t. [OnCancel t, Notified t]) (rev (drop 3 ?s)))" using c k f s2 by simp_all
  moreover have "set (iEDFPriorityQueue w) = set ss \<union> set cs \<union> set e" using arg_cong [OF ms, of set_mset] by simp
  then have "t \<in> set (iEDFPriorityQueue w) \<and> expired w t \<and> \<not> goes_to_thief w t" if "t \<in> set cs" for t
    using that ok by (auto simp: expiry_ok_def)
  then have "\<forall>t \<in> set (drop 3 ?s). t \<in> set (iCancelStack w) \<or>
      t \<in> set (iEDFPriorityQueue w) \<and> expired w t \<and> \<not> goes_to_thief w t" by (auto dest!: in_set_dropD)
  ultimately show ?thesis by blast
qed

definition demo_ib :: sched where
  "demo_ib = (new_RIBScheduler 1 0 (\<lambda>t. (new_TaskInterface INTERACTIVE_TASK_T SharedCopyStack RIBPtr)
       \<lparr>deadline := (if t = 1 then 100 else 50), burst := 10\<rparr>))
     \<lparr>iEDFPriorityQueue := [1, 2], bQueue := [3], vClockB := 1, currentTime := 60\<rparr>"

definition demo_hand_over :: sched where
  "demo_hand_over = (new_RIBScheduler 1 0 (\<lambda>t. (new_TaskInterface INTERACTIVE_TASK_T
       (if t = 2 then StandAloneStack else SharedCopyStack) RIBPtr)
       \<lparr>deadline := (if t = 1 then 100 else 50), burst := 10\<rparr>))
     \<lparr>iEDFPriorityQueue := [1, 2, 3], bQueue := [4], iCancelStack := [12, 13, 14], vClockB := 1, currentTime := 60\<rparr>"

lemma demo_ib_run:
  "\<exists>w'. GetAnInteractiveBatchTask (\<lambda>_. 0) (\<lambda>w. w) 61 demo_ib = Ok (Some 1, w') \<and> iCancelStack w' = [2]"
proof -
  have "map_option (\<lambda>(r, w'). (r, iCancelStack w'))
      (case GetAnInteractiveBatchTask (\<lambda>_. 0) (\<lambda>w. w) 61 demo_ib of Ok x \<Rightarrow> Some x | _ \<Rightarrow> None)
      = Some (Some 1, [2])"
    by code_simp
  then show ?thesis by (auto split: outcome.splits)
qed

theorem GetAnInteractiveBatchTask_loses_none_witness:
  "\<exists>w'. GetAnInteractiveBatchTask (\<lambda>_. 0) (\<lambda>w. w) 61 demo_hand_over = Ok (Some 1, w') \<and>
     freed w' = [14] \<and> trace w' = [OnCancel 14, Notified 14] \<and>
     queues demo_hand_over \<subseteq># {#1#} + queues w' + {#14#} \<and> readyq w' 0 = [2]"
proof -
  have "case GetAnInteractiveBatchTask (\<lambda>_. 0) (\<lambda>w. w) 61 demo_hand_over of
      Ok (r, w') \<Rightarrow> r = Some 1 \<and> freed w' = [14] \<and> readyq w' 0 = [2] | _ \<Rightarrow> False" by code_simp
  then obtain w' where w': "GetAnInteractiveBatchTask (\<lambda>_. 0) (\<lambda>w. w) 61 demo_hand_over = Ok (Some 1, w')"
    "freed w' = [14]" "readyq w' 0 = [2]" by (auto split: outcome.splits)
  have room: "thief_room (length (iEDFPriorityQueue demo_hand_over)) demo_hand_over"
    by (simp add: thief_room_def demo_hand_over_def new_RIBScheduler_def new_StealScheduler_def Size_def)
  have "freed demo_hand_over = []" "trace demo_hand_over = []" by (simp_all add: demo_hand_over_def new_RIBScheduler_def)
  with GetAnInteractiveBatchTask_loses_none [OF w'(1) disjI2 [OF room]] w' show ?thesis
    by (auto simp: add_mset_commute)
qed

text \<open>None of the steps in between changes a deadline, a burst or the type of a task.\<close>

definition keeps_prio :: "sched \<Rightarrow> sched \<Rightarrow> bool" where
  "keeps_prio w w' \<longleftrightarrow> (\<forall>u. deadline (heap w' u) = deadline (heap w u) \<and>
     burst (heap w' u) = burst (heap w u) \<and> taskType (heap w' u) = taskType (heap w u))"

lemma keeps_prio_trans: "keeps_prio u v \<Longrightarrow> keeps_prio v w \<Longrightarrow> keeps_prio u w"
  by (simp add: keeps_prio_def)

lemma each_invariant:
  assumes "\<And>x w w'. f x w = Ok w' \<Longrightarrow> R w w'" "\<And>w. R w w" "\<And>u v w. R u v \<Longrightarrow> R v w \<Longrightarrow> R u w"
    and "each f xs w = Ok w'"
  shows "R w w'"
  using assms(4)
proof (induction xs arbitrary: w)
  case Nil
  then show ?case using assms(2) by simp
next
  case (Cons x xs)
  then obtain w1 where "f x w = Ok w1" "each f xs w1 = Ok w'" by auto
  with Cons.IH assms(1,3) show ?case by blast
qed

lemma thief_EnableImmediately_prio: "thief_EnableImmediately i t w = Ok w' \<Longrightarrow> keeps_prio w w'"
  by (auto simp: thief_enable_defs keeps_prio_def split: if_splits)

lemma give_to_thief_prio: "give_to_thief t w = Ok w' \<Longrightarrow> keeps_prio w w'"
  by (auto simp: give_to_thief_def split: option.splits dest!: thief_EnableImmediately_prio)
    (auto simp: keeps_prio_def)

lemma give_each_prio: "each give_to_thief ts w = Ok w' \<Longrightarrow> keeps_prio w w'"
  by (rule each_invariant [of give_to_thief keeps_prio])
    (auto simp: give_to_thief_prio intro: keeps_prio_trans, simp add: keeps_prio_def)

lemma cv_claim_prio: "cv_claim True c t (pop_wait c t w) = Ok w' \<Longrightarrow> keeps_prio w w'"
  by (auto simp: cv_claim_def task_EnableImmediately_def split: if_splits SchedulerPtr.splits
      dest!: thief_EnableImmediately_prio)
    (auto simp: keeps_prio_def pop_wait_def)

lemma Notify_prio:
  assumes "Notify True t w = Ok w'"
  shows "keeps_prio w w'"
proof -
  let ?v = "upd_task t (isFinished_update (\<lambda>_. True)) (w\<lparr>trace := trace w @ [Notified t]\<rparr>)"
  have "keeps_prio ?v w'"
    by (rule each_invariant [OF cv_claim_prio _ _ assms [unfolded Notify_def notify_all_def]])
      (auto simp: keeps_prio_def)
  then show ?thesis by (simp add: keeps_prio_def)
qed

lemma trim_cancel_loop_prio: "trim_cancel_loop n w = Ok w' \<Longrightarrow> keeps_prio w w'"
proof (induction n arbitrary: w)
  case 0
  then show ?case by (simp add: keeps_prio_def)
next
  case (Suc n)
  then show ?case
    by (auto simp: Let_def keeps_prio_def call_onCancel_def delete_task_def split: if_splits
        dest!: Notify_prio)
qed

lemma trim_cancel_prio: "trim_cancel w = Ok w' \<Longrightarrow> keeps_prio w w'"
  unfolding trim_cancel_def by (rule trim_cancel_loop_prio)

lemma edf_top_prio: "keeps_prio w w' \<Longrightarrow> edf_top tie (heap w') q = edf_top tie (heap w) q"
  by (simp add: keeps_prio_def edf_top_def edf_minima_def priority_order_def)

text \<open>C8. Which task is chosen. A batch task is the oldest one, and it is chosen when nothing
  interactive is ready or interactive work has had at least as much time. An interactive task
  is earliest-deadline-first: nothing in the ready queue precedes it (for a treap whose keys have not
  changed since they were inserted), and, unless another thread interfered, it is not expired. An expired task runs only when the ready queue is empty,
  from a stack of at most three.\<close>

theorem GetAnInteractiveBatchTask_choice:
  assumes "GetAnInteractiveBatchTask tie env now w = Ok (Some t, w')"
  shows "taskStartTime w' = now \<and>
    (bQueue w = t # bQueue w' \<and> ((iEDFPriorityQueue w = [] \<and> iCancelStack w = []) \<or> vClockB w \<le> vClockI w)
     \<or> (bQueue w = [] \<or> vClockI w < vClockB w) \<and>
       ((\<forall>u \<in> set (iEDFPriorityQueue w'). \<not> priority_order (heap w' u) (heap w' t)) \<and>
          (env = (\<lambda>w. w) \<longrightarrow> \<not> expired w t)
        \<or> iEDFPriorityQueue w' = [] \<and> length (iCancelStack w') < 3))"
proof (cases "ib_decide w")
  case DecideNone
  then show ?thesis using assms by (simp add: GetAnInteractiveBatchTask_def)
next
  case DecideBatch
  then have "bQueue w = t # bQueue w' \<and> taskStartTime w' = now"
    using assms by (auto simp: GetAnInteractiveBatchTask_def pick_batch_def split: list.splits)
  moreover have "(iEDFPriorityQueue w = [] \<and> iCancelStack w = []) \<or> vClockB w \<le> vClockI w"
    using DecideBatch by (auto simp: ib_decide_def split: if_splits)
  ultimately show ?thesis by blast
next
  case DecideInteractive
  then have d: "bQueue w = [] \<or> vClockI w < vClockB w" by (auto simp: ib_decide_def split: if_splits)
  obtain ss cs e where ex: "expire_loop tie [] w =
      (ss, w\<lparr>iEDFPriorityQueue := e, iCancelStack := rev cs @ iCancelStack w\<rparr>)"
    and ok: "expiry_ok tie w ss cs e" using expire_loop_spec [of tie "[]" w] by auto
  let ?w1 = "w\<lparr>iEDFPriorityQueue := e, iCancelStack := rev cs @ iCancelStack w\<rparr>"
  from assms DecideInteractive ex obtain w2 w3 where g: "each give_to_thief ss ?w1 = Ok w2"
    and tr: "trim_cancel (interfere env w2) = Ok w3" and p: "pick_interactive tie now w3 = (Some t, w')"
    by (auto simp: GetAnInteractiveBatchTask_def)
  from p show ?thesis
  proof (cases rule: pick_interactive_cases)
    case (edf t')
    then have "\<forall>u \<in> set (iEDFPriorityQueue w'). \<not> priority_order (heap w' u) (heap w' t)"
      using edf_top_minimal [of "iEDFPriorityQueue w3" _ "heap w3" tie] by (auto dest: subsetD [OF set_remove1_subset])
    moreover have "\<not> expired w t" if i: "env = (\<lambda>w. w)"
    proof -
      have k: "keeps_prio w w3"
        using give_each_prio [OF g] trim_cancel_prio [OF tr] i by (simp add: keeps_prio_def)
      have "iEDFPriorityQueue w3 = e"
        using sched_more_eq(2) [OF trim_cancel_spec(5) [OF tr]] i sched_more_eq(2) [OF give_each_more [OF g]] by simp
      then show ?thesis using edf ok edf_top_prio [OF k] by (auto simp: expiry_ok_def)
    qed
    ultimately show ?thesis using d edf by auto
  next
    case (late t' ts)
    then have "length (iCancelStack w') < 3"
      using trim_cancel_spec(1) [OF tr] by (auto dest: arg_cong [of _ _ length])
    then show ?thesis using late d by simp
  qed simp
qed

theorem GetAnInteractiveBatchTask_choice_witness:
  "\<exists>w'. GetAnInteractiveBatchTask (\<lambda>_. 0) (\<lambda>w. w) 61 demo_ib = Ok (Some 1, w') \<and>
     taskStartTime w' = 61 \<and> \<not> (bQueue demo_ib = 1 # bQueue w')"
proof -
  obtain w' where "GetAnInteractiveBatchTask (\<lambda>_. 0) (\<lambda>w. w) 61 demo_ib = Ok (Some 1, w')"
    using demo_ib_run by blast
  with GetAnInteractiveBatchTask_choice [OF this] show ?thesis
    by (auto simp: demo_ib_def new_RIBScheduler_def)
qed

end
