(* ===== verification/Dispatch.thy ===== *)
theory Dispatch
  imports Scheduler
begin

text \<open>
  The dispatch loop of the main thread (\<^verbatim>\<open>RIBScheduler::GetNextTask\<close>), the creation of tasks
  (\<^verbatim>\<open>CreateInteractiveTask\<close>, \<^verbatim>\<open>CreateBatchTask\<close>, \<^verbatim>\<open>CreateRealTimeTask\<close>), their end, and the context
  switch (\<^verbatim>\<open>SwapOut\<close>, \<^verbatim>\<open>Yield\<close>, \<^verbatim>\<open>Exit\<close>).
\<close>

section \<open>The dispatch loop\<close>

text \<open>Everything an iteration takes from outside: the readings of the clock, in the places the
  code reads it, what other threads do while the main thread waits, and random numbers. A
  reading that a branch does not take is ignored. In the inner loops one element serves one
  iteration; running out of them means that the loop is still going.\<close>

record inner_in =
  test_now :: TimePoint
  loop_now :: TimePoint
  unlock_env :: "sched \<Rightarrow> sched"
  start_now :: TimePoint
  wait_env :: "sched \<Rightarrow> sched"

record iter_in =
  act_now :: TimePoint
  act_env :: "sched \<Rightarrow> sched"
  spin_nows :: "TimePoint list"
  cur_now :: TimePoint
  inner_ins :: "inner_in list"
  cycle_rnd :: nat
  cycle_now :: TimePoint

definition END_OF_RT_SLOT_SPIN_MAX :: Duration where
  "END_OF_RT_SLOT_SPIN_MAX = 200000"

fun spin_until :: "TimePoint list \<Rightarrow> TimePoint \<Rightarrow> Duration \<Rightarrow> unit outcome" where
  "spin_until [] start ceTime = Blocked"
| "spin_until (n # ns) start ceTime = (if n - start < ceTime then spin_until ns start ceTime else Ok ())"

text \<open>The accounting for the task that just ran; the flag in the result says that the null task is
  returned at once.\<close>

definition account_active :: "iter_in \<Rightarrow> sched \<Rightarrow> (bool \<times> sched) outcome" where
  "account_active i w =
     (case active w of
        None \<Rightarrow> Ok (False, w)
      | Some t \<Rightarrow>
          (case taskType (heap w t) of
             BATCH_TASK_T \<Rightarrow> Ok (False, w\<lparr>vClockB := vClockB w + (act_now i - taskStartTime w)\<rparr>)
           | REAL_TIME_TASK_T \<Rightarrow>
               (if idxRealTimeTask w \<ge> length (currentSchedule w) then Fault OutOfBounds
                else
                  (let e = eTime (currentSchedule w ! idxRealTimeTask w);
                       w1 = (if e > END_OF_RT_SLOT_SPIN_MAX then interfere (act_env i) w else w)
                   in if e > END_OF_RT_SLOT_SPIN_MAX \<and> \<not> toContinue w1 then Ok (True, w1)
                      else obind (spin_until (spin_nows i) (cycleStartTime w1) e)
                             (\<lambda>_. Ok (False, w1\<lparr>idxRealTimeTask := idxRealTimeTask w1 + 1\<rparr>))))
           | INTERACTIVE_TASK_T \<Rightarrow>
               (let tDelta = act_now i - taskStartTime w in
                Ok (True, upd_task t (burst_update (\<lambda>b. b - tDelta)) (w\<lparr>vClockI := vClockI w + tDelta\<rparr>)))))"

text \<open>A section of the loop body returns a result of the whole function, or goes on.\<close>

type_synonym section_result = "(tid option option \<times> sched) outcome"

fun slot_loop :: "(tid list \<Rightarrow> nat) \<Rightarrow> inner_in list \<Rightarrow> sched \<Rightarrow> section_result" where
  "slot_loop tie ins w =
     (if \<not> toContinue w then Ok (None, w)
      else case ins of
        [] \<Rightarrow> Blocked
      | i # ins' \<Rightarrow>
          (if test_now i - cycleStartTime w
              \<le> eTime (currentSchedule w ! idxRealTimeTask w) - END_OF_RT_SLOT_SPIN_MAX
           then obind (GetAnInteractiveBatchTask tie (unlock_env i) (start_now i)
                         (w\<lparr>currentTime := loop_now i\<rparr>))
             (\<lambda>(r, w1). case r of
                Some t \<Rightarrow> Ok (Some (Some t), w1)
              | None \<Rightarrow>
                  (let w2 = interfere (wait_env i) w1 in
                   if \<not> toContinue w2 then Ok (Some None, w2) else slot_loop tie ins' w2))
           else Ok (None, w)))"

declare slot_loop.simps [simp del]

definition slot_section :: "(tid list \<Rightarrow> nat) \<Rightarrow> iter_in \<Rightarrow> sched \<Rightarrow> section_result" where
  "slot_section tie i w =
     (let w1 = w\<lparr>currentTime := cur_now i\<rparr>;
          s = currentSchedule w1 ! idxRealTimeTask w1;
          rel = currentTime w1 - cycleStartTime w1
      in if sTime s \<le> rel \<and> rel \<le> eTime s then
           (if taskId s \<noteq> 0 \<and> rt_matching (heap w1) (taskId s) (rtRegisterTable w1) \<noteq> [] then
              (let t = rt_find tie (heap w1) (taskId s) (rtRegisterTable w1) in
               Ok (Some (Some t),
                   w1\<lparr>rtRegisterTable := remove1 t (rtRegisterTable w1),
                      jitters := jitters w1 @ [rel - sTime s]\<rparr>))
            else slot_loop tie (inner_ins i) w1)
         else Ok (None, w1\<lparr>idxRealTimeTask := idxRealTimeTask w1 + 1\<rparr>))"

text \<open>Without a schedule, only interactive and batch tasks run. The loop does not look at
  \<^verbatim>\<open>toContinue\<close>.\<close>

fun idle_loop :: "(tid list \<Rightarrow> nat) \<Rightarrow> inner_in list \<Rightarrow> sched \<Rightarrow> section_result" where
  "idle_loop tie ins w =
     (if rtScheduleGreedy w = [] \<and> rtScheduleNormal w = [] then
        (case ins of
           [] \<Rightarrow> Blocked
         | i # ins' \<Rightarrow>
             obind (GetAnInteractiveBatchTask tie (unlock_env i) (start_now i) w)
               (\<lambda>(r, w1). case r of
                  Some t \<Rightarrow> Ok (Some (Some t), w1)
                | None \<Rightarrow> idle_loop tie ins' (interfere (wait_env i) w1)))
      else Ok (None, w))"

declare idle_loop.simps [simp del]

text \<open>Which sort the decider uses does not matter, as long as it sorts by arrival; the stable one
  stands for all of them here.\<close>

definition choose_schedule :: "nat \<Rightarrow> sched \<Rightarrow> sched" where
  "choose_schedule rnd w =
     (if rtScheduleNormal w = [] then w\<lparr>currentSchedule := rtScheduleGreedy w\<rparr>
      else if rtScheduleGreedy w = [] then w\<lparr>currentSchedule := rtScheduleNormal w\<rparr>
      else
        (let (useNormal, d) = DecideNextScheduleToRun ref_sort rnd (decider w) in
         w\<lparr>currentSchedule := (if useNormal then rtScheduleNormal w else rtScheduleGreedy w), decider := d\<rparr>))"

definition cycle_section :: "(tid list \<Rightarrow> nat) \<Rightarrow> iter_in \<Rightarrow> sched \<Rightarrow> section_result" where
  "cycle_section tie i w =
     obind (idle_loop tie (inner_ins i) w)
       (\<lambda>(r, w1). case r of
          Some res \<Rightarrow> Ok (Some res, w1)
        | None \<Rightarrow>
            (let w2 = choose_schedule (cycle_rnd i) w1 in
             Ok (None, w2\<lparr>numberOfPeriods := numberOfPeriods w2 + 1, idxRealTimeTask := 0,
                         cycleStartTime := cycle_now i\<rparr>)))"

fun GetNextTask :: "(tid list \<Rightarrow> nat) \<Rightarrow> iter_in list \<Rightarrow> sched \<Rightarrow> (tid option \<times> sched) outcome" where
  "GetNextTask tie ins w =
     (if \<not> toContinue w then Ok (None, w)
      else case ins of
        [] \<Rightarrow> Blocked
      | i # ins' \<Rightarrow>
          obind (account_active i w)
            (\<lambda>(ret, w1).
               if ret then Ok (None, w1)
               else obind (if idxRealTimeTask w1 < length (currentSchedule w1)
                           then slot_section tie i w1 else cycle_section tie i w1)
                      (\<lambda>(r, w2). case r of Some res \<Rightarrow> Ok (res, w2) | None \<Rightarrow> GetNextTask tie ins' w2)))"

declare GetNextTask.simps [simp del]

section \<open>Creating tasks\<close>

text \<open>The address \<open>t\<close> of the new object is chosen by the allocator. The stack flavour follows the
  traits; every factory sets the type right after construction.\<close>

definition new_task :: "TaskType \<Rightarrow> StackTraits \<Rightarrow> TaskInterface" where
  "new_task ty st =
     new_TaskInterface ty (if useSharedStack st then SharedCopyStack else StandAloneStack) RIBPtr"

definition CreateInteractiveTask ::
  "tid \<Rightarrow> StackTraits \<Rightarrow> Duration \<Rightarrow> Duration \<Rightarrow> TimePoint \<Rightarrow> sched \<Rightarrow> sched" where
  "CreateInteractiveTask t st dl bu now w =
     (let x = (new_task INTERACTIVE_TASK_T st)\<lparr>burst := bu, deadline := dl, isStealable := canSteal st\<rparr>;
          w1 = upd_task t (\<lambda>_. x) w;
          w2 = w1\<lparr>decider := RecordInteractiveJobArrival (numberOfPeriods w1) (cycleStartTime w1) now
                               (us_count dl) (us_count bu) (decider w1)\<rparr>
      in w2\<lparr>iEDFPriorityQueue := iEDFPriorityQueue w2 @ [t]\<rparr>)"

text \<open>The thief for a stealable batch task: the pinned one if it exists; otherwise the least loaded
  one if it is idle, else the creator's own thief, else a random one. \<open>cur\<close> is the task that
  runs on the calling thread.\<close>

definition choose_thief :: "tid option \<Rightarrow> nat \<Rightarrow> StackTraits \<Rightarrow> sched \<Rightarrow> SchedulerPtr outcome" where
  "choose_thief cur rnd st w =
     (if pinCore st > -1 \<and> pinCore st < int (length (thiefs w)) then Ok (ThiefPtr (nat (pinCore st)))
      else
        (let m = GetMinThief w;
             random_one = (if thiefs w = [] then Fault DivByZero
                           else Ok (ThiefPtr (rnd mod length (thiefs w))));
             fallback = (case m of
                 None \<Rightarrow> random_one
               | Some i \<Rightarrow> if Size (thiefs w ! i) > 0 then random_one else Ok (ThiefPtr i))
         in case cur of
              None \<Rightarrow> fallback
            | Some c \<Rightarrow>
                (if scheduler (heap w c) \<noteq> RIBPtr then
                   (case m of
                      None \<Rightarrow> Fault NullDeref
                    | Some i \<Rightarrow> if Size (thiefs w ! i) > 0 then Ok (scheduler (heap w c)) else fallback)
                 else fallback)))"

definition CreateBatchTask ::
  "tid \<Rightarrow> tid option \<Rightarrow> nat \<Rightarrow> StackTraits \<Rightarrow> Duration \<Rightarrow> sched \<Rightarrow> sched outcome" where
  "CreateBatchTask t cur rnd st bu w =
     (let x = (new_task BATCH_TASK_T st)\<lparr>burst := bu, isStealable := canSteal st\<rparr>;
          w1 = upd_task t (\<lambda>_. x) w
      in if canSteal st then
           obind (choose_thief cur rnd st w1)
             (\<lambda>p. let w2 = upd_task t (Steal p) w1 in
                  if launchImmediately st then task_EnableImmediately False t w2
                  else task_Enable False t w2)
         else Ok (w1\<lparr>bQueue := bQueue w1 @ [t]\<rparr>))"

definition CreateRealTimeTask :: "tid \<Rightarrow> StackTraits \<Rightarrow> u32 \<Rightarrow> sched \<Rightarrow> sched" where
  "CreateRealTimeTask t st k w =
     (let x = (new_task REAL_TIME_TASK_T st)\<lparr>task_id := k, isStealable := False\<rparr>;
          w1 = upd_task t (\<lambda>_. x) w
      in w1\<lparr>rtRegisterTable := rtRegisterTable w1 @ [t]\<rparr>)"

section \<open>The end of a task and the context switch\<close>

definition rib_EndTask :: "tid option \<Rightarrow> sched \<Rightarrow> sched" where
  "rib_EndTask p w = (case p of
      None \<Rightarrow> w
    | Some t \<Rightarrow>
        (case taskType (heap w t) of
           REAL_TIME_TASK_T \<Rightarrow> delete_task t w
         | BATCH_TASK_T \<Rightarrow> if status (heap w t) = TASK_FINISHED then delete_task t w else w
         | INTERACTIVE_TASK_T \<Rightarrow> if status (heap w t) = TASK_FINISHED then delete_task t w else w))"

definition CleanupPreviousTask :: "sched \<Rightarrow> sched" where
  "CleanupPreviousTask w = (case active w of
      None \<Rightarrow> w
    | Some t \<Rightarrow> (case scheduler (heap w t) of
         RIBPtr \<Rightarrow> rib_EndTask (Some t) w | ThiefPtr i \<Rightarrow> thief_EndTask t w))"

text \<open>\<^verbatim>\<open>SwapOut\<close> of the running task on the main thread: the next task (or the main loop) first cleans
  up after the previous one and then becomes the current task.\<close>

definition switch_to :: "tid option \<Rightarrow> sched \<Rightarrow> sched" where
  "switch_to next w =
     (if next = active w then w else (CleanupPreviousTask w)\<lparr>active := next\<rparr>)"

definition SwapOut :: "(tid list \<Rightarrow> nat) \<Rightarrow> iter_in list \<Rightarrow> sched \<Rightarrow> sched outcome" where
  "SwapOut tie ins w = obind (GetNextTask tie ins w) (\<lambda>(next, w1). Ok (switch_to next w1))"

definition Yield :: "(tid list \<Rightarrow> nat) \<Rightarrow> iter_in list \<Rightarrow> sched \<Rightarrow> sched outcome" where
  "Yield tie ins w = (case active w of
      None \<Rightarrow> Ok w
    | Some t \<Rightarrow>
        (if status (heap w t) \<noteq> TASK_FINISHED
         then obind (task_Enable False t w) (SwapOut tie ins) else Ok w))"

definition Exit :: "(tid list \<Rightarrow> nat) \<Rightarrow> iter_in list \<Rightarrow> sched \<Rightarrow> sched outcome" where
  "Exit tie ins w = (case active w of
      None \<Rightarrow> Ok w
    | Some t \<Rightarrow>
        obind (Notify False t (upd_task t (status_update (\<lambda>_. TASK_FINISHED)) w)) (SwapOut tie ins))"

text \<open>One round of \<^verbatim>\<open>RunSchedulerMainLoop\<close>, entered with no current task: fetch a task and switch to
  it.\<close>

definition main_loop_round :: "(tid list \<Rightarrow> nat) \<Rightarrow> iter_in list \<Rightarrow> sched \<Rightarrow> sched outcome" where
  "main_loop_round tie ins w = SwapOut tie ins w"

section \<open>What the main thread keeps to itself\<close>

definition same_private :: "sched \<Rightarrow> sched \<Rightarrow> bool" where
  "same_private w w' \<longleftrightarrow> currentSchedule w' = currentSchedule w \<and> idxRealTimeTask w' = idxRealTimeTask w \<and>
     cycleStartTime w' = cycleStartTime w \<and> active w' = active w \<and> jitters w' = jitters w \<and>
     currentTime w' = currentTime w \<and> vClockI w' = vClockI w \<and> vClockB w' = vClockB w \<and>
     schedulerStartTime w' = schedulerStartTime w"

lemma same_private_refl [simp]: "same_private w w"
  by (simp add: same_private_def)

lemma same_private_trans: "same_private u v \<Longrightarrow> same_private v w \<Longrightarrow> same_private u w"
  by (simp add: same_private_def)

lemma same_private_interfere [simp]: "same_private w (interfere env w)"
  by (simp add: same_private_def)

lemma same_private_more: "thief_pool.more w' = thief_pool.more w \<Longrightarrow> same_private w w'"
  unfolding same_private_def by (intro conjI sched_more_eq)

lemma same_private_trim: "trim_cancel w = Ok w' \<Longrightarrow> same_private w w'"
  using same_private_more [OF trim_cancel_spec(5)] by (simp add: same_private_def)

lemma same_private_pick: "pick_interactive tie now w = (r, w') \<Longrightarrow> same_private w w'"
  by (erule pick_interactive_cases) (simp_all add: same_private_def)

lemma same_private_GetAnIB:
  assumes "GetAnInteractiveBatchTask tie env now w = Ok (r, w')"
  shows "same_private w w'"
proof (cases "ib_decide w")
  case DecideInteractive
  obtain ss cs e where ex: "expire_loop tie [] w =
      (ss, w\<lparr>iEDFPriorityQueue := e, iCancelStack := rev cs @ iCancelStack w\<rparr>)"
    using expire_loop_spec [of tie "[]" w] by auto
  from assms DecideInteractive ex obtain w2 w3 where
    g: "each give_to_thief ss (w\<lparr>iEDFPriorityQueue := e, iCancelStack := rev cs @ iCancelStack w\<rparr>) = Ok w2"
    and tr: "trim_cancel (interfere env w2) = Ok w3" and p: "pick_interactive tie now w3 = (r, w')"
    by (auto simp: GetAnInteractiveBatchTask_def)
  have "same_private w w2"
    using same_private_more [OF give_each_more [OF g]] by (simp add: same_private_def)
  then show ?thesis using same_private_trim [OF tr] same_private_pick [OF p]
    by (meson same_private_interfere same_private_trans)
qed (use assms in \<open>auto simp: GetAnInteractiveBatchTask_def pick_batch_def same_private_def split: list.splits\<close>)

section \<open>Who is dispatched, and when\<close>

abbreviation slot_of :: "sched \<Rightarrow> RealTimeSchedule" where
  "slot_of w \<equiv> currentSchedule w ! idxRealTimeTask w"

text \<open>A real-time task is dispatched within its slot, with the slot's identifier, and the delay
  since the start of the slot is recorded.\<close>

definition rt_dispatch :: "tid \<Rightarrow> sched \<Rightarrow> bool" where
  "rt_dispatch t w \<longleftrightarrow> idxRealTimeTask w < length (currentSchedule w) \<and>
     taskId (slot_of w) \<noteq> 0 \<and> task_id (heap w t) = taskId (slot_of w) \<and>
     sTime (slot_of w) \<le> currentTime w - cycleStartTime w \<and>
     currentTime w - cycleStartTime w \<le> eTime (slot_of w) \<and>
     jitters w \<noteq> [] \<and> last (jitters w) = currentTime w - cycleStartTime w - sTime (slot_of w)"

text \<open>Any other task is chosen by \<^verbatim>\<open>GetAnInteractiveBatchTask\<close> in a state \<open>u\<close> that has no schedule, or
  whose current slot still has more than the spinning time left at the moment of the test.\<close>

definition ib_dispatch :: "(tid list \<Rightarrow> nat) \<Rightarrow> iter_in list \<Rightarrow> tid \<Rightarrow> sched \<Rightarrow> bool" where
  "ib_dispatch tie ins t w \<longleftrightarrow> (\<exists>u. \<exists>i \<in> set ins. \<exists>j \<in> set (inner_ins i).
     GetAnInteractiveBatchTask tie (unlock_env j) (start_now j) u = Ok (Some t, w) \<and>
     (rtScheduleGreedy u = [] \<and> rtScheduleNormal u = [] \<or>
      idxRealTimeTask u < length (currentSchedule u) \<and> currentTime u = loop_now j \<and>
      test_now j - cycleStartTime u \<le> eTime (slot_of u) - END_OF_RT_SLOT_SPIN_MAX))"

lemma slot_loop_Some:
  "slot_loop tie ins w = Ok (Some (Some t), w') \<Longrightarrow> idxRealTimeTask w < length (currentSchedule w) \<Longrightarrow>
   \<exists>u. \<exists>j \<in> set ins. GetAnInteractiveBatchTask tie (unlock_env j) (start_now j) u = Ok (Some t, w') \<and>
      idxRealTimeTask u < length (currentSchedule u) \<and> currentTime u = loop_now j \<and>
      test_now j - cycleStartTime u \<le> eTime (slot_of u) - END_OF_RT_SLOT_SPIN_MAX"
proof (induction ins arbitrary: w)
  case Nil
  then show ?case by (subst (asm) slot_loop.simps) (simp split: if_splits)
next
  case (Cons j ins)
  let ?u = "w\<lparr>currentTime := loop_now j\<rparr>"
  from Cons.prems(1) obtain r w1 where
    test: "test_now j - cycleStartTime w \<le> eTime (slot_of w) - END_OF_RT_SLOT_SPIN_MAX"
    and g: "GetAnInteractiveBatchTask tie (unlock_env j) (start_now j) ?u = Ok (r, w1)"
    and rest: "(case r of Some t \<Rightarrow> Ok (Some (Some t), w1)
       | None \<Rightarrow> (let w2 = interfere (wait_env j) w1 in
           if \<not> toContinue w2 then Ok (Some None, w2) else slot_loop tie ins w2)) = Ok (Some (Some t), w')"
    by (subst (asm) slot_loop.simps) (auto split: if_splits)
  show ?case
  proof (cases r)
    case (Some t')
    then have "GetAnInteractiveBatchTask tie (unlock_env j) (start_now j) ?u = Ok (Some t, w')"
      using g rest by simp
    moreover have "idxRealTimeTask ?u < length (currentSchedule ?u)" "currentTime ?u = loop_now j"
      "test_now j - cycleStartTime ?u \<le> eTime (slot_of ?u) - END_OF_RT_SLOT_SPIN_MAX"
      using test Cons.prems(2) by simp_all
    ultimately show ?thesis by (meson list.set_intros(1))
  next
    case None
    let ?w2 = "interfere (wait_env j) w1"
    have "slot_loop tie ins ?w2 = Ok (Some (Some t), w')"
      using rest None by (auto simp: Let_def split: if_splits)
    moreover have "idxRealTimeTask ?w2 < length (currentSchedule ?w2)"
      using same_private_GetAnIB [OF g] Cons.prems(2) by (simp add: same_private_def)
    ultimately show ?thesis using Cons.IH [of ?w2] by (meson list.set_intros(2))
  qed
qed

lemma idle_loop_Some:
  "idle_loop tie ins w = Ok (Some r, w') \<Longrightarrow>
   \<exists>u t. r = Some t \<and> (\<exists>j \<in> set ins. GetAnInteractiveBatchTask tie (unlock_env j) (start_now j) u = Ok (Some t, w') \<and>
      rtScheduleGreedy u = [] \<and> rtScheduleNormal u = [])"
proof (induction ins arbitrary: w)
  case Nil
  then show ?case by (subst (asm) idle_loop.simps) (simp split: if_splits)
next
  case (Cons j ins)
  from Cons.prems obtain q w1 where e: "rtScheduleGreedy w = []" "rtScheduleNormal w = []"
    and g: "GetAnInteractiveBatchTask tie (unlock_env j) (start_now j) w = Ok (q, w1)"
    and rest: "(case q of Some t \<Rightarrow> Ok (Some (Some t), w1)
       | None \<Rightarrow> idle_loop tie ins (interfere (wait_env j) w1)) = Ok (Some r, w')"
    by (subst (asm) idle_loop.simps) (auto split: if_splits)
  show ?case
  proof (cases q)
    case (Some t')
    then show ?thesis using e g rest by auto
  next
    case None
    then show ?thesis using Cons.IH [of "interfere (wait_env j) w1"] rest by (auto intro: list.set_intros(2))
  qed
qed

lemma GetNextTask_cases:
  assumes "GetNextTask tie ins w = Ok (r, w')"
  obtains (stopped) "\<not> toContinue w" "r = None" "w' = w"
  | (accounted) i ins' where "ins = i # ins'" "account_active i w = Ok (True, w')" "r = None"
  | (slot) i ins' w1 where "ins = i # ins'" "account_active i w = Ok (False, w1)"
      "idxRealTimeTask w1 < length (currentSchedule w1)" "slot_section tie i w1 = Ok (Some r, w')"
  | (idle) i ins' w1 where "ins = i # ins'" "account_active i w = Ok (False, w1)"
      "\<not> idxRealTimeTask w1 < length (currentSchedule w1)" "cycle_section tie i w1 = Ok (Some r, w')"
  | (next_slot) i ins' w1 w2 where "ins = i # ins'" "account_active i w = Ok (False, w1)"
      "idxRealTimeTask w1 < length (currentSchedule w1)" "slot_section tie i w1 = Ok (None, w2)"
      "GetNextTask tie ins' w2 = Ok (r, w')"
  | (next_cycle) i ins' w1 w2 where "ins = i # ins'" "account_active i w = Ok (False, w1)"
      "\<not> idxRealTimeTask w1 < length (currentSchedule w1)" "cycle_section tie i w1 = Ok (None, w2)"
      "GetNextTask tie ins' w2 = Ok (r, w')"
proof (cases "toContinue w \<and> ins \<noteq> []")
  case False
  then show ?thesis using assms stopped by (subst (asm) GetNextTask.simps) (auto split: if_splits list.splits)
next
  case True
  then obtain i ins' where ins: "ins = i # ins'" by (cases ins) auto
  obtain ret w1 where a: "account_active i w = Ok (ret, w1)"
    using assms True ins by (subst (asm) GetNextTask.simps) auto
  show ?thesis
  proof (cases ret)
    case True
    then show ?thesis using assms \<open>toContinue w \<and> ins \<noteq> []\<close> ins a accounted
      by (subst (asm) GetNextTask.simps) auto
  next
    case False
    let ?sec = "if idxRealTimeTask w1 < length (currentSchedule w1) then slot_section tie i w1
      else cycle_section tie i w1"
    from False obtain q w2 where q: "?sec = Ok (q, w2)"
      "(case q of Some res \<Rightarrow> Ok (res, w2) | None \<Rightarrow> GetNextTask tie ins' w2) = Ok (r, w')"
      using assms True ins a by (subst (asm) GetNextTask.simps) auto
    show ?thesis using q a False ins slot idle next_slot next_cycle
      by (cases q; cases "idxRealTimeTask w1 < length (currentSchedule w1)") auto
  qed
qed

lemma slot_section_Some:
  assumes "slot_section tie i w = Ok (Some (Some t), w')" "idxRealTimeTask w < length (currentSchedule w)"
  shows "rt_dispatch t w' \<or> (\<exists>u. \<exists>j \<in> set (inner_ins i).
      GetAnInteractiveBatchTask tie (unlock_env j) (start_now j) u = Ok (Some t, w') \<and>
      idxRealTimeTask u < length (currentSchedule u) \<and> currentTime u = loop_now j \<and>
      test_now j - cycleStartTime u \<le> eTime (slot_of u) - END_OF_RT_SLOT_SPIN_MAX)"
proof -
  let ?w1 = "w\<lparr>currentTime := cur_now i\<rparr>"
  let ?rel = "cur_now i - cycleStartTime w" let ?s = "slot_of w"
  show ?thesis
  proof (cases "taskId ?s \<noteq> 0 \<and> rt_matching (heap w) (taskId ?s) (rtRegisterTable w) \<noteq> []")
    case True
    then have "rt_dispatch t w'"
      using assms rt_find_mem [of "heap w" "taskId ?s" "rtRegisterTable w" tie]
      by (auto simp: slot_section_def Let_def rt_dispatch_def split: if_splits)
    then show ?thesis ..
  next
    case False
    then have "slot_loop tie (inner_ins i) ?w1 = Ok (Some (Some t), w')"
      using assms(1) by (auto simp: slot_section_def Let_def split: if_splits)
    then show ?thesis using slot_loop_Some [of tie "inner_ins i" ?w1 t w'] assms(2) by auto
  qed
qed

text \<open>C3. Every task the main thread starts is either the real-time task registered for the current
  slot, started inside the slot with its delay recorded, or a task chosen for the sporadic
  server: while no schedule is set, or in a slot that still has more than the spinning time
  left. This holds for all clock readings and all interference by other threads.\<close>

theorem GetNextTask_dispatch:
  assumes "GetNextTask tie ins w = Ok (Some t, w')"
  shows "rt_dispatch t w' \<or> ib_dispatch tie ins t w'"
  using assms
proof (induction ins arbitrary: w)
  case Nil
  then show ?case by (subst (asm) GetNextTask.simps) (simp split: if_splits)
next
  case (Cons i ins)
  from Cons.prems show ?case
  proof (cases rule: GetNextTask_cases)
    case (slot i' ins' w1)
    then show ?thesis using slot_section_Some [of tie i w1 t w'] by (fastforce simp: ib_dispatch_def)
  next
    case (idle i' ins' w1)
    then have "idle_loop tie (inner_ins i) w1 = Ok (Some (Some t), w')"
      by (auto simp: cycle_section_def Let_def split: option.splits)
    from idle_loop_Some [OF this] show ?thesis by (fastforce simp: ib_dispatch_def)
  next
    case (next_slot i' ins' w1 w2)
    then have "rt_dispatch t w' \<or> ib_dispatch tie ins t w'" using Cons.IH by auto
    then show ?thesis by (auto simp: ib_dispatch_def)
  next
    case (next_cycle i' ins' w1 w2)
    then have "rt_dispatch t w' \<or> ib_dispatch tie ins t w'" using Cons.IH by auto
    then show ?thesis by (auto simp: ib_dispatch_def)
  qed auto
qed

text \<open>A schedule of two slots of 0.1 ms, the first for the real-time tasks with identifier 7; one
  such task is registered, and it is also the task that just ran when \<open>a\<close> is the current task.\<close>

definition demo_slots :: "RealTimeSchedule list" where
  "demo_slots = [\<lparr>sTime = 0, eTime = 100000, taskId = 7\<rparr>, \<lparr>sTime = 100000, eTime = 200000, taskId = 0\<rparr>]"

definition demo_rt :: "tid option \<Rightarrow> sched" where
  "demo_rt a = (new_RIBScheduler 1 0 (\<lambda>_. (new_TaskInterface REAL_TIME_TASK_T SharedCopyStack RIBPtr)
       \<lparr>task_id := 7, isStealable := False\<rparr>))
     \<lparr>rtScheduleNormal := demo_slots, rtScheduleGreedy := demo_slots, currentSchedule := demo_slots,
      rtRegisterTable := [1], active := a\<rparr>"

definition demo_iter :: "TimePoint \<Rightarrow> TimePoint \<Rightarrow> iter_in" where
  "demo_iter spin now = \<lparr>act_now = now, act_env = (\<lambda>w. w), spin_nows = [spin], cur_now = now,
     inner_ins = [], cycle_rnd = 0, cycle_now = now\<rparr>"

lemmas demo_rt_simps = demo_rt_def demo_slots_def demo_iter_def new_RIBScheduler_def new_TaskInterface_def

theorem GetNextTask_dispatch_witness:
  "\<exists>w'. GetNextTask (\<lambda>_. 0) [demo_iter 0 500] (demo_rt None) = Ok (Some 1, w') \<and>
     last (jitters w') = 500"
proof -
  have "(case GetNextTask (\<lambda>_. 0) [demo_iter 0 500] (demo_rt None) of
      Ok (r, w') \<Rightarrow> Some (r, jitters w', iCancelStack w') | _ \<Rightarrow> None) = Some (Some 1, [500], [])"
    by code_simp
  then obtain w' where w': "GetNextTask (\<lambda>_. 0) [demo_iter 0 500] (demo_rt None) = Ok (Some 1, w')"
    "jitters w' = [500]" by (auto split: outcome.splits prod.splits)
  from GetNextTask_dispatch [OF w'(1)] w' show ?thesis by auto
qed

section \<open>The end of a slot\<close>

lemma account_active_private:
  "account_active i w = Ok (ret, w1) \<Longrightarrow> active w1 = active w"
  by (auto simp: account_active_def Let_def split: option.splits TaskType.splits if_splits)

lemma account_active_RT:
  assumes "account_active i w = Ok (False, w1)" "active w = Some t" "taskType (heap w t) = REAL_TIME_TASK_T"
  shows "idxRealTimeTask w1 = Suc (idxRealTimeTask w)" "heap w1 = heap w \<or> heap w1 = heap (act_env i w)"
  using assms by (auto simp: account_active_def Let_def split: if_splits)

definition same_frame :: "sched \<Rightarrow> sched \<Rightarrow> bool" where
  "same_frame w w' \<longleftrightarrow> idxRealTimeTask w' = idxRealTimeTask w \<and> active w' = active w \<and>
     currentSchedule w' = currentSchedule w"

lemma same_frame_refl [simp]: "same_frame w w"
  by (simp add: same_frame_def)

lemma slot_loop_private: "slot_loop tie ins w = Ok (r, w') \<Longrightarrow> same_frame w w'"
proof (induction ins arbitrary: w)
  case Nil
  then show ?case by (subst (asm) slot_loop.simps) (simp split: if_splits)
next
  case (Cons j ins)
  have p: "same_frame w w1 \<and> same_frame w (interfere (wait_env j) w1)"
    if "GetAnInteractiveBatchTask tie (unlock_env j) (start_now j) (w\<lparr>currentTime := loop_now j\<rparr>) = Ok (q, w1)" for q w1
    using same_private_GetAnIB [OF that] by (simp add: same_private_def same_frame_def)
  have ih: "same_frame w w'"
    if "slot_loop tie ins u = Ok (r, w')" "same_frame w u" for u
    using Cons.IH [OF that(1)] that(2) by (simp add: same_frame_def)
  show ?case using Cons.prems
    by (subst (asm) slot_loop.simps) (auto simp: Let_def split: if_splits option.splits dest: p ih)
qed

lemma idle_loop_private: "idle_loop tie ins w = Ok (r, w') \<Longrightarrow> same_frame w w'"
proof (induction ins arbitrary: w)
  case Nil
  then show ?case by (subst (asm) idle_loop.simps) (simp split: if_splits)
next
  case (Cons j ins)
  have p: "same_frame w w1 \<and> same_frame w (interfere (wait_env j) w1)"
    if "GetAnInteractiveBatchTask tie (unlock_env j) (start_now j) w = Ok (q, w1)" for q w1
    using same_private_GetAnIB [OF that] by (simp add: same_private_def same_frame_def)
  have ih: "same_frame w w'"
    if "idle_loop tie ins u = Ok (r, w')" "same_frame w u" for u
    using Cons.IH [OF that(1)] that(2) by (simp add: same_frame_def)
  show ?case using Cons.prems
    by (subst (asm) idle_loop.simps) (auto simp: Let_def split: if_splits option.splits dest: p ih)
qed

lemma choose_schedule_private:
  "active (choose_schedule rnd w) = active w" "heap (choose_schedule rnd w) = heap w"
  "toContinue (choose_schedule rnd w) = toContinue w"
  by (simp_all add: choose_schedule_def split: prod.split)

lemma slot_section_private:
  assumes "slot_section tie i w = Ok (q, w')"
  shows "active w' = active w" "q = Some r \<Longrightarrow> idxRealTimeTask w' = idxRealTimeTask w"
  using assms by (auto simp: slot_section_def Let_def same_frame_def split: if_splits dest!: slot_loop_private)

lemma cycle_section_private:
  assumes "cycle_section tie i w = Ok (q, w')"
  shows "active w' = active w" "q = Some r \<Longrightarrow> idxRealTimeTask w' = idxRealTimeTask w"
proof -
  obtain p w1 where "idle_loop tie (inner_ins i) w = Ok (p, w1)"
    and "(case p of Some res \<Rightarrow> Ok (Some res, w1)
        | None \<Rightarrow> (let w2 = choose_schedule (cycle_rnd i) w1 in
            Ok (None, w2\<lparr>numberOfPeriods := numberOfPeriods w2 + 1, idxRealTimeTask := 0,
              cycleStartTime := cycle_now i\<rparr>))) = Ok (q, w')"
    using assms by (auto simp: cycle_section_def)
  then show "active w' = active w" "q = Some r \<Longrightarrow> idxRealTimeTask w' = idxRealTimeTask w"
    by (auto simp: Let_def choose_schedule_private same_frame_def split: option.splits dest!: idle_loop_private)
qed

text \<open>Other threads do not change the type of a task.\<close>

definition keeps_type :: "tid \<Rightarrow> (sched \<Rightarrow> sched) \<Rightarrow> bool" where
  "keeps_type t f \<longleftrightarrow> (\<forall>w. taskType (heap (f w) t) = taskType (heap w t))"

definition calm :: "tid \<Rightarrow> iter_in list \<Rightarrow> bool" where
  "calm t ins \<longleftrightarrow> (\<forall>i \<in> set ins. keeps_type t (act_env i) \<and>
     (\<forall>j \<in> set (inner_ins i). keeps_type t (unlock_env j) \<and> keeps_type t (wait_env j)))"

lemma GetAnIB_type:
  assumes "GetAnInteractiveBatchTask tie env now w = Ok (r, w')" "keeps_type t env"
  shows "taskType (heap w' t) = taskType (heap w t)"
proof (cases "ib_decide w")
  case DecideInteractive
  obtain ss cs e where ex: "expire_loop tie [] w =
      (ss, w\<lparr>iEDFPriorityQueue := e, iCancelStack := rev cs @ iCancelStack w\<rparr>)"
    using expire_loop_spec [of tie "[]" w] by auto
  from assms DecideInteractive ex obtain w2 w3 where
    g: "each give_to_thief ss (w\<lparr>iEDFPriorityQueue := e, iCancelStack := rev cs @ iCancelStack w\<rparr>) = Ok w2"
    and tr: "trim_cancel (interfere env w2) = Ok w3" and p: "pick_interactive tie now w3 = (r, w')"
    by (auto simp: GetAnInteractiveBatchTask_def)
  have "heap w' = heap w3" using p by (rule pick_interactive_cases) simp_all
  then show ?thesis using give_each_prio [OF g] trim_cancel_prio [OF tr] assms(2)
    by (simp add: keeps_prio_def keeps_type_def)
qed (use assms in \<open>auto simp: GetAnInteractiveBatchTask_def pick_batch_def split: list.splits\<close>)

lemma slot_loop_type:
  "slot_loop tie ins w = Ok (r, w') \<Longrightarrow>
   \<forall>j \<in> set ins. keeps_type t (unlock_env j) \<and> keeps_type t (wait_env j) \<Longrightarrow>
   taskType (heap w' t) = taskType (heap w t)"
proof (induction ins arbitrary: w)
  case Nil
  then show ?case by (subst (asm) slot_loop.simps) (simp split: if_splits)
next
  case (Cons j ins)
  let ?u = "w\<lparr>currentTime := loop_now j\<rparr>"
  have ty: "taskType (heap w1 t) = taskType (heap w t) \<and>
      taskType (heap (wait_env j w1) t) = taskType (heap w t)"
    if "GetAnInteractiveBatchTask tie (unlock_env j) (start_now j) ?u = Ok (q, w1)" for q w1
    using GetAnIB_type [OF that] Cons.prems(2) by (simp add: keeps_type_def)
  have ih: "taskType (heap w' t) = taskType (heap u t)" if "slot_loop tie ins u = Ok (r, w')" for u
    using Cons.IH [OF that] Cons.prems(2) by simp
  show ?case using Cons.prems(1)
    by (subst (asm) slot_loop.simps) (auto simp: Let_def split: if_splits option.splits dest!: ih dest: ty)
qed

lemma idle_loop_type:
  "idle_loop tie ins w = Ok (r, w') \<Longrightarrow>
   \<forall>j \<in> set ins. keeps_type t (unlock_env j) \<and> keeps_type t (wait_env j) \<Longrightarrow>
   taskType (heap w' t) = taskType (heap w t)"
proof (induction ins arbitrary: w)
  case Nil
  then show ?case by (subst (asm) idle_loop.simps) (simp split: if_splits)
next
  case (Cons j ins)
  have ty: "taskType (heap w1 t) = taskType (heap w t) \<and>
      taskType (heap (wait_env j w1) t) = taskType (heap w t)"
    if "GetAnInteractiveBatchTask tie (unlock_env j) (start_now j) w = Ok (q, w1)" for q w1
    using GetAnIB_type [OF that] Cons.prems(2) by (simp add: keeps_type_def)
  have ih: "taskType (heap w' t) = taskType (heap u t)" if "idle_loop tie ins u = Ok (r, w')" for u
    using Cons.IH [OF that] Cons.prems(2) by simp
  show ?case using Cons.prems(1)
    by (subst (asm) idle_loop.simps) (auto simp: Let_def split: if_splits option.splits dest!: ih dest: ty)
qed

lemma slot_section_type:
  assumes "calm t (i # ins)" "slot_section tie i w = Ok (q, w')"
  shows "taskType (heap w' t) = taskType (heap w t)"
  using assms by (auto simp: slot_section_def Let_def calm_def split: if_splits dest!: slot_loop_type)

lemma cycle_section_type:
  assumes "calm t (i # ins)" "cycle_section tie i w = Ok (q, w')"
  shows "taskType (heap w' t) = taskType (heap w t)"
proof -
  obtain p w1 where l: "idle_loop tie (inner_ins i) w = Ok (p, w1)" and h: "heap w' = heap w1"
    using assms(2) by (auto simp: cycle_section_def Let_def choose_schedule_private split: option.splits)
  then show ?thesis using idle_loop_type [OF l] assms(1) by (simp add: calm_def)
qed

text \<open>A real-time task that ends costs the first slot of the next cycle. The code that waits for
  the end of the task's slot runs in every iteration of the dispatch loop, so a call made on
  behalf of a real-time task never starts anything in slot 0: when its own slot was the last
  one, the call begins the new cycle and then waits until the end of that cycle's first slot.\<close>

lemma rt_active_skips_first_slot:
  assumes "GetNextTask tie ins w = Ok (Some u, w')"
    and "active w = Some t" "taskType (heap w t) = REAL_TIME_TASK_T" "calm t ins"
  shows "idxRealTimeTask w' \<ge> 1"
  using assms
proof (induction ins arbitrary: w)
  case Nil
  then show ?case by (subst (asm) GetNextTask.simps) (simp split: if_splits)
next
  case (Cons i ins)
  have acc: "idxRealTimeTask w1 = Suc (idxRealTimeTask w) \<and> active w1 = Some t \<and>
      taskType (heap w1 t) = REAL_TIME_TASK_T" if "account_active i w = Ok (False, w1)" for w1
    using account_active_RT [OF that Cons.prems(2,3)] account_active_private [OF that] Cons.prems
    by (auto simp: calm_def keeps_type_def)
  have calm: "calm t ins" using Cons.prems(4) by (simp add: calm_def)
  from Cons.prems(1) show ?case
  proof (cases rule: GetNextTask_cases)
    case (slot i' ins' w1)
    then show ?thesis using acc [of w1] slot_section_private(2) [of tie i w1 _ w'] by auto
  next
    case (idle i' ins' w1)
    then show ?thesis using acc [of w1] cycle_section_private(2) [of tie i w1 _ w'] by auto
  next
    case (next_slot i' ins' w1 w2)
    then show ?thesis using acc [of w1] Cons.IH [of w2] calm slot_section_private(1) [of tie i w1 None w2]
        slot_section_type [OF Cons.prems(4), of tie w1 None w2] by auto
  next
    case (next_cycle i' ins' w1 w2)
    then show ?thesis using acc [of w1] Cons.IH [of w2] calm cycle_section_private(1) [of tie i w1 None w2]
        cycle_section_type [OF Cons.prems(4), of tie w1 None w2] by auto
  qed auto
qed

lemma calm_demo: "calm t [demo_iter a b, demo_iter c d]"
  by (simp add: calm_def keeps_type_def demo_iter_def)

lemma rt_active_skips_first_slot_witness:
  "\<exists>w'. GetNextTask (\<lambda>_. 0) [demo_iter 200000 0, demo_iter 100000 150000]
     ((demo_rt (Some 2))\<lparr>idxRealTimeTask := 1,
        currentSchedule := [\<lparr>sTime = 0, eTime = 100000, taskId = 0\<rparr>, \<lparr>sTime = 100000, eTime = 200000, taskId = 7\<rparr>],
        rtScheduleNormal := [\<lparr>sTime = 0, eTime = 100000, taskId = 0\<rparr>, \<lparr>sTime = 100000, eTime = 200000, taskId = 7\<rparr>]\<rparr>)
     = Ok (Some 1, w') \<and> idxRealTimeTask w' \<ge> 1"
proof -
  let ?s = "[\<lparr>sTime = 0, eTime = 100000, taskId = 0\<rparr>, \<lparr>sTime = 100000, eTime = 200000, taskId = 7\<rparr>]"
  let ?w = "(demo_rt (Some 2))\<lparr>idxRealTimeTask := 1, currentSchedule := ?s, rtScheduleNormal := ?s\<rparr>"
  have "(case GetNextTask (\<lambda>_. 0) [demo_iter 200000 0, demo_iter 100000 150000] ?w of
      Ok (r, w') \<Rightarrow> Some (r, jitters w') | _ \<Rightarrow> None) = Some (Some 1, [50000])"
    by code_simp
  then obtain w' where w': "GetNextTask (\<lambda>_. 0) [demo_iter 200000 0, demo_iter 100000 150000] ?w = Ok (Some 1, w')"
    by (auto split: outcome.splits prod.splits)
  have "active ?w = Some 2" "taskType (heap ?w 2) = REAL_TIME_TASK_T" by (simp_all add: demo_rt_simps)
  from rt_active_skips_first_slot [OF w' this calm_demo] w' show ?thesis by blast
qed

text \<open>An iteration in which the clock is past the end of every slot that is left, so that the wait for the end of the
  current slot is over at once, and in which nobody shuts the scheduler down.\<close>

definition late :: "sched \<Rightarrow> iter_in \<Rightarrow> bool" where
  "late w i \<longleftrightarrow> (\<forall>v. toContinue v \<longrightarrow> toContinue (act_env i v)) \<and>
     (\<forall>s \<in> set (drop (idxRealTimeTask w) (currentSchedule w)).
        eTime s < cur_now i - cycleStartTime w \<and> (\<exists>n \<in> set (spin_nows i). eTime s \<le> n - cycleStartTime w))"

lemma spin_until_over: "\<exists>n \<in> set ns. e \<le> n - start \<Longrightarrow> spin_until ns start e = Ok ()"
  by (induction ns) auto

lemma late_iteration:
  assumes w: "toContinue w" "active w = Some t" "taskType (heap w t) = REAL_TIME_TASK_T"
    and k: "idxRealTimeTask w + 2 \<le> length (currentSchedule w)" and l: "late w i" "keeps_type t (act_env i)"
  obtains w2 where "\<And>ins. GetNextTask tie (i # ins) w = GetNextTask tie ins w2" "toContinue w2" "active w2 = Some t"
    "taskType (heap w2 t) = REAL_TIME_TASK_T" "idxRealTimeTask w2 = idxRealTimeTask w + 2"
    "currentSchedule w2 = currentSchedule w" "cycleStartTime w2 = cycleStartTime w"
proof -
  let ?k = "idxRealTimeTask w" let ?e = "eTime (currentSchedule w ! ?k)"
  let ?v = "if ?e > END_OF_RT_SLOT_SPIN_MAX then interfere (act_env i) w else w"
  let ?w1 = "?v\<lparr>idxRealTimeTask := Suc ?k\<rparr>"
  let ?w2 = "?w1\<lparr>currentTime := cur_now i, idxRealTimeTask := Suc (Suc ?k)\<rparr>"
  have v: "toContinue ?v" "active ?v = Some t" "taskType (heap ?v t) = REAL_TIME_TASK_T" "idxRealTimeTask ?v = ?k"
    "currentSchedule ?v = currentSchedule w" "cycleStartTime ?v = cycleStartTime w"
    using w l by (simp_all add: late_def keeps_type_def)
  have d: "currentSchedule w ! j \<in> set (drop ?k (currentSchedule w))" if "j = ?k \<or> j = Suc ?k" for j
    using that k by (auto simp: in_set_conv_nth intro: exI [of _ "j - ?k"])
  have "spin_until (spin_nows i) (cycleStartTime ?v) ?e = Ok ()"
    using l(1) d [of ?k] v(6) by (intro spin_until_over) (simp add: late_def)
  then have a: "account_active i w = Ok (False, ?w1)"
    using w k v unfolding account_active_def Let_def by simp
  have "eTime (currentSchedule w ! Suc ?k) < cur_now i - cycleStartTime w" using l(1) d [of "Suc ?k"] by (simp add: late_def)
  then have s: "slot_section tie i ?w1 = Ok (None, ?w2)"
    using v(5,6) unfolding slot_section_def Let_def by simp
  have "idxRealTimeTask ?w1 < length (currentSchedule ?w1)" using k v(5) by simp
  then have "GetNextTask tie (i # ins) w = GetNextTask tie ins ?w2" for ins
    using w(1) a s by (subst GetNextTask.simps) simp
  then show thesis by (rule that) (use v in simp_all)
qed

text \<open>C22. A real-time task that overruns the rest of the schedule makes the dispatch loop read past its end, when an even
  number of slots is left, the task's own included: suppose that the clock is past the end of every slot that is left, and nobody
  shuts the scheduler down meanwhile. Each iteration then advances the index twice, once for the
  task that is active and once because the slot after it is over; the index reaches the length of the schedule, and
  the next iteration uses it without a check.\<close>

theorem rt_overrun_out_of_bounds:
  assumes "toContinue w" "active w = Some t" "taskType (heap w t) = REAL_TIME_TASK_T"
    and "length (currentSchedule w) = idxRealTimeTask w + 2 * length is"
    and "\<forall>i \<in> set is. late w i \<and> keeps_type t (act_env i)"
  shows "GetNextTask tie (is @ i2 # ins) w = Fault OutOfBounds"
  using assms
proof (induction "is" arbitrary: w)
  case Nil
  then have "account_active i2 w = Fault OutOfBounds" by (simp add: account_active_def)
  then show ?case using Nil.prems(1) by (subst GetNextTask.simps) simp
next
  case (Cons i "is")
  obtain w2 where w2: "\<And>ins. GetNextTask tie (i # ins) w = GetNextTask tie ins w2" "toContinue w2" "active w2 = Some t"
    "taskType (heap w2 t) = REAL_TIME_TASK_T" "idxRealTimeTask w2 = idxRealTimeTask w + 2"
    "currentSchedule w2 = currentSchedule w" "cycleStartTime w2 = cycleStartTime w"
    using late_iteration [OF Cons.prems(1-3), of i tie] Cons.prems(4,5) by auto
  have "set (drop (idxRealTimeTask w + 2) (currentSchedule w)) \<subseteq> set (drop (idxRealTimeTask w) (currentSchedule w))"
    by (rule set_drop_subset_set_drop) simp
  then have "\<forall>j \<in> set is. late w2 j \<and> keeps_type t (act_env j)"
    using Cons.prems(5) unfolding late_def w2(5-7) by auto
  then show ?case using Cons.IH [OF w2(2-4)] Cons.prems(4) w2(1,5,6) by simp
qed

theorem rt_overrun_out_of_bounds_witness:
  "GetNextTask (\<lambda>_. 0) [demo_iter 300000 300000, demo_iter 0 0] (demo_rt (Some 2)) = Fault OutOfBounds"
  using rt_overrun_out_of_bounds [of "demo_rt (Some 2)" 2 "[demo_iter 300000 300000]" "\<lambda>_. 0" "demo_iter 0 0" "[]"]
  by (simp add: demo_rt_simps late_def keeps_type_def)

lemma GetAnIB_in_bounds: "GetAnInteractiveBatchTask tie env now w \<noteq> Fault OutOfBounds"
proof (cases "ib_decide w")
  case DecideBatch
  then have "bQueue w \<noteq> []" by (auto simp: ib_decide_def split: if_splits)
  then show ?thesis using DecideBatch
    by (auto simp: GetAnInteractiveBatchTask_def pick_batch_def split: list.splits)
next
  case DecideInteractive
  have en: "task_EnableImmediately b t u \<noteq> Fault OutOfBounds" for b t and u :: sched
    by (auto simp: task_EnableImmediately_def rib_enable_defs thief_enable_defs split: SchedulerPtr.splits)
  have ea: "each f xs u \<noteq> Fault OutOfBounds" if "\<And>x v. f x v \<noteq> Fault OutOfBounds"
    for f :: "tid \<Rightarrow> sched \<Rightarrow> sched outcome" and xs u
    using that by (induction xs arbitrary: u) (auto simp: obind_eq_Fault)
  have nf: "Notify True t u \<noteq> Fault OutOfBounds" for t and u :: sched
    unfolding Notify_def notify_all_def by (rule ea) (auto simp: cv_claim_def en)
  have "trim_cancel_loop n u \<noteq> Fault OutOfBounds" for n u
    by (induction n arbitrary: u) (auto simp: Let_def obind_eq_Fault nf)
  then have "trim_cancel u \<noteq> Fault OutOfBounds" for u by (simp add: trim_cancel_def)
  moreover have "each give_to_thief xs u \<noteq> Fault OutOfBounds" for xs u
    by (rule ea) (auto simp: give_to_thief_def thief_enable_defs split: option.splits)
  ultimately show ?thesis using DecideInteractive
    by (auto simp: GetAnInteractiveBatchTask_def obind_eq_Fault split: prod.splits)
qed (simp add: GetAnInteractiveBatchTask_def)

text \<open>Called from the main loop, with no current task, the dispatch never reads out of bounds,
  whatever the clock and the other threads do.\<close>

lemma GetNextTask_in_bounds:
  assumes "active w = None"
  shows "GetNextTask tie ins w \<noteq> Fault OutOfBounds"
  using assms
proof (induction ins arbitrary: w)
  case Nil
  then show ?case by (subst GetNextTask.simps) simp
next
  case (Cons i ins)
  have slot: "slot_loop tie js u \<noteq> Fault OutOfBounds" for js u
  proof (induction js arbitrary: u)
    case Nil
    then show ?case by (subst slot_loop.simps) simp
  next
    case (Cons j js)
    then show ?case by (subst slot_loop.simps)
        (auto simp: obind_eq_Fault GetAnIB_in_bounds Let_def split: option.splits)
  qed
  have idle: "idle_loop tie js u \<noteq> Fault OutOfBounds" for js u
  proof (induction js arbitrary: u)
    case Nil
    then show ?case by (subst idle_loop.simps) simp
  next
    case (Cons j js)
    then show ?case by (subst idle_loop.simps)
        (auto simp: obind_eq_Fault GetAnIB_in_bounds Let_def split: option.splits)
  qed
  have "slot_section tie i w \<noteq> Fault OutOfBounds" "cycle_section tie i w \<noteq> Fault OutOfBounds"
    by (auto simp: slot_section_def cycle_section_def Let_def obind_eq_Fault slot idle split: option.splits)
  moreover have "GetNextTask tie ins w2 \<noteq> Fault OutOfBounds"
    if "slot_section tie i w = Ok (None, w2) \<or> cycle_section tie i w = Ok (None, w2)" for w2
    using Cons.IH [of w2] that Cons.prems slot_section_private(1) cycle_section_private(1) by metis
  ultimately show ?case using Cons.prems
    by (subst GetNextTask.simps) (auto simp: account_active_def obind_eq_Fault split: option.splits)
qed

lemma GetNextTask_in_bounds_witness:
  "active (demo_rt None) = None \<and>
   GetNextTask (\<lambda>_. 0) [demo_iter 100000 300000, demo_iter 0 0] (demo_rt None) \<noteq> Fault OutOfBounds"
  using GetNextTask_in_bounds [of "demo_rt None" "\<lambda>_. 0" "[demo_iter 100000 300000, demo_iter 0 0]"]
  by (simp add: demo_rt_simps)

text \<open>Shutting down from another thread does not stop a main thread that has no schedule: the
  loop that waits for one does not look at the flag, so with no task to run it goes on for
  ever, for any number of wake-ups.\<close>

lemma shutdown_ignored_without_schedule:
  assumes "rtScheduleGreedy w = []" "rtScheduleNormal w = []" "toContinue w" "active w = None"
    and "\<not> idxRealTimeTask w < length (currentSchedule w)"
    and "bQueue w = []" "iEDFPriorityQueue w = []" "iCancelStack w = []"
    and "\<forall>j \<in> set (inner_ins i). wait_env j = ShutDown"
  shows "GetNextTask tie (i # ins) w = Blocked"
proof -
  have "idle_loop tie js u = Blocked"
    if "rtScheduleGreedy u = []" "rtScheduleNormal u = []" "bQueue u = []" "iEDFPriorityQueue u = []"
      "iCancelStack u = []" "\<forall>j \<in> set js. wait_env j = ShutDown" for js u
    using that
  proof (induction js arbitrary: u)
    case Nil
    then show ?case by (subst idle_loop.simps) simp
  next
    case (Cons j js)
    have "GetAnInteractiveBatchTask tie (unlock_env j) (start_now j) u = Ok (None, u)"
      using Cons.prems by (simp add: GetAnInteractiveBatchTask_def ib_decide_def)
    moreover have "idle_loop tie js (interfere ShutDown u) = Blocked"
      using Cons.prems by (intro Cons.IH) (simp_all add: ShutDown_def)
    ultimately show ?case using Cons.prems by (subst idle_loop.simps) simp
  qed
  then have "cycle_section tie i w = Blocked" using assms by (simp add: cycle_section_def)
  then show ?thesis using assms by (subst GetNextTask.simps) (simp add: account_active_def)
qed

lemma shutdown_ignored_without_schedule_witness:
  "GetNextTask (\<lambda>_. 0) [(demo_iter 0 0)\<lparr>inner_ins := replicate 5
      \<lparr>test_now = 0, loop_now = 0, unlock_env = (\<lambda>w. w), start_now = 0, wait_env = ShutDown\<rparr>\<rparr>]
    (new_RIBScheduler 1 0 (\<lambda>_. demo_task)) = Blocked"
  by (rule shutdown_ignored_without_schedule) (simp_all add: new_RIBScheduler_def)

section \<open>Creating batch tasks\<close>

lemma GetMinThief_Some:
  assumes "thiefs w \<noteq> []" "\<forall>th \<in> set (thiefs w). Size th < 4294967295"
  obtains i where "GetMinThief w = Some i" "i < length (thiefs w)"
proof (cases "GetMinThief w")
  case None
  have max: "ucast (-1 :: u32) = (4294967295 :: u64)" by code_simp
  have "4294967295 \<le> Size (thiefs w ! 0)"
    using min_thief_loop_spec [of None "[]" "-1" "thiefs w"] None assms(1) by (simp add: GetMinThief_def max)
  then show ?thesis using assms by (simp add: not_le [symmetric])
next
  case (Some i)
  then show ?thesis using that GetMinThief_lt by blast
qed

definition valid_sched_ptr :: "SchedulerPtr \<Rightarrow> sched \<Rightarrow> bool" where
  "valid_sched_ptr p w = (case p of RIBPtr \<Rightarrow> True | ThiefPtr i \<Rightarrow> i < length (thiefs w))"

lemma choose_thief_ok:
  assumes "thiefs w \<noteq> []" "\<forall>th \<in> set (thiefs w). Size th < 4294967295"
    and "\<And>c. cur = Some c \<Longrightarrow> valid_sched_ptr (scheduler (heap w c)) w"
  obtains i where "choose_thief cur rnd st w = Ok (ThiefPtr i)" "i < length (thiefs w)"
    "pinCore st > -1 \<and> pinCore st < int (length (thiefs w)) \<Longrightarrow> i = nat (pinCore st)"
    "\<And>j. \<not> (pinCore st > -1 \<and> pinCore st < int (length (thiefs w))) \<Longrightarrow> GetMinThief w = Some j \<Longrightarrow>
       Size (thiefs w ! j) = 0 \<Longrightarrow> i = j"
proof (cases "pinCore st > -1 \<and> pinCore st < int (length (thiefs w))")
  case True
  then show ?thesis by (intro that [of "nat (pinCore st)"]) (auto simp: choose_thief_def)
next
  case False
  obtain m where m: "GetMinThief w = Some m" "m < length (thiefs w)"
    using GetMinThief_Some [OF assms(1,2)] .
  let ?r = "rnd mod length (thiefs w)"
  have r: "?r < length (thiefs w)" using assms(1) by simp
  show ?thesis
  proof (cases "Size (thiefs w ! m) > 0")
    case busy: True
    then have "Size (thiefs w ! m) \<noteq> 0" by auto
    moreover obtain i where "choose_thief cur rnd st w = Ok (ThiefPtr i)" "i < length (thiefs w)"
    proof (cases "\<exists>c k. cur = Some c \<and> scheduler (heap w c) = ThiefPtr k")
      case True
      then obtain c k where ck: "cur = Some c" "scheduler (heap w c) = ThiefPtr k" by blast
      then have "choose_thief cur rnd st w = Ok (ThiefPtr k)"
        using False m busy by (auto simp: choose_thief_def Let_def)
      moreover have "k < length (thiefs w)" using assms(3) [OF ck(1)] ck(2) by (simp add: valid_sched_ptr_def)
      ultimately show ?thesis by (rule that)
    next
      case nothief: False
      have "choose_thief cur rnd st w = Ok (ThiefPtr ?r)"
        using nothief False m busy assms(1)
        by (cases cur; cases "scheduler (heap w (the cur))") (auto simp: choose_thief_def Let_def)
      then show ?thesis using that r by blast
    qed
    ultimately show ?thesis using False m by (intro that) auto
  next
    case idle: False
    then have "choose_thief cur rnd st w = Ok (ThiefPtr m)"
      using False m assms(1) by (auto simp: choose_thief_def Let_def split: option.split)
    then show ?thesis using False m by (intro that [of m]) auto
  qed
qed

text \<open>Creating a stealable batch task hands it to a thief that exists, ready and queued exactly
  there: the pinned one if the pin is a valid position, otherwise the least loaded one if it is
  idle. A task that may not be stolen goes to the end of the main thread's batch queue.\<close>

lemma CreateBatchTask_placed:
  assumes "thiefs w \<noteq> []" "\<forall>th \<in> set (thiefs w). Size th < 4294967295" "\<not> tr_linked t w"
    and "\<forall>c. cur = Some c \<longrightarrow> c \<noteq> t \<and> valid_sched_ptr (scheduler (heap w c)) w"
  shows "\<exists>w'. CreateBatchTask t cur rnd st bu w = Ok w' \<and>
    (canSteal st \<longrightarrow> (\<exists>i < length (thiefs w). scheduler (heap w' t) = ThiefPtr i \<and> t \<in> set (readyq w' i) \<and>
       status (heap w' t) = TASK_READY \<and> ctx_ok (heap w' t) \<and>
       (\<forall>j < length (thiefs w). j \<noteq> i \<longrightarrow> thiefs w' ! j = thiefs w ! j) \<and>
       (0 \<le> pinCore st \<and> pinCore st < int (length (thiefs w)) \<longrightarrow> i = nat (pinCore st)) \<and>
       (\<forall>j. pinCore st = -1 \<and> GetMinThief w = Some j \<and> Size (thiefs w ! j) = 0 \<longrightarrow> i = j))) \<and>
    (\<not> canSteal st \<longrightarrow> bQueue w' = bQueue w @ [t] \<and> scheduler (heap w' t) = RIBPtr \<and> thiefs w' = thiefs w)"
proof (cases "canSteal st")
  case False
  then show ?thesis by (simp add: CreateBatchTask_def Let_def new_task_def new_TaskInterface_def)
next
  case True
  let ?x = "(new_task BATCH_TASK_T st)\<lparr>burst := bu, isStealable := True\<rparr>"
  let ?w1 = "upd_task t (\<lambda>_. ?x) w"
  have "thiefs ?w1 \<noteq> []" "\<forall>th \<in> set (thiefs ?w1). Size th < 4294967295" using assms by simp_all
  moreover have "\<And>c. cur = Some c \<Longrightarrow> valid_sched_ptr (scheduler (heap ?w1 c)) ?w1"
    using assms(4) by (simp add: valid_sched_ptr_def split: SchedulerPtr.splits)
  ultimately obtain i where i: "choose_thief cur rnd st ?w1 = Ok (ThiefPtr i)" "i < length (thiefs w)"
    "pinCore st > -1 \<and> pinCore st < int (length (thiefs w)) \<Longrightarrow> i = nat (pinCore st)"
    "\<And>j. \<not> (pinCore st > -1 \<and> pinCore st < int (length (thiefs w))) \<Longrightarrow> GetMinThief ?w1 = Some j \<Longrightarrow>
       Size (thiefs w ! j) = 0 \<Longrightarrow> i = j"
    by (rule choose_thief_ok [where rnd = rnd and st = st]) auto
  have gm: "GetMinThief ?w1 = GetMinThief w" by (simp add: GetMinThief_def)
  let ?w2 = "upd_task t (Steal (ThiefPtr i)) ?w1"
  have sch: "scheduler (heap ?w2 t) = ThiefPtr i" by simp
  have ctx: "ctx_ok (Steal (ThiefPtr i) ?x)"
    by (rule ctx_ok_Steal) (auto simp: ctx_ok_def new_task_def new_TaskInterface_def)
  have nl: "\<not> tr_linked t ?w2" using assms(3) by (simp add: tr_linked_upd_task)
  have st: "ctx_ok (x\<lparr>status := s\<rparr>) = ctx_ok x" for x s by (simp add: ctx_ok_def split: StackKind.split)
  show ?thesis
  proof (cases "launchImmediately st")
    case im: True
    show ?thesis using True im i nl ctx
      by (simp add: CreateBatchTask_def Let_def task_EnableImmediately_def thief_EnableImmediately_def sch gm st)
  next
    case im: False
    show ?thesis using True im i nl ctx
      by (simp add: CreateBatchTask_def Let_def task_Enable_def thief_Enable_def sch gm st)
  qed
qed

lemma CreateBatchTask_placed_witness:
  "\<exists>w'. CreateBatchTask 5 None 3 StackTraits_default 10 (new_RIBScheduler 2 0 (\<lambda>_. demo_task)) = Ok w' \<and>
     (\<exists>i < 2. 5 \<in> set (readyq w' i))"
proof -
  let ?w = "new_RIBScheduler 2 0 (\<lambda>_. demo_task)"
  have "thiefs ?w \<noteq> []" "\<forall>th \<in> set (thiefs ?w). Size th < 4294967295" "\<not> tr_linked 5 ?w"
    "length (thiefs ?w) = 2"
    by (auto simp: new_RIBScheduler_def new_StealScheduler_def Size_def tr_linked_def list_ex_iff)
  then show ?thesis using CreateBatchTask_placed [of ?w 5 None 3 StackTraits_default 10]
    by (auto simp: StackTraits_default_def)
qed

text \<open>Without thieves a stealable batch task cannot be created: the code divides by the number
  of thieves, or follows the null pointer that the search for a thief returned.\<close>

lemma CreateBatchTask_without_thieves:
  assumes "thiefs w = []" "canSteal st"
  shows "CreateBatchTask t cur rnd st bu w = Fault DivByZero \<or>
         CreateBatchTask t cur rnd st bu w = Fault NullDeref"
proof -
  let ?w1 = "upd_task t (\<lambda>_. (new_task BATCH_TASK_T st)\<lparr>burst := bu, isStealable := True\<rparr>) w"
  have "GetMinThief ?w1 = None" using assms(1) by (simp add: GetMinThief_def)
  then have "choose_thief cur rnd st ?w1 = Fault DivByZero \<or> choose_thief cur rnd st ?w1 = Fault NullDeref"
    using assms(1) by (auto simp: choose_thief_def Let_def split: option.split)
  then show ?thesis using assms(2) by (auto simp: CreateBatchTask_def Let_def)
qed

lemma CreateBatchTask_without_thieves_witness:
  "\<not> (\<exists>w'. CreateBatchTask 5 None 3 StackTraits_default 10 (new_RIBScheduler 0 0 (\<lambda>_. demo_task)) = Ok w')"
proof -
  have "thiefs (new_RIBScheduler 0 0 (\<lambda>_. demo_task)) = []" "canSteal StackTraits_default"
    by (simp_all add: new_RIBScheduler_def StackTraits_default_def)
  from CreateBatchTask_without_thieves [OF this, of 5 None 3 10] show ?thesis by auto
qed

section \<open>Yielding and the end of real-time tasks\<close>

text \<open>A yielding interactive task is put into the ready queue and then its remaining burst is
  reduced, while the queue is ordered by deadline and burst: the key of an element changes
  while it is in the container.\<close>

lemma Yield_changes_queued_key:
  assumes "active w = Some t" "taskType (heap w t) = INTERACTIVE_TASK_T" "scheduler (heap w t) = RIBPtr"
    and "status (heap w t) \<noteq> TASK_FINISHED" "t \<notin> set (iEDFPriorityQueue w)" "toContinue w"
  shows "\<exists>w1 w'. task_Enable False t w = Ok w1 \<and> Yield tie (i # ins) w = Ok w' \<and>
    t \<in> set (iEDFPriorityQueue w1) \<and> t \<in> set (iEDFPriorityQueue w') \<and>
    burst (heap w1 t) = burst (heap w t) \<and>
    burst (heap w' t) = burst (heap w t) - (act_now i - taskStartTime w)"
proof -
  let ?w1 = "upd_task t (status_update (\<lambda>_. TASK_READY)) (w\<lparr>iEDFPriorityQueue := iEDFPriorityQueue w @ [t]\<rparr>)"
  let ?d = "act_now i - taskStartTime w"
  let ?w2 = "upd_task t (burst_update (\<lambda>b. b - ?d)) (?w1\<lparr>vClockI := vClockI w + ?d\<rparr>)"
  have e: "task_Enable False t w = Ok ?w1" using assms by (simp add: task_Enable_def rib_Enable_def Let_def)
  have "GetNextTask tie (i # ins) ?w1 = Ok (None, ?w2)"
    using assms by (subst GetNextTask.simps) (simp add: account_active_def Let_def)
  then have "Yield tie (i # ins) w = Ok (switch_to None ?w2)"
    using assms e by (simp add: Yield_def SwapOut_def)
  moreover have "switch_to None ?w2 = ?w2\<lparr>active := None\<rparr>"
    using assms by (simp add: switch_to_def CleanupPreviousTask_def rib_EndTask_def)
  ultimately show ?thesis using e by simp
qed

definition demo_yield :: sched where
  "demo_yield = (new_RIBScheduler 1 0 (\<lambda>_. (new_TaskInterface INTERACTIVE_TASK_T SharedCopyStack RIBPtr)
     \<lparr>deadline := 100, burst := 50\<rparr>))\<lparr>active := Some 1\<rparr>"

lemma Yield_changes_queued_key_witness:
  "\<exists>w'. Yield (\<lambda>_. 0) [demo_iter 0 20] demo_yield = Ok w' \<and> 1 \<in> set (iEDFPriorityQueue w') \<and>
     burst (heap w' 1) = 30"
  using Yield_changes_queued_key [of demo_yield 1 "\<lambda>_. 0" "demo_iter 0 20" "[]"]
  by (auto simp: demo_yield_def new_RIBScheduler_def new_TaskInterface_def demo_iter_def)

text \<open>A real-time task that waits is deleted: after it entered the wait list of a condition
  variable, the switch to another task frees it although it is still on the list, so that a
  later notification works on a deleted object. A batch or interactive task survives.\<close>

lemma waiting_rt_task_is_freed:
  assumes "active w = Some t" "scheduler (heap w t) = RIBPtr" "\<not> wsHook (heap w t)"
    and "status (heap w t) \<noteq> TASK_FINISHED" "t \<notin> set (freed w)" "next \<noteq> Some t"
  shows "\<exists>w1. cv_wait_begin c t w = Ok w1 \<and> t \<in> set (waitList (switch_to next w1) c) \<and>
    (t \<in> set (freed (switch_to next w1)) \<longleftrightarrow> taskType (heap w t) = REAL_TIME_TASK_T)"
  using assms
  by (auto simp: cv_wait_begin_def push_wait_def switch_to_def CleanupPreviousTask_def rib_EndTask_def
      set_waitList_def upd_task_def delete_task_def split: TaskType.splits)

lemma waiting_rt_task_is_freed_witness:
  "\<exists>w1. cv_wait_begin (UserCV 0) 2 (demo_rt (Some 2)) = Ok w1 \<and> 2 \<in> set (freed (switch_to None w1))"
  using waiting_rt_task_is_freed [of "demo_rt (Some 2)" 2 None "UserCV 0"] by (auto simp: demo_rt_simps)

end
