(* ===== verification/SpinLocks.thy ===== *)
theory SpinLocks
  imports Prelude
begin

text \<open>
  The spin locks (\<^verbatim>\<open>src/concurrency/spinlock.cc\<close>, \<^verbatim>\<open>src/concurrency/spinrwlock.cc\<close>). The operations are
  sequences of atomic accesses to one shared word; a run of several threads is an explicit
  schedule of such accesses. Memory orders are not modelled: accesses are sequentially
  consistent.
\<close>

section \<open>The plain spin locks\<close>

text \<open>\<^verbatim>\<open>test_and_set\<close> returns the old value of the flag. The lock loop consumes the values it sees; the
  result is the number of times it gave up the processor, or \<open>None\<close> while it still spins. The
  counter starts at 1 and wraps at 20.\<close>

fun SpinMutex_lock_loop :: "nat \<Rightarrow> nat \<Rightarrow> bool list \<Rightarrow> nat option" where
  "SpinMutex_lock_loop cnt yields [] = None"
| "SpinMutex_lock_loop cnt yields (seen # rest) =
     (if seen then SpinMutex_lock_loop ((cnt + 1) mod 20) (if cnt mod 20 = 0 then Suc yields else yields) rest
      else Some yields)"

definition SpinMutex_lock :: "bool list \<Rightarrow> nat option" where
  "SpinMutex_lock seen = SpinMutex_lock_loop 1 0 seen"

definition SpinMutex_try_lock :: "bool \<Rightarrow> bool \<times> bool" where
  "SpinMutex_try_lock flag = (\<not> flag, True)"

definition SpinMutex_unlock :: "bool \<Rightarrow> bool" where
  "SpinMutex_unlock flag = False"

lemma SpinMutex_lock_loop_spins:
  "cnt < 20 \<Longrightarrow> SpinMutex_lock_loop cnt y (replicate n True @ False # rest) =
     Some (y + (if cnt = 0 then 0 else cnt + n - 1) div 20 + (if cnt = 0 then (n + 19) div 20 else 0))"
proof (induction n arbitrary: cnt y)
  case 0
  then show ?case by auto
next
  case (Suc n)
  have "(cnt + 1) mod 20 < 20" by simp
  note ih = Suc.IH [OF this]
  consider "cnt = 0" | "cnt = 19" | "0 < cnt" "cnt < 19" using Suc.prems by linarith
  then show ?case
  proof cases
    case 1
    then show ?thesis using ih by (simp add: div_add_self2 [symmetric])
  next
    case 2
    then show ?thesis using ih by simp
  next
    case 3
    then show ?thesis using ih by simp
  qed
qed

text \<open>The lock is taken by the first access that sees the flag clear, and until then every
  twentieth failure yields.\<close>

lemma SpinMutex_lock_yields: "SpinMutex_lock (replicate n True @ False # rest) = Some (n div 20)"
  using SpinMutex_lock_loop_spins [of 1 0 n rest] by (simp add: SpinMutex_lock_def)

section \<open>The reader-writer lock\<close>

text \<open>The word is 0 when free, -1 when a writer holds it, and otherwise the number of readers. A
  weak compare-and-exchange may fail although the value is the expected one (\<open>spurious\<close>).\<close>

definition cas_weak :: "bool \<Rightarrow> int \<Rightarrow> int \<Rightarrow> int \<Rightarrow> bool \<times> int" where
  "cas_weak spurious l expected desired =
     (if l = expected \<and> \<not> spurious then (True, desired) else (False, l))"

text \<open>Where a thread is between two accesses: outside, having loaded the word in one of the four
  operations, or holding the lock. \<open>Asserted\<close> is a failed assertion in an unlock.\<close>

datatype rw_pc =
    Outside
  | LoadedLock int
  | Writing
  | LoadedUnlock int
  | LoadedShared int
  | Reading
  | LoadedUnshared int
  | Asserted

record rw =
  rw_l :: int
  rw_pcs :: "rw_pc list"

definition new_SharedSpinMutex :: "nat \<Rightarrow> rw" where
  "new_SharedSpinMutex n = \<lparr>rw_l = 0, rw_pcs = replicate n Outside\<rparr>"

text \<open>The next access of a thread. \<open>excl\<close> chooses between \<^verbatim>\<open>lock\<close> and \<^verbatim>\<open>lock_shared\<close> for a thread that is
  outside; a failed attempt goes back outside, to be retried (\<^verbatim>\<open>lock\<close>) or given up (\<^verbatim>\<open>try_lock\<close>).\<close>

definition rw_access :: "bool \<Rightarrow> bool \<Rightarrow> int \<Rightarrow> rw_pc \<Rightarrow> int \<times> rw_pc" where
  "rw_access excl spurious l pc = (case pc of
      Outside \<Rightarrow> (l, if excl then LoadedLock l else LoadedShared l)
    | LoadedLock e \<Rightarrow>
        (if e = 0 then (let (ok, l') = cas_weak spurious l e (-1) in (l', if ok then Writing else Outside))
         else (l, Outside))
    | Writing \<Rightarrow> (l, LoadedUnlock l)
    | LoadedUnlock e \<Rightarrow>
        (if e = -1 then (let (ok, l') = cas_weak spurious l e 0 in (l', if ok then Outside else Writing))
         else (l, Asserted))
    | LoadedShared e \<Rightarrow>
        (if e \<ge> 0 then (let (ok, l') = cas_weak spurious l e (1 + e) in (l', if ok then Reading else Outside))
         else (l, Outside))
    | Reading \<Rightarrow> (l, LoadedUnshared l)
    | LoadedUnshared e \<Rightarrow>
        (if e > 0 then (let (ok, l') = cas_weak spurious l e (e - 1) in (l', if ok then Outside else Reading))
         else (l, Asserted))
    | Asserted \<Rightarrow> (l, Asserted))"

definition rw_step :: "nat \<times> bool \<times> bool \<Rightarrow> rw \<Rightarrow> rw" where
  "rw_step act w = (case act of (p, excl, spurious) \<Rightarrow>
     if p < length (rw_pcs w) then
       (let (l', pc') = rw_access excl spurious (rw_l w) (rw_pcs w ! p) in
        w\<lparr>rw_l := l', rw_pcs := (rw_pcs w)[p := pc']\<rparr>)
     else w)"

definition rw_run :: "(nat \<times> bool \<times> bool) list \<Rightarrow> rw \<Rightarrow> rw" where
  "rw_run acts w = fold rw_step acts w"

text \<open>A thread that is in the unlock operation still holds the lock.\<close>

definition holds_write :: "rw_pc \<Rightarrow> bool" where
  "holds_write pc = (case pc of Writing \<Rightarrow> True | LoadedUnlock e \<Rightarrow> True | _ \<Rightarrow> False)"

definition holds_read :: "rw_pc \<Rightarrow> bool" where
  "holds_read pc = (case pc of Reading \<Rightarrow> True | LoadedUnshared e \<Rightarrow> True | _ \<Rightarrow> False)"

definition pc_ok :: "rw_pc \<Rightarrow> bool" where
  "pc_ok pc = (case pc of LoadedUnlock e \<Rightarrow> e = -1 | LoadedUnshared e \<Rightarrow> e > 0 | Asserted \<Rightarrow> False | _ \<Rightarrow> True)"

definition writers :: "rw \<Rightarrow> nat" where
  "writers w = length (filter holds_write (rw_pcs w))"

definition readers :: "rw \<Rightarrow> nat" where
  "readers w = length (filter holds_read (rw_pcs w))"

definition rw_inv :: "rw \<Rightarrow> bool" where
  "rw_inv w \<longleftrightarrow> (\<forall>pc \<in> set (rw_pcs w). pc_ok pc) \<and>
     (rw_l w = -1 \<and> writers w = 1 \<and> readers w = 0 \<or> rw_l w = int (readers w) \<and> writers w = 0)"

lemmas rw_pc_defs = holds_write_def holds_read_def pc_ok_def

lemma rw_inv_step: "rw_inv w \<Longrightarrow> rw_inv (rw_step act w)"
proof -
  assume inv: "rw_inv w"
  obtain p excl sp where act: "act = (p, excl, sp)" by (cases act)
  show ?thesis
  proof (cases "p < length (rw_pcs w)")
    case False
    then show ?thesis using inv act by (simp add: rw_step_def)
  next
    case True
    let ?pc = "rw_pcs w ! p"
    obtain l' pc' where a: "rw_access excl sp (rw_l w) ?pc = (l', pc')" by (cases "rw_access excl sp (rw_l w) ?pc")
    have step: "rw_step act w = w\<lparr>rw_l := l', rw_pcs := (rw_pcs w)[p := pc']\<rparr>"
      using True act a by (simp add: rw_step_def)
    have "?pc \<in> set (rw_pcs w)" using True by simp
    then have ok: "pc_ok ?pc" using inv by (simp add: rw_inv_def)
    have w: "length (filter holds_write ((rw_pcs w)[p := pc'])) + (if holds_write ?pc then 1 else 0) =
        writers w + (if holds_write pc' then 1 else 0)"
      unfolding writers_def using True by (rule length_filter_update)
    have r: "length (filter holds_read ((rw_pcs w)[p := pc'])) + (if holds_read ?pc then 1 else 0) =
        readers w + (if holds_read pc' then 1 else 0)"
      unfolding readers_def using True by (rule length_filter_update)
    have rp: "readers w \<ge> 1" if "holds_read ?pc"
      unfolding readers_def using True that by (rule length_filter_pos)
    have wp: "writers w \<ge> 1" if "holds_write ?pc"
      unfolding writers_def using True that by (rule length_filter_pos)
    have pcs: "\<forall>q \<in> set ((rw_pcs w)[p := pc']). pc_ok q" if "pc_ok pc'"
      using inv that set_update_subset_insert [of "rw_pcs w" p pc'] by (auto simp: rw_inv_def)
    have l: "rw_l w = -1 \<and> writers w = 1 \<and> readers w = 0 \<or> rw_l w = int (readers w) \<and> writers w = 0"
      using inv by (simp add: rw_inv_def)
    show ?thesis
      unfolding step rw_inv_def writers_def readers_def
      using a ok w r rp wp pcs l
      by (cases ?pc) (auto simp: rw_access_def rw_pc_defs cas_weak_def Let_def split: if_splits prod.splits)
  qed
qed

lemma rw_inv_run: "rw_inv w \<Longrightarrow> rw_inv (rw_run acts w)"
  unfolding rw_run_def by (induction acts arbitrary: w) (auto intro: rw_inv_step)

lemma rw_inv_new: "rw_inv (new_SharedSpinMutex n)"
  by (simp add: rw_inv_def new_SharedSpinMutex_def writers_def readers_def rw_pc_defs)

interpretation rw_lock: invariant_system "\<lambda>w. \<exists>n. w = new_SharedSpinMutex n" "\<lambda>w w'. \<exists>a. w' = rw_step a w" rw_inv
  by unfold_locales (auto intro: rw_inv_new rw_inv_step)

lemma rw_run_length [simp]: "length (rw_pcs (rw_run acts w)) = length (rw_pcs w)"
  unfolding rw_run_def
  by (induction acts arbitrary: w) (auto simp: rw_step_def Let_def split: prod.splits)

text \<open>C25. The reader-writer lock excludes: under every interleaving of the atomic accesses, spurious
  failures included, a thread that holds the lock for writing is alone; the assertions in the
  unlock operations never fail; and the lock word stays between -1 and the number of threads,
  so it cannot overflow.\<close>

theorem SharedSpinMutex_exclusion:
  fixes acts n
  defines "w \<equiv> rw_run acts (new_SharedSpinMutex n)"
  shows "(\<forall>i < n. \<forall>j < n. i \<noteq> j \<and> holds_write (rw_pcs w ! i) \<longrightarrow>
            \<not> holds_write (rw_pcs w ! j) \<and> \<not> holds_read (rw_pcs w ! j)) \<and>
         Asserted \<notin> set (rw_pcs w) \<and> -1 \<le> rw_l w \<and> rw_l w \<le> int n \<and>
         (rw_l w = 0 \<longleftrightarrow> (\<forall>pc \<in> set (rw_pcs w). \<not> holds_write pc \<and> \<not> holds_read pc))"
proof -
  have inv: "rw_inv w"
    unfolding w_def rw_run_def by (rule rw_lock.reachable_inv [OF _ fold_reachable]) blast
  have len: "length (rw_pcs w) = n" by (simp add: w_def new_SharedSpinMutex_def)
  have "\<not> holds_write (rw_pcs w ! j) \<and> \<not> holds_read (rw_pcs w ! j)"
    if ij: "i < n" "j < n" "i \<noteq> j" "holds_write (rw_pcs w ! i)" for i j
  proof -
    have "writers w \<ge> 1" unfolding writers_def using ij(1,4) len by (intro length_filter_pos) auto
    then have one: "writers w = 1" "readers w = 0" using inv by (auto simp: rw_inv_def)
    have "\<not> holds_write (rw_pcs w ! j)"
      using length_filter_one [of i "rw_pcs w" j holds_write] ij len one(1) by (auto simp: writers_def)
    moreover have "\<not> holds_read (rw_pcs w ! j)"
      using length_filter_pos [of j "rw_pcs w" holds_read] ij len one(2) by (auto simp: readers_def)
    ultimately show ?thesis by blast
  qed
  moreover have "Asserted \<notin> set (rw_pcs w)" using inv by (auto simp: rw_inv_def pc_ok_def)
  moreover have "int (readers w) \<le> int n" using len by (metis length_filter_le of_nat_mono readers_def)
  moreover have "rw_l w = 0 \<longleftrightarrow> (\<forall>pc \<in> set (rw_pcs w). \<not> holds_write pc \<and> \<not> holds_read pc)"
  proof -
    have "rw_l w = 0 \<longleftrightarrow> writers w = 0 \<and> readers w = 0" using inv by (auto simp: rw_inv_def)
    also have "\<dots> \<longleftrightarrow> (\<forall>pc \<in> set (rw_pcs w). \<not> holds_write pc \<and> \<not> holds_read pc)"
      by (auto simp: writers_def readers_def filter_empty_conv)
    finally show ?thesis .
  qed
  ultimately show ?thesis using inv by (auto simp: rw_inv_def)
qed

theorem SharedSpinMutex_exclusion_witness:
  "holds_write (rw_pcs (rw_run [(0, True, False), (1, True, False), (0, True, False), (1, True, False)]
      (new_SharedSpinMutex 2)) ! 0) \<and>
   \<not> holds_write (rw_pcs (rw_run [(0, True, False), (1, True, False), (0, True, False), (1, True, False)]
      (new_SharedSpinMutex 2)) ! 1)"
proof -
  have "holds_write (rw_pcs (rw_run [(0, True, False), (1, True, False), (0, True, False), (1, True, False)]
      (new_SharedSpinMutex 2)) ! 0)" by code_simp
  moreover have "(0::nat) < 2" "(1::nat) < 2" "(0::nat) \<noteq> 1" by simp_all
  ultimately show ?thesis
    using SharedSpinMutex_exclusion [of 2 "[(0, True, False), (1, True, False), (0, True, False), (1, True, False)]"]
    by blast
qed

end
