(* ===== verification/Sync.thy ===== *)
theory Sync
  imports CondVar
begin

text \<open>
  Semaphore, mutex and wait group (\<^verbatim>\<open>include/concurrency/semaphore.hpp\<close>, \<^verbatim>\<open>mutex.hpp\<close>,
  \<^verbatim>\<open>src/concurrency/waitgroup.cc\<close>) as monitors: each operation runs under the object's spin lock up
  to its end or to the point where the task waits, so an execution is a sequence of such
  events. The wait list of the condition variable is first-in first-out; a notified task is
  \<open>woken\<close> until it runs again and re-checks its condition.
\<close>

section \<open>Monitors\<close>

record 'v monitor =
  mval :: 'v
  mwait :: "tid list"
  mwoken :: "tid list"

definition mon_wait :: "tid \<Rightarrow> ('v, 'a) monitor_scheme \<Rightarrow> ('v, 'a) monitor_scheme" where
  "mon_wait t m = m\<lparr>mwait := mwait m @ [t]\<rparr>"

definition mon_notify_one :: "('v, 'a) monitor_scheme \<Rightarrow> ('v, 'a) monitor_scheme" where
  "mon_notify_one m = (case mwait m of [] \<Rightarrow> m | t # ts \<Rightarrow> m\<lparr>mwait := ts, mwoken := mwoken m @ [t]\<rparr>)"

definition mon_notify_all :: "('v, 'a) monitor_scheme \<Rightarrow> ('v, 'a) monitor_scheme" where
  "mon_notify_all m = m\<lparr>mwait := [], mwoken := mwoken m @ mwait m\<rparr>"

text \<open>The abstraction of the condition variable: for tasks in untimed waits, \<^verbatim>\<open>notify_one\<close> takes the
  first task off the list and makes it ready, and no other.\<close>

lemma notify_one_refines_monitor:
  assumes "waitList w c = t # ts" "cvStatus (heap w t) = CvZero" "task_accepts t w" "\<not> task_linked t w"
  shows "\<exists>w'. notify_one False c w = Ok w' \<and> waitList w' c = ts \<and> task_linked t w' \<and> \<not> wsHook (heap w' t) \<and>
    (\<forall>u. u \<noteq> t \<longrightarrow> task_linked u w' = task_linked u w)"
proof -
  have "waiting_on c t (pop_wait c t w)" using assms by (simp add: waiting_on_def same_place_rules [OF same_place_pop])
  then obtain w' where "cv_claim False c t (pop_wait c t w) = Ok w'" "woken t (pop_wait c t w) w'"
    "waitList w' = waitList (pop_wait c t w)" "\<And>u. wsHook (heap w' u) = wsHook (heap (pop_wait c t w) u)"
    by (rule cv_claim_woken) blast
  then show ?thesis using assms(1)
    by (auto simp: notify_one_def woken_def same_place_rules [OF same_place_pop])
qed

section \<open>Semaphore and mutex\<close>

text \<open>The counter is the monitor's value; \<open>holders\<close> lists the tasks that took a unit and did not
  return it.\<close>

record sem = "int monitor" +
  holders :: "tid list"

definition new_Semaphore :: "nat \<Rightarrow> sem" where
  "new_Semaphore SemaphoreSize = \<lparr>mval = int SemaphoreSize, mwait = [], mwoken = [], holders = []\<rparr>"

text \<open>The test of the predicate and what follows it, on entry to \<^verbatim>\<open>Wait\<close> and after each wake-up.\<close>

definition sem_take :: "tid \<Rightarrow> sem \<Rightarrow> sem" where
  "sem_take t s = (if mval s > 0 then s\<lparr>mval := mval s - 1, holders := t # holders s\<rparr> else mon_wait t s)"

definition Semaphore_Wait :: "tid \<Rightarrow> sem \<Rightarrow> sem" where
  "Semaphore_Wait t s = sem_take t s"

definition Semaphore_resume :: "tid \<Rightarrow> sem \<Rightarrow> sem" where
  "Semaphore_resume t s = sem_take t (s\<lparr>mwoken := remove1 t (mwoken s)\<rparr>)"

definition Semaphore_Signal :: "tid \<Rightarrow> sem \<Rightarrow> sem" where
  "Semaphore_Signal t s = mon_notify_one (s\<lparr>mval := mval s + 1, holders := remove1 t (holders s)\<rparr>)"

definition Semaphore_TryWait :: "tid \<Rightarrow> sem \<Rightarrow> bool \<times> sem" where
  "Semaphore_TryWait t s =
     (if mval s > 0 then (True, s\<lparr>mval := mval s - 1, holders := t # holders s\<rparr>) else (False, s))"

definition Semaphore_GetCount :: "sem \<Rightarrow> int" where
  "Semaphore_GetCount s = mval s"

text \<open>The mutex is a semaphore of size one.\<close>

definition new_Mutex :: sem where "new_Mutex = new_Semaphore 1"
definition Mutex_lock :: "tid \<Rightarrow> sem \<Rightarrow> sem" where "Mutex_lock = Semaphore_Wait"
definition Mutex_try_lock :: "tid \<Rightarrow> sem \<Rightarrow> bool \<times> sem" where "Mutex_try_lock = Semaphore_TryWait"
definition Mutex_unlock :: "tid \<Rightarrow> sem \<Rightarrow> sem" where "Mutex_unlock = Semaphore_Signal"

text \<open>Executions. A task calls an operation only while it runs: it is neither waiting nor woken;
  it signals when it is a holder.\<close>

datatype sem_event = EvWait tid | EvTry tid | EvSignal tid | EvResume tid

definition idle_task :: "tid \<Rightarrow> ('v, 'a) monitor_scheme \<Rightarrow> bool" where
  "idle_task t s \<longleftrightarrow> \<not> List.member (mwait s) t \<and> \<not> List.member (mwoken s) t"

fun sem_step :: "sem_event \<Rightarrow> sem \<Rightarrow> sem" where
  "sem_step (EvWait t) s = (if idle_task t s then Semaphore_Wait t s else s)"
| "sem_step (EvTry t) s = (if idle_task t s then snd (Semaphore_TryWait t s) else s)"
| "sem_step (EvSignal t) s = (if List.member (holders s) t then Semaphore_Signal t s else s)"
| "sem_step (EvResume t) s = (if List.member (mwoken s) t then Semaphore_resume t s else s)"

definition sem_run :: "sem_event list \<Rightarrow> sem \<Rightarrow> sem" where
  "sem_run es s = fold sem_step es s"

text \<open>The units are conserved, and a waiting task is never forgotten: as long as somebody waits,
  there are at least as many woken tasks as free units.\<close>

definition sem_inv :: "nat \<Rightarrow> sem \<Rightarrow> bool" where
  "sem_inv n s \<longleftrightarrow> mval s \<ge> 0 \<and> mval s + int (length (holders s)) = int n \<and>
     (mwait s \<noteq> [] \<longrightarrow> mval s \<le> int (length (mwoken s)))"

lemma length_remove1_mem: "x \<in> set xs \<Longrightarrow> int (length (remove1 x xs)) = int (length xs) - 1"
  by (induction xs) (auto simp: length_remove1)

lemma sem_inv_take:
  assumes "mval s \<ge> 0" "mval s + int (length (holders s)) = int n"
    "mwait s \<noteq> [] \<Longrightarrow> mval s \<le> int (length (mwoken s)) + 1"
  shows "sem_inv n (sem_take t s)"
  using assms by (auto simp: sem_take_def sem_inv_def mon_wait_def)

lemma sem_inv_step: "sem_inv n s \<Longrightarrow> sem_inv n (sem_step e s)"
proof (cases e)
  case (EvWait t)
  assume "sem_inv n s"
  then show ?thesis using EvWait sem_inv_take [of s n t] by (auto simp: Semaphore_Wait_def sem_inv_def)
next
  case (EvTry t)
  assume "sem_inv n s"
  then show ?thesis using EvTry by (auto simp: Semaphore_TryWait_def sem_inv_def)
next
  case (EvSignal t)
  assume "sem_inv n s"
  then show ?thesis using EvSignal
    by (auto simp: Semaphore_Signal_def mon_notify_one_def sem_inv_def length_remove1_mem split: list.split)
next
  case (EvResume t)
  assume inv: "sem_inv n s"
  show ?thesis
  proof (cases "t \<in> set (mwoken s)")
    case True
    then show ?thesis using inv EvResume sem_inv_take [of "s\<lparr>mwoken := remove1 t (mwoken s)\<rparr>" n t]
      by (simp add: Semaphore_resume_def sem_inv_def length_remove1_mem)
  next
    case False
    then show ?thesis using inv EvResume by simp
  qed
qed

lemma sem_inv_new: "sem_inv n (new_Semaphore n)"
  by (simp add: sem_inv_def new_Semaphore_def)

interpretation semaphore: invariant_system "\<lambda>s. s = new_Semaphore n" "\<lambda>s s'. \<exists>e. s' = sem_step e s" "sem_inv n" for n
  by unfold_locales (auto intro: sem_inv_new sem_inv_step)

text \<open>C28. The mutex excludes and forgets nobody: in every execution at most one task holds it, and if
  tasks wait and none has been woken, then some task holds it, whose unlock will wake the first
  of them. In general a semaphore hands out exactly its size.\<close>

theorem Mutex_exclusion:
  fixes es
  defines "s \<equiv> sem_run es new_Mutex"
  shows "length (holders s) \<le> 1 \<and> Semaphore_GetCount s = 1 - int (length (holders s)) \<and>
    (mwait s \<noteq> [] \<and> mwoken s = [] \<longrightarrow> length (holders s) = 1)"
proof -
  have "sem_inv 1 s" unfolding s_def new_Mutex_def sem_run_def by (rule semaphore.reachable_inv [OF refl fold_reachable])
  then show ?thesis by (auto simp: sem_inv_def Semaphore_GetCount_def)
qed

theorem Mutex_exclusion_witness:
  "holders (sem_run [EvWait 1, EvWait 2, EvSignal 1, EvWait 3, EvResume 2] new_Mutex) = [3] \<and>
   mwait (sem_run [EvWait 1, EvWait 2, EvSignal 1, EvWait 3, EvResume 2] new_Mutex) = [2] \<and>
   Semaphore_GetCount (sem_run [EvWait 1, EvWait 2, EvSignal 1, EvWait 3, EvResume 2] new_Mutex) = 0"
proof -
  let ?s = "sem_run [EvWait 1, EvWait 2, EvSignal 1, EvWait 3, EvResume 2] new_Mutex"
  have "holders ?s = [3]" "mwait ?s = [2]" by code_simp+
  then show ?thesis using Mutex_exclusion [of "[EvWait 1, EvWait 2, EvSignal 1, EvWait 3, EvResume 2]"] by simp
qed

section \<open>Wait group\<close>

text \<open>The counter is uninitialised in the code: its first value is an argument.\<close>

type_synonym wait_group = "int monitor"

definition new_WaitGroup :: "int \<Rightarrow> wait_group" where
  "new_WaitGroup c0 = \<lparr>mval = c0, mwait = [], mwoken = []\<rparr>"

definition WaitGroup_Add :: "int \<Rightarrow> wait_group \<Rightarrow> wait_group" where
  "WaitGroup_Add incr g = g\<lparr>mval := mval g + incr\<rparr>"

definition WaitGroup_Done :: "wait_group \<Rightarrow> wait_group" where
  "WaitGroup_Done g =
     (let g1 = g\<lparr>mval := mval g - 1\<rparr> in if mval g1 \<le> 0 then mon_notify_all g1 else g1)"

text \<open>The loop of \<^verbatim>\<open>Wait\<close>: the flag says that it returns.\<close>

definition WaitGroup_Wait :: "tid \<Rightarrow> wait_group \<Rightarrow> bool \<times> wait_group" where
  "WaitGroup_Wait t g = (if mval g > 0 then (False, mon_wait t g) else (True, g))"

definition WaitGroup_resume :: "tid \<Rightarrow> wait_group \<Rightarrow> bool \<times> wait_group" where
  "WaitGroup_resume t g = WaitGroup_Wait t (g\<lparr>mwoken := remove1 t (mwoken g)\<rparr>)"

datatype wg_event = WgAdd nat | WgDone | WgWait tid | WgResume tid

fun wg_step :: "wg_event \<Rightarrow> wait_group \<Rightarrow> wait_group" where
  "wg_step (WgAdd k) g = WaitGroup_Add (int k) g"
| "wg_step WgDone g = WaitGroup_Done g"
| "wg_step (WgWait t) g = (if idle_task t g then snd (WaitGroup_Wait t g) else g)"
| "wg_step (WgResume t) g = (if List.member (mwoken g) t then snd (WaitGroup_resume t g) else g)"

definition wg_run :: "wg_event list \<Rightarrow> wait_group \<Rightarrow> wait_group" where
  "wg_run es g = fold wg_step es g"

lemma wg_step_no_lost:
  "(mval g \<le> 0 \<longrightarrow> mwait g = []) \<Longrightarrow> (mval (wg_step e g) \<le> 0 \<longrightarrow> mwait (wg_step e g) = [])"
  by (cases e) (auto simp: WaitGroup_Add_def WaitGroup_Done_def WaitGroup_Wait_def WaitGroup_resume_def
      mon_wait_def mon_notify_all_def Let_def)

text \<open>With increments only, nobody is left waiting on a wait group whose counter is zero or less.\<close>

lemma wg_run_no_lost: "mval (wg_run es (new_WaitGroup c0)) \<le> 0 \<longrightarrow> mwait (wg_run es (new_WaitGroup c0)) = []"
proof -
  have "(mval g \<le> 0 \<longrightarrow> mwait g = []) \<Longrightarrow> (mval (fold wg_step es g) \<le> 0 \<longrightarrow> mwait (fold wg_step es g) = [])" for g
    by (induction es arbitrary: g) (simp_all add: wg_step_no_lost)
  then show ?thesis by (simp add: wg_run_def new_WaitGroup_def)
qed

end
