(* ===== verification/Channel.thy ===== *)
theory Channel
  imports Sync
begin

text \<open>
  Channels (\<^verbatim>\<open>include/concurrency/channel.hpp\<close>, \<^verbatim>\<open>channel.tcc\<close>, \<^verbatim>\<open>blocking_iterator.hpp\<close>) as a monitor whose
  value is the queue. An operation is split where other tasks can run: after the test of the
  closed flag, which is made without the lock, and at a wait. \<^verbatim>\<open>close\<close> notifies first and sets the
  flag afterwards, which are two steps as well.
\<close>

section \<open>State and operations\<close>

text \<open>Where a task is inside an operation.\<close>

datatype 'v chan_pc = PushLock 'v | PushWait 'v | PopLock | PopWait | CloseSet

text \<open>The last four fields are records of the execution: the elements that went in and came out,
  what the finished reads gave to whom (\<open>None\<close> when the variable is left alone) and the tasks
  whose write threw.\<close>

record 'v chan = "'v list monitor" +
  cap :: nat
  is_closed :: bool
  pc :: "tid \<Rightarrow> 'v chan_pc option"
  pushed :: "'v list"
  popped :: "'v list"
  got :: "(tid \<times> 'v option) list"
  thrown :: "tid list"

definition new_Channel :: "nat \<Rightarrow> 'v chan" where
  "new_Channel capacity =
     \<lparr>mval = [], mwait = [], mwoken = [], cap = capacity, is_closed = False, pc = (\<lambda>_. None),
      pushed = [], popped = [], got = [], thrown = []\<rparr>"

definition chan_size :: "'v chan \<Rightarrow> nat" where "chan_size ch = length (mval ch)"
definition chan_empty :: "'v chan \<Rightarrow> bool" where "chan_empty ch \<longleftrightarrow> mval ch = []"
definition closed :: "'v chan \<Rightarrow> bool" where "closed ch \<longleftrightarrow> is_closed ch"

definition set_pc :: "tid \<Rightarrow> 'v chan_pc option \<Rightarrow> 'v chan \<Rightarrow> 'v chan" where
  "set_pc t p ch = ch\<lparr>pc := (pc ch)(t := p)\<rparr>"

text \<open>\<^verbatim>\<open>operator>>\<close>: the test of the flag, the end of the operation, the test of the wait's predicate
  (again after each wake-up), and the first test under the lock.\<close>

definition push_enter :: "tid \<Rightarrow> 'v \<Rightarrow> 'v chan \<Rightarrow> 'v chan" where
  "push_enter t v ch = (if closed ch then ch\<lparr>thrown := thrown ch @ [t]\<rparr> else set_pc t (Some (PushLock v)) ch)"

definition push_commit :: "tid \<Rightarrow> 'v \<Rightarrow> 'v chan \<Rightarrow> 'v chan" where
  "push_commit t v ch =
     mon_notify_one (set_pc t None (ch\<lparr>mval := mval ch @ [v], pushed := pushed ch @ [v]\<rparr>))"

definition push_test :: "tid \<Rightarrow> 'v \<Rightarrow> 'v chan \<Rightarrow> 'v chan" where
  "push_test t v ch =
     (if chan_size ch < cap ch then push_commit t v ch else mon_wait t (set_pc t (Some (PushWait v)) ch))"

definition push_locked :: "tid \<Rightarrow> 'v \<Rightarrow> 'v chan \<Rightarrow> 'v chan" where
  "push_locked t v ch =
     (if 0 < cap ch \<and> chan_size ch = cap ch then push_test t v ch else push_commit t v ch)"

text \<open>\<^verbatim>\<open>operator<<\<close>.\<close>

definition pop_enter :: "tid \<Rightarrow> 'v chan \<Rightarrow> 'v chan" where
  "pop_enter t ch =
     (if closed ch \<and> chan_empty ch then ch\<lparr>got := got ch @ [(t, None)]\<rparr> else set_pc t (Some PopLock) ch)"

definition pop_commit :: "tid \<Rightarrow> 'v chan \<Rightarrow> 'v chan" where
  "pop_commit t ch =
     mon_notify_one (set_pc t None
       (case mval ch of
          [] \<Rightarrow> ch\<lparr>got := got ch @ [(t, None)]\<rparr>
        | v # vs \<Rightarrow> ch\<lparr>mval := vs, popped := popped ch @ [v], got := got ch @ [(t, Some v)]\<rparr>))"

definition pop_test :: "tid \<Rightarrow> 'v chan \<Rightarrow> 'v chan" where
  "pop_test t ch =
     (if 0 < chan_size ch \<or> closed ch then pop_commit t ch else mon_wait t (set_pc t (Some PopWait) ch))"

text \<open>\<^verbatim>\<open>close\<close>.\<close>

definition close_notify :: "tid \<Rightarrow> 'v chan \<Rightarrow> 'v chan" where
  "close_notify t ch = set_pc t (Some CloseSet) (mon_notify_one ch)"

definition close_set :: "tid \<Rightarrow> 'v chan \<Rightarrow> 'v chan" where
  "close_set t ch = set_pc t None (ch\<lparr>is_closed := True\<rparr>)"

text \<open>The iterator: it goes on while this holds, and \<^verbatim>\<open>operator*\<close> reads into a default-constructed
  variable.\<close>

definition iter_differs :: "'v chan \<Rightarrow> bool" where
  "iter_differs ch \<longleftrightarrow> \<not> (closed ch \<and> chan_empty ch)"

definition iter_deref :: "'v \<Rightarrow> 'v option \<Rightarrow> 'v" where
  "iter_deref dflt r = (case r of None \<Rightarrow> dflt | Some v \<Rightarrow> v)"

text \<open>Executions: a task begins an operation when it is in none, and \<open>ChRun t\<close> lets it go on to the
  next point. A waiting task can go on only once it has been woken.\<close>

datatype 'v chan_event = ChPush tid 'v | ChPop tid | ChClose tid | ChRun tid

definition unwoken :: "tid \<Rightarrow> 'v chan \<Rightarrow> 'v chan" where
  "unwoken t ch = ch\<lparr>mwoken := remove1 t (mwoken ch)\<rparr>"

definition chan_go :: "tid \<Rightarrow> 'v chan \<Rightarrow> 'v chan" where
  "chan_go t ch =
     (case pc ch t of
        None \<Rightarrow> ch
      | Some (PushLock v) \<Rightarrow> push_locked t v ch
      | Some (PushWait v) \<Rightarrow> if List.member (mwoken ch) t then push_test t v (unwoken t ch) else ch
      | Some PopLock \<Rightarrow> pop_test t ch
      | Some PopWait \<Rightarrow> if List.member (mwoken ch) t then pop_test t (unwoken t ch) else ch
      | Some CloseSet \<Rightarrow> close_set t ch)"

fun chan_step :: "'v chan_event \<Rightarrow> 'v chan \<Rightarrow> 'v chan" where
  "chan_step (ChPush t v) ch = (if pc ch t = None then push_enter t v ch else ch)"
| "chan_step (ChPop t) ch = (if pc ch t = None then pop_enter t ch else ch)"
| "chan_step (ChClose t) ch = (if pc ch t = None then close_notify t ch else ch)"
| "chan_step (ChRun t) ch = chan_go t ch"

definition chan_run :: "'v chan_event list \<Rightarrow> 'v chan \<Rightarrow> 'v chan" where
  "chan_run es ch = fold chan_step es ch"

section \<open>Invariant\<close>

definition some_of :: "('a \<times> 'v option) list \<Rightarrow> 'v list" where
  "some_of xs = List.map_filter snd xs"

lemma some_of_simps [simp]:
  "some_of [] = []" "some_of (xs @ [(t, Some v)]) = some_of xs @ [v]" "some_of (xs @ [(t, None)]) = some_of xs"
  by (simp_all add: some_of_def map_filter_def)

definition chan_inv :: "nat \<Rightarrow> 'v chan \<Rightarrow> bool" where
  "chan_inv n ch \<longleftrightarrow> pushed ch = popped ch @ mval ch \<and> some_of (got ch) = popped ch \<and> cap ch = n \<and>
     (0 < n \<longrightarrow> length (mval ch) \<le> n)"

lemma chan_inv_frame [simp]:
  "chan_inv n (mon_notify_one ch) = chan_inv n ch" "chan_inv n (mon_wait t ch) = chan_inv n ch"
  "chan_inv n (set_pc t p ch) = chan_inv n ch" "chan_inv n (unwoken t ch) = chan_inv n ch"
  "chan_inv n (ch\<lparr>is_closed := b\<rparr>) = chan_inv n ch" "chan_inv n (ch\<lparr>thrown := ts\<rparr>) = chan_inv n ch"
  by (simp_all add: chan_inv_def mon_notify_one_def mon_wait_def set_pc_def unwoken_def split: list.split)

lemma chan_inv_push_commit:
  "chan_inv n ch \<Longrightarrow> 0 < n \<longrightarrow> length (mval ch) < n \<Longrightarrow> chan_inv n (push_commit t v ch)"
  by (simp add: push_commit_def) (auto simp: chan_inv_def)

lemma chan_inv_pop_commit: "chan_inv n ch \<Longrightarrow> chan_inv n (pop_commit t ch)"
  by (simp add: pop_commit_def) (auto simp: chan_inv_def split: list.split)

lemma chan_inv_push_test: "chan_inv n ch \<Longrightarrow> chan_inv n (push_test t v ch)"
  using chan_inv_push_commit [of n ch t v] by (simp add: push_test_def chan_size_def) (simp add: chan_inv_def)

lemma chan_inv_push_locked: "chan_inv n ch \<Longrightarrow> chan_inv n (push_locked t v ch)"
  using chan_inv_push_test [of n ch t v] chan_inv_push_commit [of n ch t v]
  by (auto simp: push_locked_def chan_size_def chan_inv_def)

lemma chan_inv_pop_test: "chan_inv n ch \<Longrightarrow> chan_inv n (pop_test t ch)"
  by (simp add: pop_test_def chan_inv_pop_commit)

lemma chan_inv_enter:
  "chan_inv n ch \<Longrightarrow> chan_inv n (push_enter t v ch)"
  "chan_inv n ch \<Longrightarrow> chan_inv n (pop_enter t ch)"
  by (simp_all add: push_enter_def pop_enter_def) (simp add: chan_inv_def)

lemmas chan_inv_intros =
  chan_inv_enter chan_inv_push_test chan_inv_push_locked chan_inv_pop_test

lemma chan_inv_step: "chan_inv n ch \<Longrightarrow> chan_inv n (chan_step e ch)"
  by (cases e) (simp_all add: chan_go_def close_notify_def close_set_def chan_inv_intros
      split: option.split chan_pc.split)

lemma chan_inv_new: "chan_inv n (new_Channel n)"
  by (simp add: chan_inv_def new_Channel_def)

interpretation channel: invariant_system "\<lambda>s. s = new_Channel n" "\<lambda>s s'. \<exists>e. s' = chan_step e s" "chan_inv n" for n
  by unfold_locales (auto intro: chan_inv_new chan_inv_step)

section \<open>Order, capacity, and what can be lost\<close>

text \<open>C29. In every execution of tasks writing to, reading from and closing a channel the elements come
  out in the order in which they went in, each once, and those not yet read are exactly the
  queue; a channel with a positive capacity never holds more than that.\<close>

theorem Channel_fifo:
  fixes es :: "'v chan_event list" and n
  defines "ch \<equiv> chan_run es (new_Channel n)"
  shows "pushed ch = some_of (got ch) @ mval ch \<and> (n = 0 \<or> chan_size ch \<le> n)"
proof -
  have "chan_inv n ch" unfolding ch_def chan_run_def by (rule channel.reachable_inv [OF refl fold_reachable])
  then show ?thesis by (auto simp: chan_inv_def chan_size_def)
qed

lemma chan_run_stuck: "(\<And>t. chan_go t ch = ch) \<Longrightarrow> chan_run (map ChRun ts) ch = ch"
  by (induction ts) (simp_all add: chan_run_def)

text \<open>All waiting tasks, none of them woken: nobody can go on.\<close>

lemma chan_go_asleep:
  assumes "mwoken ch = []" "pc ch t \<in> {None, Some PopWait} \<union> range (\<lambda>v. Some (PushWait v))"
  shows "chan_go t ch = ch"
  using assms by (auto simp: chan_go_def)

text \<open>C30. Writers and readers wait on the same condition variable and each operation notifies one task,
  so a wake-up can go to a task that cannot use it. With capacity one, after this execution the
  queue holds an element, task 5 waits to read, task 3 waits to write, and no task can go on.\<close>

theorem Channel_deadlock:
  "let ch = chan_run
       [ChPush 1 7, ChRun 1, ChPush 2 8, ChRun 2, ChPush 3 9, ChRun 3, ChPop 4, ChRun 4, ChPop 5, ChRun 5, ChRun 2, ChRun 3]
       (new_Channel 1 :: nat chan)
   in mval ch = [8] \<and> got ch = [(4, Some 7)] \<and> pc ch 5 = Some PopWait \<and> pc ch 3 = Some (PushWait 9) \<and>
      (\<forall>ts. chan_run (map ChRun ts) ch = ch)"
proof -
  let ?ch = "chan_run
       [ChPush 1 7, ChRun 1, ChPush 2 8, ChRun 2, ChPush 3 9, ChRun 3, ChPop 4, ChRun 4, ChPop 5, ChRun 5, ChRun 2, ChRun 3]
       (new_Channel 1 :: nat chan)"
  note defs = chan_run_def chan_go_def push_enter_def push_locked_def push_test_def push_commit_def pop_enter_def
    pop_test_def pop_commit_def mon_notify_one_def mon_wait_def set_pc_def unwoken_def new_Channel_def closed_def
    chan_empty_def chan_size_def
  have pcs: "pc ?ch = (\<lambda>_. None)(5 := Some PopWait, 3 := Some (PushWait 9))" and w: "mwoken ?ch = []"
    and q: "mval ?ch = [8]" "got ?ch = [(4, Some 7)]"
    by (simp_all add: defs fun_eq_iff)
  have "chan_go t ?ch = ?ch" for t using w pcs by (intro chan_go_asleep) auto
  then have "chan_run (map ChRun ts) ?ch = ?ch" for ts by (rule chan_run_stuck)
  with pcs q show ?thesis by (simp add: Let_def)
qed

text \<open>\<^verbatim>\<open>close\<close> notifies before it sets the flag: a reader that runs in between goes back to waiting,
  and when the flag is set nobody wakes it. It waits for ever on a closed, empty channel.\<close>

lemma Channel_close_lost:
  "let ch = chan_run [ChPop 1, ChRun 1, ChClose 2, ChRun 1, ChRun 2] (new_Channel 0 :: nat chan)
   in closed ch \<and> chan_empty ch \<and> pc ch 1 = Some PopWait \<and> (\<forall>ts. chan_run (map ChRun ts) ch = ch)"
proof -
  let ?ch = "chan_run [ChPop 1, ChRun 1, ChClose 2, ChRun 1, ChRun 2] (new_Channel 0 :: nat chan)"
  note defs = chan_run_def chan_go_def pop_enter_def pop_test_def close_notify_def close_set_def
    mon_notify_one_def mon_wait_def set_pc_def unwoken_def new_Channel_def closed_def chan_empty_def chan_size_def
  have pcs: "pc ?ch = (\<lambda>_. None)(1 := Some PopWait)" and w: "mwoken ?ch = []" and c: "closed ?ch" "chan_empty ?ch"
    by (simp_all add: defs fun_eq_iff)
  have "chan_go t ?ch = ?ch" for t using w pcs by (intro chan_go_asleep) auto
  then have "chan_run (map ChRun ts) ?ch = ?ch" for ts by (rule chan_run_stuck)
  with pcs c show ?thesis by (simp add: Let_def)
qed

end
