(* ===== verification/Future.thy ===== *)
theory Future
  imports Sync
begin

text \<open>
  Futures and promises (\<^verbatim>\<open>include/concurrency/future.hpp\<close>). The shared states live in a store and are
  named by their position; the closures of the code (continuations, callbacks, tasks handed to
  the executor) are data, applied by the definitions below. Each operation on a shared state is
  one critical section; a callback that the code calls after unlocking is put into \<open>jobs\<close>, as is
  a task given to the executor or to the time watcher, and other threads may run before it.
  User-supplied functions are arguments.
\<close>

section \<open>Data\<close>

datatype future_status = FsReady | FsTimeout

datatype timeout_state = NotSet | Expired | ResultSet

datatype errc = BrokenPromise | FutureAlreadyRetrieved | PromiseAlreadySatisfied | NoState

fun errc_string :: "errc \<Rightarrow> string" where
  "errc_string BrokenPromise = ''broken_promise''"
| "errc_string FutureAlreadyRetrieved = ''future_already_retrieved''"
| "errc_string PromiseAlreadySatisfied = ''promise_already_satisfied''"
| "errc_string NoState = ''no_state''"

datatype exn = FutureError errc | UserExn nat | JsonTypeError

definition what :: "exn \<Rightarrow> string" where
  "what e = (case e of FutureError c \<Rightarrow> errc_string c | _ \<Rightarrow> [])"

text \<open>What a future can hold: a default-constructed object, \<^verbatim>\<open>unit\<close>, user data, the vector of
  \<^verbatim>\<open>when_all\<close>, the index and the vector of \<^verbatim>\<open>when_any\<close>. Vectors hold futures, named by their states.\<close>

datatype 'a fval = FNone | FUnit | FDat 'a | FAll "nat list" | FAny nat "nat list"

type_synonym 'a fres = "exn + 'a fval"

text \<open>What \<^verbatim>\<open>then\<close> is given: a user function that returns a value or a future, the lambda that
  forwards an inner future, and the lambdas of \<^verbatim>\<open>when_all\<close> and \<^verbatim>\<open>when_any\<close>. They run in place or in a
  new batch task.\<close>

datatype cont = User nat | UserF nat | Forward nat | AllElem nat nat | AnyElem nat nat

datatype executor = Inline | Batch StackTraits

datatype callback = ThenCb cont nat executor | TimeoutCb nat

record 'a shared_state = "bool monitor" +
  executed :: bool
  exception_ptr :: "exn option"
  fvalue :: "'a fval"
  cb :: "callback option"
  timeout_st :: timeout_state

datatype job =
    RunCb nat
  | ThenTask StackTraits cont nat nat nat
  | AsyncTask StackTraits nat nat
  | FireTimer nat nat exn

record all_ctx =
  all_total :: nat
  ready_futures :: nat
  all_result :: "nat list"
  all_p :: nat
  all_todo :: "nat list"

record any_ctx =
  any_total :: nat
  processed :: nat
  any_index :: nat
  sequence :: "nat list"
  any_ready :: bool
  result_moved :: bool
  any_p :: nat
  any_todo :: "nat list"

text \<open>\<open>ran\<close> records the states whose callback has been called.\<close>

record 'a fstore =
  states :: "'a shared_state list"
  alls :: "all_ctx list"
  anys :: "any_ctx list"
  jobs :: "job list"
  ran :: "nat list"

text \<open>User functions, and what is left in a moved-from object. A function that returns a future is
  also given the number of states, since the future it returns, if not null, is one of them.\<close>

record 'a fenv =
  user :: "nat \<Rightarrow> 'a fres \<Rightarrow> 'a fres"
  userF :: "nat \<Rightarrow> 'a fres \<Rightarrow> nat \<Rightarrow> exn + nat option"
  callable :: "nat \<Rightarrow> 'a fres"
  movedDat :: "'a \<Rightarrow> 'a"

fun moved :: "'a fenv \<Rightarrow> 'a fval \<Rightarrow> 'a fval" where
  "moved env (FDat x) = FDat (movedDat env x)"
| "moved env (FAll _) = FAll []"
| "moved env (FAny i _) = FAny i []"
| "moved env v = v"

section \<open>Shared states\<close>

definition new_shared_state :: "'a shared_state" where
  "new_shared_state =
     \<lparr>mval = False, mwait = [], mwoken = [], executed = False, exception_ptr = None, fvalue = FNone,
      cb = None, timeout_st = NotSet\<rparr>"

abbreviation st_at :: "'a fstore \<Rightarrow> nat \<Rightarrow> 'a shared_state" where
  "st_at st s \<equiv> states st ! s"

definition upd_st :: "nat \<Rightarrow> ('a shared_state \<Rightarrow> 'a shared_state) \<Rightarrow> 'a fstore \<Rightarrow> 'a fstore" where
  "upd_st s f st = st\<lparr>states := (states st)[s := f (st_at st s)]\<rparr>"

definition add_job :: "job \<Rightarrow> 'a fstore \<Rightarrow> 'a fstore" where
  "add_job j st = st\<lparr>jobs := jobs st @ [j]\<rparr>"

text \<open>The common end of \<^verbatim>\<open>set_ready\<close> and \<^verbatim>\<open>set_callback\<close>: mark the callback as executed, unlock, call it.\<close>

definition launch :: "nat \<Rightarrow> 'a fstore \<Rightarrow> 'a fstore" where
  "launch s st = add_job (RunCb s) (upd_st s (\<lambda>x. x\<lparr>executed := True\<rparr>) st)"

definition set_ready :: "nat \<Rightarrow> 'a fstore \<Rightarrow> 'a fstore" where
  "set_ready s st =
     (let st1 = upd_st s (\<lambda>x. mon_notify_all (x\<lparr>mval := True\<rparr>)) st in
      if cb (st_at st1 s) = None then st1
      else if executed (st_at st1 s) then st1
      else launch s st1)"

definition is_ready :: "nat \<Rightarrow> 'a fstore \<Rightarrow> bool" where
  "is_ready s st = mval (st_at st s)"

definition has_exception :: "nat \<Rightarrow> 'a fstore \<Rightarrow> bool" where
  "has_exception s st \<longleftrightarrow> exception_ptr (st_at st s) \<noteq> None"

definition get_exception :: "nat \<Rightarrow> 'a fstore \<Rightarrow> exn option" where
  "get_exception s st = exception_ptr (st_at st s)"

definition set_exception :: "nat \<Rightarrow> exn \<Rightarrow> 'a fstore \<Rightarrow> 'a fres \<times> 'a fstore" where
  "set_exception s e st =
     (if mval (st_at st s) then (Inl (FutureError PromiseAlreadySatisfied), st)
      else (Inr FUnit, set_ready s (upd_st s (\<lambda>x. x\<lparr>exception_ptr := Some e\<rparr>) st)))"

definition set_value :: "nat \<Rightarrow> 'a fval \<Rightarrow> 'a fstore \<Rightarrow> 'a fres \<times> 'a fstore" where
  "set_value s v st =
     (if mval (st_at st s) then (Inl (FutureError PromiseAlreadySatisfied), st)
      else (Inr FUnit, set_ready s (upd_st s (\<lambda>x. x\<lparr>fvalue := v\<rparr>) st)))"

definition abandon :: "nat \<Rightarrow> 'a fstore \<Rightarrow> 'a fstore" where
  "abandon s st =
     (if mval (st_at st s) then st
      else set_ready s (upd_st s (\<lambda>x. x\<lparr>exception_ptr := Some (FutureError BrokenPromise)\<rparr>) st))"

text \<open>A replaced callback that has not been called is destroyed with the promise it owns.\<close>

definition drop_cb :: "'a shared_state \<Rightarrow> 'a fstore \<Rightarrow> 'a fstore" where
  "drop_cb old st =
     (case cb old of Some (ThenCb _ q _) \<Rightarrow> if executed old then st else abandon q st | _ \<Rightarrow> st)"

definition set_callback :: "nat \<Rightarrow> callback \<Rightarrow> 'a fstore \<Rightarrow> 'a fstore" where
  "set_callback s c st =
     (let st1 = drop_cb (st_at st s) (upd_st s (\<lambda>x. x\<lparr>cb := Some c\<rparr>) st) in
      if mval (st_at st1 s) \<and> \<not> executed (st_at st1 s) then launch s st1 else st1)"

text \<open>\<^verbatim>\<open>get_value\<close> after its wait: the exception is thrown again, or the value is moved out.\<close>

definition content :: "'a shared_state \<Rightarrow> 'a fres" where
  "content x = (case exception_ptr x of Some e \<Rightarrow> Inl e | None \<Rightarrow> Inr (fvalue x))"

definition take_value :: "'a fenv \<Rightarrow> nat \<Rightarrow> 'a fstore \<Rightarrow> 'a fres \<times> 'a fstore" where
  "take_value env s st =
     (content (st_at st s),
      if has_exception s st then st else upd_st s (\<lambda>x. x\<lparr>fvalue := moved env (fvalue x)\<rparr>) st)"

text \<open>\<^verbatim>\<open>wait\<close> and \<^verbatim>\<open>get_value\<close> up to the point where the task waits (\<open>None\<close>) or to the end. A woken task
  calls them again.\<close>

definition fut_wait :: "tid \<Rightarrow> nat \<Rightarrow> 'a fstore \<Rightarrow> bool \<times> 'a fstore" where
  "fut_wait t s st = (if mval (st_at st s) then (True, st) else (False, upd_st s (mon_wait t) st))"

definition get_value :: "'a fenv \<Rightarrow> tid \<Rightarrow> nat \<Rightarrow> 'a fstore \<Rightarrow> 'a fres option \<times> 'a fstore" where
  "get_value env t s st =
     (case fut_wait t s st of
        (True, st1) \<Rightarrow> (case take_value env s st1 of (r, st2) \<Rightarrow> (Some r, st2))
      | (False, st1) \<Rightarrow> (None, st1))"

text \<open>The result of the timed waits.\<close>

definition wait_result :: "nat \<Rightarrow> 'a fstore \<Rightarrow> future_status" where
  "wait_result s st = (if mval (st_at st s) then FsReady else FsTimeout)"

section \<open>Promises and futures\<close>

text \<open>An object of either class is a pointer to a state, null after a move.\<close>

definition check_state :: "nat option \<Rightarrow> exn + nat" where
  "check_state p = (case p of None \<Rightarrow> Inl (FutureError NoState) | Some s \<Rightarrow> Inr s)"

definition new_promise :: "'a fstore \<Rightarrow> nat \<times> 'a fstore" where
  "new_promise st = (length (states st), st\<lparr>states := states st @ [new_shared_state]\<rparr>)"

definition move_ptr :: "nat option \<Rightarrow> nat option \<times> nat option" where
  "move_ptr other = (other, None)"

definition destroy_promise :: "nat option \<Rightarrow> 'a fstore \<Rightarrow> 'a fstore" where
  "destroy_promise p st = (case p of None \<Rightarrow> st | Some s \<Rightarrow> abandon s st)"

definition promise_set_value :: "nat option \<Rightarrow> 'a fval \<Rightarrow> 'a fstore \<Rightarrow> 'a fres \<times> 'a fstore" where
  "promise_set_value p v st = (case check_state p of Inl e \<Rightarrow> (Inl e, st) | Inr s \<Rightarrow> set_value s v st)"

definition promise_set_exception :: "nat option \<Rightarrow> exn \<Rightarrow> 'a fstore \<Rightarrow> 'a fres \<times> 'a fstore" where
  "promise_set_exception p e st = (case check_state p of Inl x \<Rightarrow> (Inl x, st) | Inr s \<Rightarrow> set_exception s e st)"

definition get_future :: "nat option \<Rightarrow> nat \<Rightarrow> exn + nat" where
  "get_future p use_count =
     (case check_state p of
        Inl e \<Rightarrow> Inl e
      | Inr s \<Rightarrow> if use_count > 1 then Inl (FutureError FutureAlreadyRetrieved) else Inr s)"

definition future_get ::
  "'a fenv \<Rightarrow> tid \<Rightarrow> nat option \<Rightarrow> 'a fstore \<Rightarrow> 'a fres option \<times> 'a fstore" where
  "future_get env t f st =
     (case check_state f of Inl e \<Rightarrow> (Some (Inl e), st) | Inr s \<Rightarrow> get_value env t s st)"

definition future_is_ready :: "nat option \<Rightarrow> 'a fstore \<Rightarrow> exn + bool" where
  "future_is_ready f st = (case check_state f of Inl e \<Rightarrow> Inl e | Inr s \<Rightarrow> Inr (is_ready s st))"

definition make_ready_future :: "'a fval \<Rightarrow> 'a fstore \<Rightarrow> nat \<times> 'a fstore" where
  "make_ready_future v st = (case new_promise st of (s, st1) \<Rightarrow> (s, snd (set_value s v st1)))"

definition make_exceptional_future :: "exn \<Rightarrow> 'a fstore \<Rightarrow> nat \<times> 'a fstore" where
  "make_exceptional_future e st = (case new_promise st of (s, st1) \<Rightarrow> (s, snd (set_exception s e st1)))"

text \<open>All forms of \<^verbatim>\<open>then\<close>: a new promise, whose future is returned, and a callback that owns it.\<close>

definition then_impl :: "nat \<Rightarrow> cont \<Rightarrow> executor \<Rightarrow> 'a fstore \<Rightarrow> nat \<times> 'a fstore" where
  "then_impl s c ex st = (case new_promise st of (q, st1) \<Rightarrow> (q, set_callback s (ThenCb c q ex) st1))"

definition future_then :: "nat option \<Rightarrow> cont \<Rightarrow> executor \<Rightarrow> 'a fstore \<Rightarrow> (exn + nat) \<times> 'a fstore" where
  "future_then f c ex st =
     (case check_state f of
        Inl e \<Rightarrow> (Inl e, st)
      | Inr s \<Rightarrow> (case then_impl s c ex st of (q, st1) \<Rightarrow> (Inr q, st1)))"

definition future_timeout :: "nat \<Rightarrow> exn \<Rightarrow> 'a fstore \<Rightarrow> nat \<times> 'a fstore" where
  "future_timeout s e st =
     (case new_promise st of (q, st1) \<Rightarrow> (q, set_callback s (TimeoutCb q) (add_job (FireTimer q s e) st1)))"

definition async :: "StackTraits \<Rightarrow> nat \<Rightarrow> 'a fstore \<Rightarrow> nat \<times> 'a fstore" where
  "async tr k st = (case new_promise st of (q, st1) \<Rightarrow> (q, add_job (AsyncTask tr k q) st1))"

section \<open>Continuations and jobs\<close>

text \<open>\<^verbatim>\<open>try { p.set_value(r); } catch (...) { p.set_exception(...); }\<close>: what escapes is the result.\<close>

definition fulfil :: "nat \<Rightarrow> 'a fres \<Rightarrow> 'a fstore \<Rightarrow> 'a fres \<times> 'a fstore" where
  "fulfil p r st =
     (case r of
        Inl e \<Rightarrow> set_exception p e st
      | Inr v \<Rightarrow>
          (case set_value p v st of (Inl e, st1) \<Rightarrow> set_exception p e st1 | (Inr u, st1) \<Rightarrow> (Inr u, st1)))"

text \<open>The element lambdas of \<^verbatim>\<open>when_all\<close> and \<^verbatim>\<open>when_any\<close>, under the context's mutex.\<close>

definition all_publish :: "nat \<Rightarrow> all_ctx \<Rightarrow> 'a fstore \<Rightarrow> 'a fres \<times> 'a fstore" where
  "all_publish c x st =
     (case set_value (all_p x) (FAll (all_result x)) st of
        (Inl e, st1) \<Rightarrow> (Inl e, st1\<lparr>alls := (alls st1)[c := x]\<rparr>)
      | (Inr _, st1) \<Rightarrow> (Inr FUnit, st1\<lparr>alls := (alls st1)[c := x\<lparr>all_result := []\<rparr>]\<rparr>))"

definition all_elem :: "nat \<Rightarrow> nat \<Rightarrow> nat \<Rightarrow> 'a fstore \<Rightarrow> 'a fres \<times> 'a fstore" where
  "all_elem c i f st =
     (let x = alls st ! c;
          x1 = x\<lparr>all_result := (all_result x)[i := f], ready_futures := Suc (ready_futures x)\<rparr> in
      if ready_futures x1 = all_total x1 then all_publish c x1 st
      else (Inr FUnit, st\<lparr>alls := (alls st)[c := x1]\<rparr>))"

definition any_publish :: "nat \<Rightarrow> any_ctx \<Rightarrow> 'a fstore \<Rightarrow> 'a fres \<times> 'a fstore" where
  "any_publish c x st =
     (case set_value (any_p x) (FAny (any_index x) (sequence x)) st of
        (Inl e, st1) \<Rightarrow> (Inl e, st1\<lparr>anys := (anys st1)[c := x]\<rparr>)
      | (Inr _, st1) \<Rightarrow> (Inr FUnit, st1\<lparr>anys := (anys st1)[c := x\<lparr>sequence := [], result_moved := True\<rparr>]\<rparr>))"

definition any_elem :: "nat \<Rightarrow> nat \<Rightarrow> nat \<Rightarrow> 'a fstore \<Rightarrow> 'a fres \<times> 'a fstore" where
  "any_elem c i f st =
     (let x = anys st ! c in
      if any_ready x then (Inr FUnit, st)
      else
        (let x1 = x\<lparr>any_index := i, any_ready := True, sequence := (sequence x)[i := f]\<rparr> in
         if processed x1 = any_total x1 \<and> \<not> result_moved x1 then any_publish c x1 st
         else (Inr FUnit, st\<lparr>anys := (anys st)[c := x1]\<rparr>)))"

text \<open>A continuation that returns a value, applied to the ready future with state \<open>arg\<close>; those that
  return a future are treated in \<open>then_body\<close>.\<close>

definition apply_cont :: "'a fenv \<Rightarrow> cont \<Rightarrow> nat \<Rightarrow> 'a fstore \<Rightarrow> 'a fres \<times> 'a fstore" where
  "apply_cont env c arg st =
     (case c of
        User k \<Rightarrow> (user env k (content (st_at st arg)), st)
      | UserF k \<Rightarrow> (Inr FUnit, st)
      | Forward p \<Rightarrow>
          (case take_value env arg st of (r, st1) \<Rightarrow>
             (case fulfil p r st1 of (Inl e, st2) \<Rightarrow> (Inl e, st2) | (Inr _, st2) \<Rightarrow> (Inr FUnit, st2)))
      | AllElem x i \<Rightarrow> all_elem x i arg st
      | AnyElem x i \<Rightarrow> any_elem x i arg st)"

definition default_traits :: StackTraits where
  "default_traits = StackTraits_ux_ssz_cs True 0 True"

definition inner_executor :: "executor \<Rightarrow> executor" where
  "inner_executor ex = (case ex of Inline \<Rightarrow> Inline | Batch _ \<Rightarrow> Batch default_traits)"

text \<open>The overloads of \<^verbatim>\<open>then_impl\<close>: the function returns a future or a value, and is called in place,
  in a batch task with the default stack, or in one with the given stack.\<close>

definition then_impl_future :: "nat \<Rightarrow> nat \<Rightarrow> 'a fstore \<Rightarrow> nat \<times> 'a fstore" where
  "then_impl_future s k st = then_impl s (UserF k) Inline st"

definition then_impl_value :: "nat \<Rightarrow> nat \<Rightarrow> 'a fstore \<Rightarrow> nat \<times> 'a fstore" where
  "then_impl_value s k st = then_impl s (User k) Inline st"

definition then_impl_future_executor :: "nat \<Rightarrow> nat \<Rightarrow> 'a fstore \<Rightarrow> nat \<times> 'a fstore" where
  "then_impl_future_executor s k st = then_impl s (UserF k) (Batch default_traits) st"

definition then_impl_value_executor :: "nat \<Rightarrow> nat \<Rightarrow> 'a fstore \<Rightarrow> nat \<times> 'a fstore" where
  "then_impl_value_executor s k st = then_impl s (User k) (Batch default_traits) st"

definition then_impl_future_traits :: "StackTraits \<Rightarrow> nat \<Rightarrow> nat \<Rightarrow> 'a fstore \<Rightarrow> nat \<times> 'a fstore" where
  "then_impl_future_traits tr s k st = then_impl s (UserF k) (Batch tr) st"

definition then_impl_value_traits :: "StackTraits \<Rightarrow> nat \<Rightarrow> nat \<Rightarrow> 'a fstore \<Rightarrow> nat \<times> 'a fstore" where
  "then_impl_value_traits tr s k st = then_impl s (User k) (Batch tr) st"

definition async_default :: "nat \<Rightarrow> 'a fstore \<Rightarrow> nat \<times> 'a fstore" where
  "async_default k st = async default_traits k st"

text \<open>The body of a \<^verbatim>\<open>then\<close> callback, in place or in its batch task: for a function that returns a
  future the promise is forwarded from the inner future; otherwise the promise gets the
  exception of the source, if it has one, else the function's result.\<close>

definition then_body :: "'a fenv \<Rightarrow> cont \<Rightarrow> executor \<Rightarrow> nat \<Rightarrow> nat \<Rightarrow> nat \<Rightarrow> 'a fstore \<Rightarrow> 'a fres \<times> 'a fstore" where
  "then_body env c ex arg p s st =
     (case c of
        UserF k \<Rightarrow>
          (case userF env k (content (st_at st arg)) (length (states st)) of
             Inl e \<Rightarrow> set_exception p e st
           | Inr inner \<Rightarrow>
               (case future_then inner (Forward p) (inner_executor ex) st of
                  (Inl e, st1) \<Rightarrow> set_exception p e st1
                | (Inr _, st1) \<Rightarrow> (Inr FUnit, st1)))
      | _ \<Rightarrow>
          (case apply_cont env c arg st of
             (Inl e, st1) \<Rightarrow> set_exception p e st1
           | (Inr v, st1) \<Rightarrow> fulfil p (case get_exception s st1 of Some e \<Rightarrow> Inl e | None \<Rightarrow> Inr v) st1))"

definition make_arg :: "'a fenv \<Rightarrow> nat \<Rightarrow> 'a fstore \<Rightarrow> nat \<times> 'a fstore" where
  "make_arg env s st =
     (case take_value env s st of
        (Inl e, st1) \<Rightarrow> make_exceptional_future e st1
      | (Inr v, st1) \<Rightarrow> make_ready_future v st1)"

definition fire_timer :: "nat \<Rightarrow> nat \<Rightarrow> exn \<Rightarrow> 'a fstore \<Rightarrow> 'a fres \<times> 'a fstore" where
  "fire_timer p s e st =
     (if timeout_st (st_at st s) = ResultSet then (Inr FUnit, st)
      else set_exception p e (upd_st s (\<lambda>x. x\<lparr>timeout_st := Expired\<rparr>) st))"

definition timeout_result :: "'a fenv \<Rightarrow> nat \<Rightarrow> nat \<Rightarrow> 'a fstore \<Rightarrow> 'a fres \<times> 'a fstore" where
  "timeout_result env p s st =
     (if timeout_st (st_at st s) = Expired then (Inr FUnit, st)
      else
        (case take_value env s (upd_st s (\<lambda>x. x\<lparr>timeout_st := ResultSet\<rparr>) st) of
           (Inl e, st1) \<Rightarrow> set_exception p e st1
         | (Inr v, st1) \<Rightarrow> set_value p v st1))"

definition run_cb :: "'a fenv \<Rightarrow> nat \<Rightarrow> 'a fstore \<Rightarrow> 'a fres \<times> 'a fstore" where
  "run_cb env s st =
     (case cb (st_at st s) of
        None \<Rightarrow> (Inr FUnit, st)
      | Some (ThenCb c p ex) \<Rightarrow>
          (case make_arg env s st of (arg, st1) \<Rightarrow>
             (case ex of
                Inline \<Rightarrow> then_body env c ex arg p s st1
              | Batch tr \<Rightarrow> (Inr FUnit, add_job (ThenTask tr c arg p s) st1)))
      | Some (TimeoutCb p) \<Rightarrow> timeout_result env p s st)"

definition run_job :: "'a fenv \<Rightarrow> job \<Rightarrow> 'a fstore \<Rightarrow> 'a fres \<times> 'a fstore" where
  "run_job env j st =
     (case j of
        RunCb s \<Rightarrow> run_cb env s (st\<lparr>ran := ran st @ [s]\<rparr>)
      | ThenTask tr c arg p s \<Rightarrow> then_body env c (Batch tr) arg p s st
      | AsyncTask tr k p \<Rightarrow> fulfil p (callable env k) st
      | FireTimer p s e \<Rightarrow> fire_timer p s e st)"

section \<open>Combinators\<close>

text \<open>\<^verbatim>\<open>when_all\<close> and \<^verbatim>\<open>when_any\<close> register their lambdas in a loop that other threads can interleave
  with; the futures still to be treated are kept in the context. With no futures the context
  dies with the call, and with it the promise.\<close>

definition when_all_begin :: "nat list \<Rightarrow> 'a fstore \<Rightarrow> nat \<times> 'a fstore" where
  "when_all_begin fs st =
     (case new_promise st of (p, st1) \<Rightarrow>
        (p, (if fs = [] then abandon p else id)
          (st1\<lparr>alls := alls st1 @ [\<lparr>all_total = length fs, ready_futures = 0, all_result = [], all_p = p, all_todo = fs\<rparr>]\<rparr>)))"

definition when_all_iter :: "nat \<Rightarrow> 'a fstore \<Rightarrow> 'a fstore" where
  "when_all_iter c st =
     (let x = alls st ! c in
      case all_todo x of
        [] \<Rightarrow> st
      | f # fs \<Rightarrow>
          snd (then_impl f (AllElem c (length (all_result x))) Inline
            (st\<lparr>alls := (alls st)[c := x\<lparr>all_result := all_result x @ [f], all_todo := fs\<rparr>]\<rparr>)))"

definition when_any_begin :: "nat list \<Rightarrow> 'a fstore \<Rightarrow> nat \<times> 'a fstore" where
  "when_any_begin fs st =
     (case new_promise st of (p, st1) \<Rightarrow>
        (p, (if fs = [] then abandon p else id)
          (st1\<lparr>anys := anys st1 @ [\<lparr>any_total = length fs, processed = 0, any_index = 0, sequence = fs, any_ready = False,
                 result_moved = False, any_p = p, any_todo = fs\<rparr>]\<rparr>)))"

text \<open>One round of the loop is two steps: \<^verbatim>\<open>then\<close>, and the increment of \<^verbatim>\<open>processed\<close>.\<close>

definition when_any_iter :: "nat \<Rightarrow> 'a fstore \<Rightarrow> 'a fstore" where
  "when_any_iter c st =
     (let x = anys st ! c; i = any_total x - length (any_todo x) in
      if any_todo x = [] \<or> processed x < i then st
      else snd (then_impl (hd (any_todo x)) (AnyElem c i) Inline
             (st\<lparr>anys := (anys st)[c := x\<lparr>any_todo := tl (any_todo x)\<rparr>]\<rparr>)))"

definition when_any_count :: "nat \<Rightarrow> 'a fstore \<Rightarrow> 'a fstore" where
  "when_any_count c st =
     (let x = anys st ! c in
      if processed x < any_total x - length (any_todo x)
      then st\<lparr>anys := (anys st)[c := x\<lparr>processed := Suc (processed x)\<rparr>]\<rparr> else st)"

definition when_any_final :: "nat \<Rightarrow> 'a fstore \<Rightarrow> 'a fres \<times> 'a fstore" where
  "when_any_final c st =
     (let x = anys st ! c in
      if any_ready x \<and> \<not> result_moved x then any_publish c x st else (Inr FUnit, st))"

text \<open>The variadic overloads: the recursion over the arguments takes the same steps. A position of the
  result tuple holds a null future until it is reached and is not read before. The calls below are
  those of a thread that nobody interferes with.\<close>

fun apply_helper :: "nat \<Rightarrow> nat \<Rightarrow> 'a fstore \<Rightarrow> 'a fstore" where
  "apply_helper 0 c st = st"
| "apply_helper (Suc k) c st = apply_helper k c (when_all_iter c st)"

definition when_all_variadic :: "nat list \<Rightarrow> 'a fstore \<Rightarrow> nat \<times> 'a fstore" where
  "when_all_variadic fs st =
     (case when_all_begin fs st of (p, st1) \<Rightarrow> (p, apply_helper (length fs) (length (alls st)) st1))"

fun when_any_helper :: "nat \<Rightarrow> nat \<Rightarrow> 'a fstore \<Rightarrow> 'a fstore" where
  "when_any_helper 0 c st = st"
| "when_any_helper (Suc k) c st = when_any_helper k c (when_any_count c (when_any_iter c st))"

definition when_any_variadic :: "nat list \<Rightarrow> 'a fstore \<Rightarrow> (exn + nat) \<times> 'a fstore" where
  "when_any_variadic fs st =
     (case when_any_begin fs st of (p, st1) \<Rightarrow>
        (case when_any_final (length (anys st)) (when_any_helper (length fs) (length (anys st)) st1) of
           (Inl e, st2) \<Rightarrow> (Inl e, st2) | (Inr _, st2) \<Rightarrow> (Inr p, st2)))"

section \<open>Executions\<close>

text \<open>What threads do with futures, in any order; positions are checked so that only existing
  objects are used. \<open>FeJob i\<close> lets some thread run the pending job number \<open>i\<close>.\<close>

datatype 'a fevent =
    FePromise
  | FeSetValue nat "'a fval"
  | FeSetException nat exn
  | FeDestroy nat
  | FeThen nat cont executor
  | FeTimeout nat exn
  | FeAsync StackTraits nat
  | FeGet tid nat
  | FeWhenAll "nat list"
  | FeAllIter nat
  | FeWhenAny "nat list"
  | FeAnyIter nat
  | FeAnyCount nat
  | FeAnyFinal nat
  | FeJob nat

fun user_cont :: "cont \<Rightarrow> bool" where
  "user_cont (User _) = True"
| "user_cont (UserF _) = True"
| "user_cont _ = False"

fun fstep :: "'a fenv \<Rightarrow> 'a fevent \<Rightarrow> 'a fstore \<Rightarrow> 'a fstore" where
  "fstep env FePromise st = snd (new_promise st)"
| "fstep env (FeSetValue p v) st = (if p < length (states st) then snd (set_value p v st) else st)"
| "fstep env (FeSetException p e) st = (if p < length (states st) then snd (set_exception p e st) else st)"
| "fstep env (FeDestroy p) st = (if p < length (states st) then abandon p st else st)"
| "fstep env (FeThen s c ex) st = (if s < length (states st) \<and> user_cont c then snd (then_impl s c ex st) else st)"
| "fstep env (FeTimeout s e) st = (if s < length (states st) then snd (future_timeout s e st) else st)"
| "fstep env (FeAsync tr k) st = snd (async tr k st)"
| "fstep env (FeGet t s) st = (if s < length (states st) then snd (get_value env t s st) else st)"
| "fstep env (FeWhenAll fs) st = (if list_all (\<lambda>f. f < length (states st)) fs then snd (when_all_begin fs st) else st)"
| "fstep env (FeAllIter c) st = (if c < length (alls st) then when_all_iter c st else st)"
| "fstep env (FeWhenAny fs) st = (if list_all (\<lambda>f. f < length (states st)) fs then snd (when_any_begin fs st) else st)"
| "fstep env (FeAnyIter c) st = (if c < length (anys st) then when_any_iter c st else st)"
| "fstep env (FeAnyCount c) st = (if c < length (anys st) then when_any_count c st else st)"
| "fstep env (FeAnyFinal c) st =
     (if c < length (anys st) \<and> processed (anys st ! c) = any_total (anys st ! c) then snd (when_any_final c st) else st)"
| "fstep env (FeJob i) st =
     (if i < length (jobs st)
      then snd (run_job env (jobs st ! i) (st\<lparr>jobs := take i (jobs st) @ drop (Suc i) (jobs st)\<rparr>)) else st)"

definition frun :: "'a fenv \<Rightarrow> 'a fevent list \<Rightarrow> 'a fstore \<Rightarrow> 'a fstore" where
  "frun env es st = fold (fstep env) es st"

definition new_fstore :: "'a fstore" where
  "new_fstore = \<lparr>states = [], alls = [], anys = [], jobs = [], ran = []\<rparr>"

section \<open>Invariant: every callback runs exactly once\<close>

definition cont_ok :: "'a fstore \<Rightarrow> cont \<Rightarrow> bool" where
  "cont_ok st c = (case c of Forward p \<Rightarrow> p < length (states st) | AllElem x _ \<Rightarrow> x < length (alls st)
     | AnyElem x _ \<Rightarrow> x < length (anys st) | _ \<Rightarrow> True)"

definition cb_ok :: "'a fstore \<Rightarrow> callback \<Rightarrow> bool" where
  "cb_ok st c = (case c of ThenCb k p _ \<Rightarrow> cont_ok st k \<and> p < length (states st) | TimeoutCb p \<Rightarrow> p < length (states st))"

definition job_ok :: "'a fstore \<Rightarrow> job \<Rightarrow> bool" where
  "job_ok st j = (case j of
      RunCb s \<Rightarrow> s < length (states st)
    | ThenTask _ c arg p s \<Rightarrow> cont_ok st c \<and> arg < length (states st) \<and> p < length (states st) \<and> s < length (states st)
    | AsyncTask _ _ p \<Rightarrow> p < length (states st)
    | FireTimer p s _ \<Rightarrow> p < length (states st) \<and> s < length (states st))"

definition fwf :: "'a fstore \<Rightarrow> bool" where
  "fwf st \<longleftrightarrow> (\<forall>s < length (states st). case cb (st_at st s) of None \<Rightarrow> True | Some c \<Rightarrow> cb_ok st c) \<and>
     (\<forall>j \<in> set (jobs st). job_ok st j) \<and> (\<forall>s \<in> set (ran st). s < length (states st)) \<and>
     (\<forall>x \<in> set (alls st). all_p x < length (states st) \<and> (\<forall>f \<in> set (all_todo x). f < length (states st))) \<and>
     (\<forall>x \<in> set (anys st). any_p x < length (states st) \<and> (\<forall>f \<in> set (any_todo x). f < length (states st)))"

text \<open>How often the callback of \<open>s\<close> has been called or is about to be.\<close>

definition calls :: "'a fstore \<Rightarrow> nat \<Rightarrow> nat" where
  "calls st s = count_list (jobs st) (RunCb s) + count_list (ran st) s"

definition st_ok :: "'a fstore \<Rightarrow> nat \<Rightarrow> bool" where
  "st_ok st s \<longleftrightarrow> (executed (st_at st s) \<longleftrightarrow> mval (st_at st s) \<and> cb (st_at st s) \<noteq> None) \<and>
     calls st s = (if executed (st_at st s) then 1 else 0)"

definition finv :: "'a fstore \<Rightarrow> bool" where
  "finv st \<longleftrightarrow> fwf st \<and> (\<forall>s < length (states st). st_ok st s)"

text \<open>Operations never remove states or contexts.\<close>

definition grows :: "'a fstore \<Rightarrow> 'a fstore \<Rightarrow> bool" where
  "grows st st' \<longleftrightarrow> length (states st) \<le> length (states st') \<and> length (alls st) \<le> length (alls st') \<and>
     length (anys st) \<le> length (anys st')"

definition keeps :: "'a fstore \<Rightarrow> 'a fstore \<Rightarrow> bool" where
  "keeps st st' \<longleftrightarrow> grows st st' \<and> (finv st \<longrightarrow> finv st')"

lemma keeps_refl [simp]: "keeps st st" by (simp add: keeps_def grows_def)

lemma keeps_trans: "keeps a b \<Longrightarrow> keeps b c \<Longrightarrow> keeps a c" by (auto simp: keeps_def grows_def)

lemma ok_grows:
  assumes "grows st st'"
  shows "cont_ok st k \<Longrightarrow> cont_ok st' k" "cb_ok st c \<Longrightarrow> cb_ok st' c" "job_ok st j \<Longrightarrow> job_ok st' j"
proof -
  show k: "cont_ok st k \<Longrightarrow> cont_ok st' k" for k
    using assms by (auto simp: cont_ok_def grows_def split: cont.splits)
  show "cb_ok st c \<Longrightarrow> cb_ok st' c" "job_ok st j \<Longrightarrow> job_ok st' j"
    using assms k by (auto simp: cb_ok_def job_ok_def grows_def split: callback.splits job.splits)
qed

lemma upd_st_simps [simp]:
  "length (states (upd_st s f st)) = length (states st)"
  "s < length (states st) \<Longrightarrow> st_at (upd_st s f st) s = f (st_at st s)"
  "u \<noteq> s \<Longrightarrow> st_at (upd_st s f st) u = st_at st u"
  "alls (upd_st s f st) = alls st" "anys (upd_st s f st) = anys st" "jobs (upd_st s f st) = jobs st"
  "ran (upd_st s f st) = ran st" "calls (upd_st s f st) u = calls st u"
  by (simp_all add: upd_st_def calls_def)

lemma add_job_simps [simp]:
  "states (add_job j st) = states st" "alls (add_job j st) = alls st" "anys (add_job j st) = anys st"
  "jobs (add_job j st) = jobs st @ [j]" "ran (add_job j st) = ran st"
  "calls (add_job j st) s = calls st s + (if j = RunCb s then 1 else 0)"
  by (simp_all add: add_job_def calls_def)

lemma mon_simps [simp]:
  "mval (mon_notify_all x) = mval x" "mval (mon_wait t x) = mval x"
  "executed (mon_notify_all y) = executed y" "cb (mon_notify_all y) = cb y"
  "executed (mon_wait t y) = executed y" "cb (mon_wait t y) = cb y"
  "exception_ptr (mon_notify_all y) = exception_ptr y" "fvalue (mon_notify_all y) = fvalue y"
  "timeout_st (mon_notify_all y) = timeout_st y"
  by (simp_all add: mon_notify_all_def mon_wait_def)

text \<open>References stay good when the store grows and the new callbacks and jobs are good.\<close>

lemma fwf_grows:
  assumes "fwf st" "grows st st'"
    and "\<And>s c. s < length (states st') \<Longrightarrow> cb (st_at st' s) = Some c \<Longrightarrow>
      (s < length (states st) \<and> cb (st_at st s) = Some c) \<or> cb_ok st' c"
    and "\<And>j. j \<in> set (jobs st') \<Longrightarrow> j \<in> set (jobs st) \<or> job_ok st' j"
    and "\<And>s. s \<in> set (ran st') \<Longrightarrow> s \<in> set (ran st) \<or> s < length (states st')"
    and "\<And>x. x \<in> set (alls st') \<Longrightarrow> \<exists>y \<in> set (alls st). all_p y = all_p x \<and> set (all_todo x) \<subseteq> set (all_todo y)"
    and "\<And>x. x \<in> set (anys st') \<Longrightarrow> \<exists>y \<in> set (anys st). any_p y = any_p x \<and> set (any_todo x) \<subseteq> set (any_todo y)"
  shows "fwf st'"
proof -
  note w = assms(1) [unfolded fwf_def] and g = ok_grows [OF assms(2)]
  have n: "length (states st) \<le> length (states st')" using assms(2) by (simp add: grows_def)
  have "case cb (st_at st' s) of None \<Rightarrow> True | Some c \<Rightarrow> cb_ok st' c" if "s < length (states st')" for s
    using assms(3) [OF that] w g(2) by (fastforce split: option.splits)
  moreover have "job_ok st' j" if "j \<in> set (jobs st')" for j using assms(4) [OF that] w g(3) by blast
  moreover have "s < length (states st')" if "s \<in> set (ran st')" for s
    using assms(5) [OF that] w n by (meson less_le_trans)
  moreover have "all_p x < length (states st') \<and> (\<forall>f \<in> set (all_todo x). f < length (states st'))"
    if "x \<in> set (alls st')" for x using assms(6) [OF that] w n by (metis less_le_trans subsetD)
  moreover have "any_p x < length (states st') \<and> (\<forall>f \<in> set (any_todo x). f < length (states st'))"
    if "x \<in> set (anys st')" for x using assms(7) [OF that] w n by (metis less_le_trans subsetD)
  ultimately show ?thesis by (simp add: fwf_def)
qed

text \<open>The invariant inside a critical section: the states in \<open>A\<close> may still have to launch their
  callback.\<close>

definition weak_ok :: "'a fstore \<Rightarrow> nat \<Rightarrow> bool" where
  "weak_ok st s \<longleftrightarrow> (executed (st_at st s) \<longrightarrow> mval (st_at st s) \<and> cb (st_at st s) \<noteq> None) \<and>
     calls st s = (if executed (st_at st s) then 1 else 0)"

definition almost :: "nat set \<Rightarrow> 'a fstore \<Rightarrow> bool" where
  "almost A st \<longleftrightarrow> fwf st \<and> (\<forall>s < length (states st). weak_ok st s \<and>
     (s \<notin> A \<longrightarrow> mval (st_at st s) \<longrightarrow> cb (st_at st s) \<noteq> None \<longrightarrow> executed (st_at st s)))"

lemma finv_almost: "finv st \<longleftrightarrow> almost {} st"
  by (auto simp: finv_def almost_def st_ok_def weak_ok_def)

lemma almost_mono: "almost A st \<Longrightarrow> A \<subseteq> B \<Longrightarrow> almost B st"
  by (auto simp: almost_def)

lemma fwf_upd:
  assumes "fwf st" "s < length (states st)"
    "\<And>c. cb (f (st_at st s)) = Some c \<Longrightarrow> cb (st_at st s) = Some c \<or> cb_ok st c"
  shows "fwf (upd_st s f st)"
proof (rule fwf_grows [OF assms(1)])
  show g: "grows st (upd_st s f st)" by (simp add: grows_def)
  show "(u < length (states st) \<and> cb (st_at st u) = Some c) \<or> cb_ok (upd_st s f st) c"
    if "u < length (states (upd_st s f st))" "cb (st_at (upd_st s f st) u) = Some c" for u c
    using that assms(2,3) ok_grows(2) [OF g] by (cases "u = s") auto
qed auto

lemma almost_upd:
  assumes "almost A st" "s < length (states st)" "A \<subseteq> B"
    "\<And>c. cb (f (st_at st s)) = Some c \<Longrightarrow> cb (st_at st s) = Some c \<or> cb_ok st c"
    "executed (f (st_at st s)) = executed (st_at st s)"
    "executed (st_at st s) \<Longrightarrow> mval (f (st_at st s)) \<and> cb (f (st_at st s)) \<noteq> None"
    "s \<in> B \<or> (mval (f (st_at st s)) = mval (st_at st s) \<and> cb (f (st_at st s)) = cb (st_at st s))"
  shows "almost B (upd_st s f st)"
proof -
  have w: "weak_ok st u" "u \<notin> A \<longrightarrow> mval (st_at st u) \<longrightarrow> cb (st_at st u) \<noteq> None \<longrightarrow> executed (st_at st u)"
    if "u < length (states st)" for u using assms(1) that by (simp_all add: almost_def)
  have "weak_ok (upd_st s f st) u \<and> (u \<notin> B \<longrightarrow> mval (st_at (upd_st s f st) u) \<longrightarrow>
      cb (st_at (upd_st s f st) u) \<noteq> None \<longrightarrow> executed (st_at (upd_st s f st) u))"
    if "u < length (states st)" for u
    using w [OF that] assms(2,3,5-7) that by (cases "u = s") (auto simp: weak_ok_def)
  moreover have "fwf (upd_st s f st)" using assms(1,2,4) by (intro fwf_upd) (auto simp: almost_def)
  ultimately show ?thesis by (simp add: almost_def)
qed

lemma keeps_upd:
  assumes "s < length (states st)" "\<And>x. executed (f x) = executed x" "\<And>x. mval (f x) = mval x" "\<And>x. cb (f x) = cb x"
  shows "keeps st (upd_st s f st)"
proof -
  have "almost {} (upd_st s f st)" if a: "almost {} st"
    by (rule almost_upd [OF a assms(1)]) (use a assms in \<open>auto simp: almost_def weak_ok_def\<close>)
  then show ?thesis by (simp add: keeps_def grows_def finv_almost)
qed

lemma upd_st_at: "st_at (upd_st s f st) u = (if u = s \<and> s < length (states st) then f (st_at st s) else st_at st u)"
  by (cases "s < length (states st)") (simp_all add: upd_st_def list_update_beyond)

lemma almost_settled:
  assumes "almost A st" "mval (st_at st s) \<Longrightarrow> cb (st_at st s) \<noteq> None \<Longrightarrow> executed (st_at st s)"
  shows "almost (A - {s}) st"
  unfolding almost_def
proof (intro conjI allI impI)
  fix u assume u: "u < length (states st)"
  show "weak_ok st u" using assms(1) u by (simp add: almost_def)
  assume "u \<notin> A - {s}" "mval (st_at st u)" "cb (st_at st u) \<noteq> None"
  then show "executed (st_at st u)" using assms u by (cases "u = s") (simp_all add: almost_def)
qed (use assms in \<open>simp add: almost_def\<close>)

lemma fwf_add_job: "fwf st \<Longrightarrow> job_ok st j \<Longrightarrow> fwf (add_job j st)"
proof (rule fwf_grows)
  assume "job_ok st j"
  moreover have g: "grows st (add_job j st)" by (simp add: grows_def)
  ultimately have "job_ok (add_job j st) j" by (blast intro: ok_grows)
  then show "k \<in> set (jobs st) \<or> job_ok (add_job j st) k" if "k \<in> set (jobs (add_job j st))" for k
    using that by auto
  show "grows st (add_job j st)" by (rule g)
qed auto

lemma almost_launch:
  assumes a: "almost A st" and s: "s < length (states st)" "mval (st_at st s)" "cb (st_at st s) \<noteq> None" "\<not> executed (st_at st s)"
  shows "almost (A - {s}) (launch s st)"
proof -
  have "fwf (upd_st s (\<lambda>x. x\<lparr>executed := True\<rparr>) st)" using a s by (intro fwf_upd) (auto simp: almost_def)
  then have "fwf (launch s st)" using s(1) by (simp add: launch_def fwf_add_job job_ok_def)
  moreover have "weak_ok (launch s st) u \<and> (u \<notin> A - {s} \<longrightarrow> mval (st_at (launch s st) u) \<longrightarrow>
      cb (st_at (launch s st) u) \<noteq> None \<longrightarrow> executed (st_at (launch s st) u))"
    if "u < length (states st)" for u
    using a s that by (cases "u = s") (auto simp: almost_def weak_ok_def launch_def)
  ultimately show ?thesis by (simp add: almost_def launch_def)
qed

text \<open>What the operations leave alone, for states other than the one they set.\<close>

lemma launch_simps [simp]:
  "length (states (launch s st)) = length (states st)" "alls (launch s st) = alls st" "anys (launch s st) = anys st"
  "ran (launch s st) = ran st" "jobs (launch s st) = jobs st @ [RunCb s]"
  "mval (st_at (launch s st) u) = mval (st_at st u)" "cb (st_at (launch s st) u) = cb (st_at st u)"
  "exception_ptr (st_at (launch s st) u) = exception_ptr (st_at st u)" "fvalue (st_at (launch s st) u) = fvalue (st_at st u)"
  "timeout_st (st_at (launch s st) u) = timeout_st (st_at st u)" "u \<noteq> s \<Longrightarrow> st_at (launch s st) u = st_at st u"
  by (simp_all add: launch_def upd_st_at)

lemma set_ready_simps [simp]:
  "length (states (set_ready s st)) = length (states st)" "alls (set_ready s st) = alls st"
  "anys (set_ready s st) = anys st" "ran (set_ready s st) = ran st"
  "s < length (states st) \<Longrightarrow> mval (st_at (set_ready s st) s)"
  "cb (st_at (set_ready s st) u) = cb (st_at st u)"
  "exception_ptr (st_at (set_ready s st) u) = exception_ptr (st_at st u)"
  "fvalue (st_at (set_ready s st) u) = fvalue (st_at st u)"
  "timeout_st (st_at (set_ready s st) u) = timeout_st (st_at st u)"
  "u \<noteq> s \<Longrightarrow> st_at (set_ready s st) u = st_at st u"
  by (simp_all add: set_ready_def Let_def upd_st_at)

lemma almost_set_ready:
  assumes "almost A st" "s < length (states st)"
  shows "almost (A - {s}) (set_ready s st)"
proof -
  let ?u = "upd_st s (\<lambda>x. mon_notify_all (x\<lparr>mval := True\<rparr>)) st"
  have u: "almost (insert s A) ?u"
    using assms by (intro almost_upd [of A]) (auto simp: almost_def weak_ok_def)
  show ?thesis
  proof (cases "cb (st_at ?u s) = None \<or> executed (st_at ?u s)")
    case True
    then have "almost (A - {s}) ?u" using u assms(2) by (auto simp: almost_def upd_st_at split: if_splits)
    with True show ?thesis by (auto simp: set_ready_def Let_def)
  next
    case False
    have "almost (insert s A - {s}) (launch s ?u)"
      using False assms(2) by (intro almost_launch u) auto
    then show ?thesis using False by (auto simp: set_ready_def Let_def)
  qed
qed

lemma keeps_set_ready_upd:
  assumes "s < length (states st)" "\<And>x. executed (f x) = executed x" "\<And>x. mval (f x) = mval x" "\<And>x. cb (f x) = cb x"
  shows "keeps st (set_ready s (upd_st s f st))"
  using keeps_upd [OF assms] almost_set_ready [of "{}" "upd_st s f st" s] assms(1)
  by (auto simp: keeps_def grows_def finv_almost)

lemma keeps_set_exception: "s < length (states st) \<Longrightarrow> keeps st (snd (set_exception s e st))"
  by (simp add: set_exception_def keeps_set_ready_upd)

lemma keeps_set_value: "s < length (states st) \<Longrightarrow> keeps st (snd (set_value s v st))"
  by (simp add: set_value_def keeps_set_ready_upd)

lemma abandon_simps [simp]:
  "length (states (abandon s st)) = length (states st)" "alls (abandon s st) = alls st"
  "anys (abandon s st) = anys st" "cb (st_at (abandon s st) u) = cb (st_at st u)"
  "ran (abandon s st) = ran st"
  "mval (st_at st u) \<Longrightarrow> fvalue (st_at (abandon s st) u) = fvalue (st_at st u)"
  "u \<noteq> s \<Longrightarrow> st_at (abandon s st) u = st_at st u"
  by (simp_all add: abandon_def upd_st_at)

lemma almost_abandon:
  assumes "almost A st" "s < length (states st)"
  shows "almost A (abandon s st)"
proof -
  let ?u = "upd_st s (\<lambda>x. x\<lparr>exception_ptr := Some (FutureError BrokenPromise)\<rparr>) st"
  have "almost A ?u" using assms by (intro almost_upd [of A]) (auto simp: almost_def weak_ok_def)
  then have "almost (A - {s}) (set_ready s ?u)" using assms(2) by (intro almost_set_ready) auto
  then have "almost A (set_ready s ?u)" by (rule almost_mono) blast
  with assms show ?thesis by (simp add: abandon_def)
qed

lemma keeps_abandon: "s < length (states st) \<Longrightarrow> keeps st (abandon s st)"
  using almost_abandon [of "{}" st s] by (simp add: keeps_def grows_def finv_almost)

lemma drop_cb_simps [simp]:
  "length (states (drop_cb x st)) = length (states st)" "alls (drop_cb x st) = alls st"
  "anys (drop_cb x st) = anys st" "cb (st_at (drop_cb x st) u) = cb (st_at st u)"
  by (simp_all add: drop_cb_def split: option.split callback.split)

lemma keeps_set_callback:
  assumes s: "s < length (states st)" and c: "cb_ok st c"
  shows "keeps st (set_callback s c st)"
proof -
  let ?u = "upd_st s (\<lambda>x. x\<lparr>cb := Some c\<rparr>) st"
  have "almost {} (set_callback s c st)" if a: "almost {} st"
  proof -
    have "weak_ok st s" using a s by (simp add: almost_def)
    then have u: "almost {s} ?u" using c by (intro almost_upd [OF a s]) (simp_all add: weak_ok_def)
    have "case cb (st_at st s) of None \<Rightarrow> True | Some c \<Rightarrow> cb_ok st c" using a s by (simp add: almost_def fwf_def)
    then have d: "almost {s} (drop_cb (st_at st s) ?u)"
      using u by (simp add: drop_cb_def cb_ok_def almost_abandon split: option.splits callback.splits)
    show ?thesis
    proof (cases "mval (st_at (drop_cb (st_at st s) ?u) s) \<and> \<not> executed (st_at (drop_cb (st_at st s) ?u) s)")
      case True
      then have "almost ({s} - {s}) (launch s (drop_cb (st_at st s) ?u))" using s by (intro almost_launch d) simp_all
      with True show ?thesis by (simp add: set_callback_def)
    next
      case False
      have "cb (st_at (drop_cb (st_at st s) ?u) s) \<noteq> None" using s by simp
      with False have "almost ({s} - {s}) (drop_cb (st_at st s) ?u)" by (intro almost_settled [OF d]) simp
      with False show ?thesis by (auto simp: set_callback_def Let_def)
    qed
  qed
  then show ?thesis by (simp add: keeps_def finv_almost grows_def set_callback_def Let_def)
qed

lemma keeps_less:
  "keeps a b \<Longrightarrow> s < length (states a) \<Longrightarrow> s < length (states b)"
  "keeps a b \<Longrightarrow> c < length (alls a) \<Longrightarrow> c < length (alls b)"
  "keeps a b \<Longrightarrow> c < length (anys a) \<Longrightarrow> c < length (anys b)"
  by (simp_all add: keeps_def grows_def)

lemma keeps_ok: "keeps a b \<Longrightarrow> cont_ok a k \<Longrightarrow> cont_ok b k" "keeps a b \<Longrightarrow> cb_ok a c \<Longrightarrow> cb_ok b c"
  by (auto simp: keeps_def intro: ok_grows)

lemma calls_fresh: "fwf st \<Longrightarrow> length (states st) \<le> s \<Longrightarrow> calls st s = 0"
  by (fastforce simp: calls_def fwf_def job_ok_def count_list_0_iff)

lemma keeps_new_promise: "keeps st (snd (new_promise st))"
proof -
  let ?st = "snd (new_promise st)"
  have g: "grows st ?st" by (simp add: grows_def new_promise_def)
  have "finv ?st" if "finv st"
  proof -
    have w: "fwf st" and ok: "\<And>s. s < length (states st) \<Longrightarrow> st_ok st s" using that by (simp_all add: finv_def)
    have "fwf ?st"
      by (rule fwf_grows [OF w g]) (auto simp: new_promise_def new_shared_state_def nth_append less_Suc_eq split: if_splits)
    moreover have "st_ok ?st s" if "s < length (states ?st)" for s
      using that ok [of s] calls_fresh [OF w, of s]
      by (auto simp: st_ok_def new_promise_def new_shared_state_def calls_def nth_append less_Suc_eq split: if_splits)
    ultimately show ?thesis by (simp add: finv_def)
  qed
  with g show ?thesis by (simp add: keeps_def)
qed

lemma new_promise_simps [simp]:
  "fst (new_promise st) = length (states st)" "length (states (snd (new_promise st))) = Suc (length (states st))"
  "alls (snd (new_promise st)) = alls st" "anys (snd (new_promise st)) = anys st" "jobs (snd (new_promise st)) = jobs st"
  "ran (snd (new_promise st)) = ran st"
  "s < length (states st) \<Longrightarrow> st_at (snd (new_promise st)) s = st_at st s"
  "st_at (snd (new_promise st)) (length (states st)) = new_shared_state"
  by (simp_all add: new_promise_def nth_append)

lemma keeps_add_job: "job_ok st j \<Longrightarrow> (\<And>s. j \<noteq> RunCb s) \<Longrightarrow> keeps st (add_job j st)"
  by (auto simp: keeps_def grows_def finv_def st_ok_def fwf_add_job)

lemma keeps_take_value: "s < length (states st) \<Longrightarrow> keeps st (snd (take_value env s st))"
  by (simp add: take_value_def keeps_upd)

lemma keeps_make_ready: "keeps st (snd (make_ready_future v st))" "keeps st (snd (make_exceptional_future e st))"
  "fst (make_ready_future v st) < length (states (snd (make_ready_future v st)))"
  "fst (make_exceptional_future e st) < length (states (snd (make_exceptional_future e st)))"
proof -
  let ?n = "length (states st)" and ?st = "snd (new_promise st)"
  have "keeps st (snd (set_value ?n v ?st))" "keeps st (snd (set_exception ?n e ?st))"
    by (rule keeps_trans [OF keeps_new_promise]; simp add: keeps_set_value keeps_set_exception)+
  then show "keeps st (snd (make_ready_future v st))" "keeps st (snd (make_exceptional_future e st))"
    by (simp_all add: make_ready_future_def make_exceptional_future_def case_prod_unfold)
  have "?n < length (states (snd (set_value ?n v ?st)))" "?n < length (states (snd (set_exception ?n e ?st)))"
    by (rule keeps_less(1) [of ?st]; simp add: keeps_set_value keeps_set_exception)+
  then show "fst (make_ready_future v st) < length (states (snd (make_ready_future v st)))"
    "fst (make_exceptional_future e st) < length (states (snd (make_exceptional_future e st)))"
    by (simp_all add: make_ready_future_def make_exceptional_future_def case_prod_unfold)
qed

lemma keeps_then_impl:
  assumes "s < length (states st)" "cont_ok st c"
  shows "keeps st (snd (then_impl s c ex st))"
proof -
  have "cb_ok (snd (new_promise st)) (ThenCb c (length (states st)) ex)"
    using keeps_ok(1) [OF keeps_new_promise assms(2)] by (simp add: cb_ok_def)
  then have "keeps (snd (new_promise st)) (set_callback s (ThenCb c (length (states st)) ex) (snd (new_promise st)))"
    using assms(1) by (intro keeps_set_callback) simp_all
  from keeps_trans [OF keeps_new_promise this] show ?thesis by (simp add: then_impl_def case_prod_unfold)
qed

lemma keeps_timeout:
  assumes "s < length (states st)"
  shows "keeps st (snd (future_timeout s e st))"
proof -
  let ?q = "length (states st)" and ?st1 = "snd (new_promise st)"
  let ?st2 = "add_job (FireTimer ?q s e) ?st1"
  have "keeps ?st1 ?st2" using assms by (intro keeps_add_job) (simp_all add: job_ok_def)
  moreover have "keeps ?st2 (set_callback s (TimeoutCb ?q) ?st2)"
    using assms by (intro keeps_set_callback) (simp_all add: cb_ok_def)
  ultimately have "keeps st (set_callback s (TimeoutCb ?q) ?st2)"
    using keeps_trans [OF keeps_new_promise] keeps_trans by blast
  then show ?thesis by (simp add: future_timeout_def case_prod_unfold)
qed

lemma keeps_async: "keeps st (snd (async tr k st))"
proof -
  have "keeps (snd (new_promise st)) (add_job (AsyncTask tr k (length (states st))) (snd (new_promise st)))"
    by (intro keeps_add_job) (simp_all add: job_ok_def)
  from keeps_trans [OF keeps_new_promise this] show ?thesis by (simp add: async_def case_prod_unfold)
qed

lemma keeps_get_value: "s < length (states st) \<Longrightarrow> keeps st (snd (get_value env t s st))"
  using keeps_take_value [of s st env]
  by (auto simp: get_value_def fut_wait_def keeps_upd split: prod.split)

lemma keeps_fulfil:
  assumes "p < length (states st)"
  shows "keeps st (snd (fulfil p r st))"
proof (cases r)
  case (Inl e)
  then show ?thesis using assms by (simp add: fulfil_def keeps_set_exception)
next
  case (Inr v)
  have k: "keeps st (snd (set_value p v st))" using assms by (rule keeps_set_value)
  have "keeps st (snd (set_exception p e (snd (set_value p v st))))" for e
    by (rule keeps_trans [OF k]) (rule keeps_set_exception, rule keeps_less(1) [OF k assms])
  with Inr k show ?thesis by (auto simp: fulfil_def split: prod.split sum.split)
qed

lemma keeps_alls:
  assumes "c < length (alls st)" "all_p x = all_p (alls st ! c)" "set (all_todo x) \<subseteq> set (all_todo (alls st ! c))"
  shows "keeps st (st\<lparr>alls := (alls st)[c := x]\<rparr>)"
proof -
  let ?st = "st\<lparr>alls := (alls st)[c := x]\<rparr>"
  have g: "grows st ?st" by (simp add: grows_def)
  have "fwf ?st" if "fwf st"
  proof (rule fwf_grows [OF that g])
    show "\<exists>y \<in> set (alls st). all_p y = all_p z \<and> set (all_todo z) \<subseteq> set (all_todo y)"
      if "z \<in> set (alls ?st)" for z
      using that assms set_update_subset_insert [of "alls st" c x] nth_mem [OF assms(1)] by fastforce
  qed auto
  then show ?thesis using g by (auto simp: keeps_def finv_def st_ok_def calls_def)
qed

lemma keeps_anys:
  assumes "c < length (anys st)" "any_p x = any_p (anys st ! c)" "set (any_todo x) \<subseteq> set (any_todo (anys st ! c))"
  shows "keeps st (st\<lparr>anys := (anys st)[c := x]\<rparr>)"
proof -
  let ?st = "st\<lparr>anys := (anys st)[c := x]\<rparr>"
  have g: "grows st ?st" by (simp add: grows_def)
  have "fwf ?st" if "fwf st"
  proof (rule fwf_grows [OF that g])
    show "\<exists>y \<in> set (anys st). any_p y = any_p z \<and> set (any_todo z) \<subseteq> set (any_todo y)"
      if "z \<in> set (anys ?st)" for z
      using that assms set_update_subset_insert [of "anys st" c x] nth_mem [OF assms(1)] by fastforce
  qed auto
  then show ?thesis using g by (auto simp: keeps_def finv_def st_ok_def calls_def)
qed

lemma set_value_ctx [simp]: "alls (snd (set_value s v st)) = alls st" "anys (snd (set_value s v st)) = anys st"
  by (simp_all add: set_value_def)

text \<open>The promise of a context is a state as long as the store is well-formed.\<close>

lemma ctx_p_less:
  "finv st \<Longrightarrow> c < length (alls st) \<Longrightarrow> all_p (alls st ! c) < length (states st)"
  "finv st \<Longrightarrow> c < length (anys st) \<Longrightarrow> any_p (anys st ! c) < length (states st)"
  by (simp_all add: finv_def fwf_def)

lemma keeps_all_publish:
  assumes "finv st" "c < length (alls st)" "all_p x = all_p (alls st ! c)" "set (all_todo x) \<subseteq> set (all_todo (alls st ! c))"
  shows "keeps st (snd (all_publish c x st))"
proof -
  have k: "keeps st (snd (set_value (all_p x) v st))" for v
    using ctx_p_less(1) [OF assms(1,2)] assms(3) by (simp add: keeps_set_value)
  let ?v = "FAll (all_result x)"
  have a: "keeps (snd (set_value (all_p x) ?v st)) ((snd (set_value (all_p x) ?v st))\<lparr>alls := (alls st)[c := y]\<rparr>)"
    if "all_p y = all_p x" "all_todo y = all_todo x" for y
    using keeps_alls [of c "snd (set_value (all_p x) ?v st)" y] assms(2-4) that by simp
  show ?thesis using keeps_trans [OF k a]
    by (simp add: all_publish_def case_prod_unfold split: sum.split)
qed

lemma keeps_any_publish:
  assumes "finv st" "c < length (anys st)" "any_p x = any_p (anys st ! c)" "set (any_todo x) \<subseteq> set (any_todo (anys st ! c))"
  shows "keeps st (snd (any_publish c x st))"
proof -
  have k: "keeps st (snd (set_value (any_p x) v st))" for v
    using ctx_p_less(2) [OF assms(1,2)] assms(3) by (simp add: keeps_set_value)
  let ?v = "FAny (any_index x) (sequence x)"
  have a: "keeps (snd (set_value (any_p x) ?v st)) ((snd (set_value (any_p x) ?v st))\<lparr>anys := (anys st)[c := y]\<rparr>)"
    if "any_p y = any_p x" "any_todo y = any_todo x" for y
    using keeps_anys [of c "snd (set_value (any_p x) ?v st)" y] assms(2-4) that by simp
  show ?thesis using keeps_trans [OF k a]
    by (simp add: any_publish_def case_prod_unfold split: sum.split)
qed

lemma keeps_all_elem: "finv st \<Longrightarrow> c < length (alls st) \<Longrightarrow> keeps st (snd (all_elem c i f st))"
  by (simp add: all_elem_def Let_def keeps_all_publish keeps_alls)

lemma keeps_any_elem: "finv st \<Longrightarrow> c < length (anys st) \<Longrightarrow> keeps st (snd (any_elem c i f st))"
  by (simp add: any_elem_def Let_def keeps_any_publish keeps_anys)

lemma keeps_apply_cont:
  assumes "finv st" "cont_ok st c" "arg < length (states st)"
  shows "keeps st (snd (apply_cont env c arg st))"
proof (cases c)
  case (Forward p)
  have k: "keeps st (snd (take_value env arg st))" using assms(3) by (rule keeps_take_value)
  have "keeps (snd (take_value env arg st)) (snd (fulfil p r (snd (take_value env arg st))))" for r
    using keeps_less(1) [OF k, of p] assms(2) Forward by (simp add: keeps_fulfil cont_ok_def)
  with keeps_trans [OF k] have f: "keeps st (snd (fulfil p r (snd (take_value env arg st))))" for r by blast
  show ?thesis using f [of "fst (take_value env arg st)"]
    by (simp add: apply_cont_def Forward case_prod_unfold split: sum.split)
qed (use assms in \<open>simp_all add: apply_cont_def cont_ok_def keeps_all_elem keeps_any_elem\<close>)

text \<open>The futures that user functions return exist.\<close>

definition env_ok :: "'a fenv \<Rightarrow> bool" where
  "env_ok env \<longleftrightarrow> (\<forall>k r n s. userF env k r n = Inr (Some s) \<longrightarrow> s < n)"

lemma keeps_future_then:
  "(\<And>s. f = Some s \<Longrightarrow> s < length (states st)) \<Longrightarrow> cont_ok st c \<Longrightarrow> keeps st (snd (future_then f c ex st))"
  using keeps_then_impl [of _ st c ex]
  by (cases f) (simp_all add: future_then_def check_state_def case_prod_unfold)

lemma keeps_then_value:
  assumes "finv st" "cont_ok st c" "arg < length (states st)" "p < length (states st)"
  shows "keeps st (snd (case apply_cont env c arg st of
             (Inl e, st1) \<Rightarrow> set_exception p e st1
           | (Inr v, st1) \<Rightarrow> fulfil p (g v st1) st1))"
proof -
  have k: "keeps st (snd (apply_cont env c arg st))" using assms by (intro keeps_apply_cont)
  have p: "p < length (states (snd (apply_cont env c arg st)))" using keeps_less(1) [OF k] assms by blast
  show ?thesis using keeps_trans [OF k keeps_set_exception [OF p]] keeps_trans [OF k keeps_fulfil [OF p]]
    by (simp add: case_prod_unfold split: sum.split)
qed

lemma keeps_then_future:
  assumes "env_ok env" "finv st" "p < length (states st)"
  shows "keeps st (snd (then_body env (UserF k) ex arg p s st))"
proof (cases "userF env k (content (st_at st arg)) (length (states st))")
  case (Inl e)
  then show ?thesis using assms by (simp add: then_body_def keeps_set_exception)
next
  case (Inr f)
  let ?t = "future_then f (Forward p) (inner_executor ex) st"
  have k: "keeps st (snd ?t)"
    using assms Inr by (intro keeps_future_then) (auto simp: env_ok_def cont_ok_def)
  have p: "p < length (states (snd ?t))" using keeps_less(1) [OF k] assms by blast
  show ?thesis using k keeps_trans [OF k keeps_set_exception [OF p]] Inr
    by (simp add: then_body_def case_prod_unfold split: sum.split)
qed

lemma keeps_then_body:
  assumes "env_ok env" "finv st" "cont_ok st c" "arg < length (states st)" "p < length (states st)"
  shows "keeps st (snd (then_body env c ex arg p s st))"
proof (cases "\<exists>k. c = UserF k")
  case True
  then show ?thesis using keeps_then_future assms by blast
next
  case False
  then show ?thesis
    using keeps_then_value [OF assms(2-5), where env = env and g = "\<lambda>v st1. case get_exception s st1 of Some e \<Rightarrow> Inl e | None \<Rightarrow> Inr v"]
    by (cases c) (simp_all add: then_body_def)
qed

lemma keeps_make_arg:
  assumes "s < length (states st)"
  shows "keeps st (snd (make_arg env s st))" "fst (make_arg env s st) < length (states (snd (make_arg env s st)))"
proof -
  note k = keeps_trans [OF keeps_take_value [OF assms, of env]]
  show "keeps st (snd (make_arg env s st))"
    using k [OF keeps_make_ready(1)] k [OF keeps_make_ready(2)]
    by (simp add: make_arg_def case_prod_unfold split: sum.split)
  show "fst (make_arg env s st) < length (states (snd (make_arg env s st)))"
    using keeps_make_ready(3,4) by (cases "fst (take_value env s st)") (simp_all add: make_arg_def case_prod_unfold)
qed

lemma keeps_fire_timer:
  assumes "p < length (states st)" "s < length (states st)"
  shows "keeps st (snd (fire_timer p s e st))"
proof -
  have k: "keeps st (upd_st s (\<lambda>x. x\<lparr>timeout_st := Expired\<rparr>) st)" using assms(2) by (rule keeps_upd) simp_all
  show ?thesis using keeps_trans [OF k keeps_set_exception, of p e] assms(1) by (simp add: fire_timer_def)
qed

lemma keeps_timeout_result:
  assumes "p < length (states st)" "s < length (states st)"
  shows "keeps st (snd (timeout_result env p s st))"
proof -
  let ?u = "upd_st s (\<lambda>x. x\<lparr>timeout_st := ResultSet\<rparr>) st"
  have "keeps st ?u" using assms(2) by (rule keeps_upd) simp_all
  moreover have "keeps ?u (snd (take_value env s ?u))" using assms(2) by (intro keeps_take_value) simp
  ultimately have k: "keeps st (snd (take_value env s ?u))" by (rule keeps_trans)
  have p: "p < length (states (snd (take_value env s ?u)))" using keeps_less(1) [OF k assms(1)] .
  show ?thesis using keeps_trans [OF k keeps_set_exception [OF p]] keeps_trans [OF k keeps_set_value [OF p]]
    by (simp add: timeout_result_def case_prod_unfold split: sum.split)
qed

lemma keeps_then_cb:
  assumes env: "env_ok env" and inv: "finv st" and s: "s < length (states st)" and c: "cb_ok st (ThenCb c p ex)"
  shows "keeps st (snd (case make_arg env s st of (arg, st1) \<Rightarrow>
             (case ex of
                Inline \<Rightarrow> then_body env c ex arg p s st1
              | Batch tr \<Rightarrow> (Inr FUnit, add_job (ThenTask tr c arg p s) st1))))"
proof -
  let ?m = "make_arg env s st"
  note k = keeps_make_arg [OF s, of env]
  have i: "finv (snd ?m)" "cont_ok (snd ?m) c" "p < length (states (snd ?m))" "s < length (states (snd ?m))"
    using inv k(1) keeps_ok(2) [OF k(1) c] keeps_less(1) [OF k(1) s] by (simp_all add: keeps_def cb_ok_def)
  have "keeps (snd ?m) (snd (then_body env c ex' (fst ?m) p s (snd ?m)))" for ex'
    using env i k(2) by (intro keeps_then_body)
  moreover have "keeps (snd ?m) (add_job (ThenTask tr c (fst ?m) p s) (snd ?m))" for tr
    using i k(2) by (intro keeps_add_job) (simp_all add: job_ok_def)
  ultimately show ?thesis using keeps_trans [OF k(1)]
    by (simp add: case_prod_unfold split: executor.split)
qed

lemma keeps_run_cb:
  assumes "env_ok env" "finv st" "s < length (states st)"
  shows "keeps st (snd (run_cb env s st))"
proof -
  have ok: "case cb (st_at st s) of None \<Rightarrow> True | Some c \<Rightarrow> cb_ok st c" using assms by (simp add: finv_def fwf_def)
  show ?thesis
  proof (cases "cb (st_at st s)")
    case None
    then show ?thesis by (simp add: run_cb_def)
  next
    case (Some c)
    with ok have "cb_ok st c" by simp
    with Some show ?thesis using assms keeps_then_cb keeps_timeout_result
      by (cases c) (simp_all add: run_cb_def cb_ok_def)
  qed
qed

text \<open>Taking a job out of the list: a callback that is called is recorded.\<close>

definition take_job :: "nat \<Rightarrow> 'a fstore \<Rightarrow> 'a fstore" where
  "take_job i st = st\<lparr>jobs := take i (jobs st) @ drop (Suc i) (jobs st)\<rparr>"

lemma count_take_drop:
  "i < length xs \<Longrightarrow> count_list (take i xs @ drop (Suc i) xs) y + (if xs ! i = y then 1 else 0) = count_list xs y"
  by (subst (3) id_take_nth_drop [of i xs]) simp_all

lemma finv_take_job:
  assumes "finv st" "i < length (jobs st)"
  shows "\<And>s. jobs st ! i = RunCb s \<Longrightarrow> finv ((take_job i st)\<lparr>ran := ran st @ [s]\<rparr>)"
    "(\<And>s. jobs st ! i \<noteq> RunCb s) \<Longrightarrow> finv (take_job i st)" "job_ok st (jobs st ! i)"
proof -
  have w: "fwf st" and ok: "\<And>s. s < length (states st) \<Longrightarrow> st_ok st s" using assms(1) by (simp_all add: finv_def)
  show j: "job_ok st (jobs st ! i)" using w assms(2) by (simp add: fwf_def)
  have sub: "j \<in> set (jobs (take_job i st)) \<Longrightarrow> j \<in> set (jobs st)" for j
    by (auto simp: take_job_def dest: in_set_takeD in_set_dropD)
  note c = count_take_drop [OF assms(2)]
  {
    fix s assume s: "jobs st ! i = RunCb s"
    have "fwf ((take_job i st)\<lparr>ran := ran st @ [s]\<rparr>)"
      by (rule fwf_grows [OF w]) (use sub s j in \<open>auto simp: grows_def take_job_def job_ok_def\<close>)
    moreover have "calls ((take_job i st)\<lparr>ran := ran st @ [s]\<rparr>) u = calls st u" for u
      using c [of "RunCb u"] s by (cases "s = u") (simp_all add: calls_def take_job_def)
    ultimately show "finv ((take_job i st)\<lparr>ran := ran st @ [s]\<rparr>)"
      using ok by (simp add: finv_def st_ok_def take_job_def)
  }
  assume n: "\<And>s. jobs st ! i \<noteq> RunCb s"
  have "fwf (take_job i st)" by (rule fwf_grows [OF w]) (use sub in \<open>auto simp: grows_def take_job_def\<close>)
  moreover have "calls (take_job i st) u = calls st u" for u
    using c [of "RunCb u"] n by (simp add: calls_def take_job_def)
  ultimately show "finv (take_job i st)" using ok by (simp add: finv_def st_ok_def take_job_def)
qed

text \<open>One lemma for every kind of event.\<close>

lemma finv_run_job:
  assumes env: "env_ok env" and inv: "finv st" and i: "i < length (jobs st)"
  shows "finv (snd (run_job env (jobs st ! i) (take_job i st)))"
proof -
  note t = finv_take_job [OF inv i]
  have len: "states (take_job i st) = states st" "alls (take_job i st) = alls st" "anys (take_job i st) = anys st"
    "ran (take_job i st) = ran st"
    by (simp_all add: take_job_def)
  have c: "cont_ok st k \<Longrightarrow> cont_ok (take_job i st) k" for k by (simp add: cont_ok_def len split: cont.splits)
  show ?thesis
  proof (cases "jobs st ! i")
    case (RunCb s)
    have "finv ((take_job i st)\<lparr>ran := ran st @ [s]\<rparr>)" using t(1) RunCb by blast
    moreover have "s < length (states st)" using t(3) RunCb by (simp add: job_ok_def)
    ultimately show ?thesis
      using keeps_run_cb [OF env, of "(take_job i st)\<lparr>ran := ran st @ [s]\<rparr>" s] RunCb
      by (simp add: run_job_def keeps_def len)
  next
    case (ThenTask tr k arg p s)
    then have "finv (take_job i st)" using t(2) by simp
    moreover have "cont_ok (take_job i st) k \<and> arg < length (states st) \<and> p < length (states st)"
      using t(3) ThenTask c by (simp add: job_ok_def)
    ultimately show ?thesis
      using keeps_then_body [OF env, of "take_job i st" k arg p "Batch tr" s] ThenTask
      by (simp add: run_job_def keeps_def len)
  next
    case (AsyncTask tr k p)
    then have "finv (take_job i st)" "p < length (states st)" using t(2,3) by (simp_all add: job_ok_def)
    then show ?thesis
      using keeps_fulfil [of p "take_job i st" "callable env k"] AsyncTask by (simp add: run_job_def keeps_def len)
  next
    case (FireTimer p s e)
    then have "finv (take_job i st)" "p < length (states st)" "s < length (states st)" using t(2,3) by (simp_all add: job_ok_def)
    then show ?thesis
      using keeps_fire_timer [of p "take_job i st" s e] FireTimer by (simp add: run_job_def keeps_def len)
  qed
qed

lemma finv_new_all:
  assumes "finv st" "all_p x < length (states st)" "\<forall>f \<in> set (all_todo x). f < length (states st)"
  shows "finv (st\<lparr>alls := alls st @ [x]\<rparr>)"
proof -
  let ?st = "st\<lparr>alls := alls st @ [x]\<rparr>"
  have g: "grows st ?st" by (simp add: grows_def)
  have "fwf ?st" using assms ok_grows [OF g] by (auto simp: finv_def fwf_def split: option.splits)
  then show ?thesis using assms(1) by (auto simp: finv_def st_ok_def calls_def)
qed

lemma finv_new_any:
  assumes "finv st" "any_p x < length (states st)" "\<forall>f \<in> set (any_todo x). f < length (states st)"
  shows "finv (st\<lparr>anys := anys st @ [x]\<rparr>)"
proof -
  let ?st = "st\<lparr>anys := anys st @ [x]\<rparr>"
  have g: "grows st ?st" by (simp add: grows_def)
  have "fwf ?st" using assms ok_grows [OF g] by (auto simp: finv_def fwf_def split: option.splits)
  then show ?thesis using assms(1) by (auto simp: finv_def st_ok_def calls_def)
qed

lemma finv_when_begin:
  assumes "finv st" "list_all (\<lambda>f. f < length (states st)) fs"
  shows "finv (snd (when_all_begin fs st))" "finv (snd (when_any_begin fs st))"
proof -
  let ?st = "snd (new_promise st)"
  have i: "finv ?st" using assms(1) keeps_new_promise by (auto simp: keeps_def)
  have fs: "\<forall>f \<in> set fs. f < length (states ?st)" using assms(2) by (auto simp: list_all_iff)
  have a: "finv (abandon p s)" if "finv s" "p < length (states s)" for p and s :: "'a fstore"
    using keeps_abandon [OF that(2)] that(1) by (simp add: keeps_def)
  show "finv (snd (when_all_begin fs st))" "finv (snd (when_any_begin fs st))"
    using fs by (auto simp: when_all_begin_def when_any_begin_def case_prod_unfold
      intro!: a finv_new_all [OF i, unfolded new_promise_simps(3)] finv_new_any [OF i, unfolded new_promise_simps(4)])
qed

lemma todo_less:
  "finv st \<Longrightarrow> c < length (alls st) \<Longrightarrow> f \<in> set (all_todo (alls st ! c)) \<Longrightarrow> f < length (states st)"
  "finv st \<Longrightarrow> c < length (anys st) \<Longrightarrow> f \<in> set (any_todo (anys st ! c)) \<Longrightarrow> f < length (states st)"
  using nth_mem by (fastforce simp: finv_def fwf_def)+

lemma finv_all_iter:
  assumes inv: "finv st" and c: "c < length (alls st)"
  shows "finv (when_all_iter c st)"
proof (cases "all_todo (alls st ! c)")
  case Nil
  then show ?thesis using inv by (simp add: when_all_iter_def)
next
  case (Cons f fs)
  let ?x = "(alls st ! c)\<lparr>all_result := all_result (alls st ! c) @ [f], all_todo := fs\<rparr>"
  let ?st = "st\<lparr>alls := (alls st)[c := ?x]\<rparr>"
  have "finv ?st" using keeps_alls [OF c, of ?x] Cons inv by (auto simp: keeps_def)
  moreover have "f < length (states st)" using todo_less(1) [OF inv c, of f] Cons by simp
  ultimately show ?thesis
    using keeps_then_impl [of f ?st "AllElem c (length (all_result (alls st ! c)))" Inline] c Cons
    by (simp add: when_all_iter_def Let_def cont_ok_def keeps_def)
qed

lemma finv_any_iter:
  assumes inv: "finv st" and c: "c < length (anys st)"
  shows "finv (when_any_iter c st)"
proof (cases "any_todo (anys st ! c)")
  case Nil
  then show ?thesis using inv by (simp add: when_any_iter_def)
next
  case (Cons f fs)
  let ?x = "(anys st ! c)\<lparr>any_todo := fs\<rparr>"
  let ?st = "st\<lparr>anys := (anys st)[c := ?x]\<rparr>"
  have "finv ?st" using keeps_anys [OF c, of ?x] Cons inv by (auto simp: keeps_def)
  moreover have "f < length (states st)" using todo_less(2) [OF inv c, of f] Cons by simp
  ultimately show ?thesis
    using keeps_then_impl [of f ?st _ Inline] c Cons inv
    by (auto simp: when_any_iter_def Let_def cont_ok_def keeps_def)
qed

lemma finv_any_rest:
  assumes "finv st" "c < length (anys st)"
  shows "finv (when_any_count c st)" "finv (snd (when_any_final c st))"
  using assms keeps_anys [OF assms(2), of "(anys st ! c)\<lparr>processed := Suc (processed (anys st ! c))\<rparr>"]
    keeps_any_publish [OF assms, of "anys st ! c"]
  by (auto simp: when_any_count_def when_any_final_def Let_def keeps_def)

lemma finv_fstep:
  assumes "env_ok env" "finv st"
  shows "finv (fstep env e st)"
proof (cases e)
  case (FeThen s c ex)
  then show ?thesis using keeps_then_impl [of s st c ex] assms
    by (cases c) (auto simp: keeps_def cont_ok_def)
next
  case (FeJob i)
  then show ?thesis using finv_run_job [OF assms, of i] assms(2) by (simp add: take_job_def)
qed (use assms keeps_new_promise [of st] keeps_set_value [of _ st] keeps_set_exception [of _ st] keeps_abandon [of _ st]
      keeps_timeout [of _ st] keeps_async [of st] keeps_get_value [of _ st]
    in \<open>auto simp: keeps_def finv_when_begin finv_all_iter finv_any_iter finv_any_rest\<close>)

lemma finv_new: "finv new_fstore"
  by (simp add: finv_def fwf_def new_fstore_def)

end
