(* ===== verification/FutureSpec.thy ===== *)
theory FutureSpec
  imports Future
begin

text \<open>
  What futures promise: every callback runs exactly once, a chain of continuations is a chain of
  calls in the exception monad whatever the order of completion and registration, a timeout and
  a result exclude each other, \<^verbatim>\<open>when_all\<close> completes with its last element and \<^verbatim>\<open>when_any\<close> with its first.
\<close>

section \<open>Callbacks\<close>

interpretation futures: invariant_system "\<lambda>st. st = new_fstore" "\<lambda>st st'. env_ok env \<and> (\<exists>e. st' = fstep env e st)" finv for env
  by unfold_locales (auto intro: finv_new finv_fstep)

lemma frun_inv: "env_ok env \<Longrightarrow> finv (frun env es new_fstore)"
proof -
  assume "env_ok env"
  then have e: "(\<lambda>st st'. env_ok env \<and> (\<exists>e. st' = fstep env e st)) = (\<lambda>st st'. \<exists>e. st' = fstep env e st)" by simp
  have "(\<lambda>st st'. env_ok env \<and> (\<exists>e. st' = fstep env e st))\<^sup>*\<^sup>* new_fstore (frun env es new_fstore)"
    unfolding e frun_def by (rule fold_reachable)
  from futures.reachable_inv [OF refl this] show ?thesis .
qed

text \<open>C33. In every execution, with any number of threads, the callback of a shared state is called, or
  about to be called, exactly once if the state is satisfied and a callback was set, and never
  otherwise; it does not matter which of the two happened first.\<close>

theorem callback_exactly_once:
  assumes "env_ok env" "s < length (states (frun env es new_fstore))"
  shows "calls (frun env es new_fstore) s =
      (if mval (st_at (frun env es new_fstore) s) \<and> cb (st_at (frun env es new_fstore) s) \<noteq> None then 1 else 0) \<and>
    count_list (ran (frun env es new_fstore)) s \<le> 1"
proof -
  have "st_ok (frun env es new_fstore) s" using frun_inv [OF assms(1)] assms(2) by (simp add: finv_def)
  then show ?thesis by (auto simp: st_ok_def calls_def split: if_splits)
qed

definition demo_env :: "nat fenv" where
  "demo_env = \<lparr>user = (\<lambda>k r. case r of Inl e \<Rightarrow> Inl e | Inr (FDat n) \<Rightarrow> if k = 9 then Inl (UserExn n) else Inr (FDat (n + k)) | Inr v \<Rightarrow> Inr v),
     userF = (\<lambda>k r n. if k < n then Inr (Some k) else Inr None), callable = (\<lambda>k. Inr (FDat k)), movedDat = (\<lambda>_. 0)\<rparr>"

lemma demo_env_ok: "env_ok demo_env"
  by (auto simp: env_ok_def demo_env_def split: if_splits)

theorem callback_exactly_once_witness:
  "calls (frun demo_env [FePromise, FeThen 0 (User 3) Inline, FeSetValue 0 (FDat 4), FeJob 0] new_fstore) 0 = 1 \<and>
   content (st_at (frun demo_env [FePromise, FeThen 0 (User 3) Inline, FeSetValue 0 (FDat 4), FeJob 0] new_fstore) 1) = Inr (FDat 7)"
proof -
  let ?st = "frun demo_env [FePromise, FeThen 0 (User 3) Inline, FeSetValue 0 (FDat 4), FeJob 0] new_fstore"
  have v: "0 < length (states ?st)" "mval (st_at ?st 0)" "cb (st_at ?st 0) \<noteq> None" "content (st_at ?st 1) = Inr (FDat 7)"
    by code_simp+
  show ?thesis using callback_exactly_once [OF demo_env_ok v(1)] v(2-4) by simp
qed

section \<open>Continuations\<close>

text \<open>The meaning of \<^verbatim>\<open>then\<close> for a function that returns a value: the function sees the result of the
  source; if the source failed, the failure is passed on even if the function returns, unless
  the function itself throws.\<close>

definition then_spec :: "('a fres \<Rightarrow> 'a fres) \<Rightarrow> 'a fres \<Rightarrow> 'a fres" where
  "then_spec f r = (case f r of Inl e \<Rightarrow> Inl e | Inr v \<Rightarrow> (case r of Inl e \<Rightarrow> Inl e | Inr _ \<Rightarrow> Inr v))"

text \<open>A state that nobody has completed yet.\<close>

definition pending :: "'a fstore \<Rightarrow> nat \<Rightarrow> bool" where
  "pending st s \<longleftrightarrow> s < length (states st) \<and> \<not> mval (st_at st s) \<and> \<not> executed (st_at st s) \<and> exception_ptr (st_at st s) = None"

text \<open>Completing a pending state.\<close>

definition complete :: "nat \<Rightarrow> 'a fres \<Rightarrow> 'a fstore \<Rightarrow> 'a fstore" where
  "complete s r st = snd (fulfil s r st)"

lemma complete_pending:
  assumes "pending st s"
  shows "fulfil s r st = (Inr FUnit, complete s r st)"
    "length (states (complete s r st)) = length (states st)" "mval (st_at (complete s r st) s)"
    "content (st_at (complete s r st) s) = r" "cb (st_at (complete s r st) s) = cb (st_at st s)"
    "u \<noteq> s \<Longrightarrow> st_at (complete s r st) u = st_at st u"
    "jobs (complete s r st) = jobs st @ (if cb (st_at st s) = None then [] else [RunCb s])"
    "ran (complete s r st) = ran st"
  using assms
  by (cases r; auto simp: pending_def complete_def fulfil_def set_exception_def set_value_def content_def
      set_ready_def launch_def upd_st_at Let_def split: if_splits)+

text \<open>Taking the value out of a satisfied state and wrapping it into the argument of the callback.\<close>

definition ready_state :: "'a fres \<Rightarrow> 'a shared_state" where
  "ready_state r = (case r of
      Inl e \<Rightarrow> new_shared_state\<lparr>mval := True, exception_ptr := Some e\<rparr>
    | Inr v \<Rightarrow> new_shared_state\<lparr>mval := True, fvalue := v\<rparr>)"

lemma make_ready_future_eq:
  "make_ready_future v st = (length (states st), st\<lparr>states := states st @ [ready_state (Inr v)]\<rparr>)"
  "make_exceptional_future e st = (length (states st), st\<lparr>states := states st @ [ready_state (Inl e)]\<rparr>)"
  by (simp_all add: make_ready_future_def make_exceptional_future_def new_promise_def set_value_def set_exception_def
      set_ready_def upd_st_def new_shared_state_def ready_state_def mon_notify_all_def)

lemma content_ready [simp]: "content (ready_state r) = r" "mval (ready_state r)" "cb (ready_state r) = None"
  by (simp_all add: content_def ready_state_def new_shared_state_def split: sum.split)

lemma make_arg_eq:
  "make_arg env s st = (length (states st), (snd (take_value env s st))\<lparr>states :=
     states (snd (take_value env s st)) @ [ready_state (content (st_at st s))]\<rparr>)"
  by (cases "content (st_at st s)") (simp_all add: make_arg_def take_value_def make_ready_future_eq)

lemma take_value_simps [simp]:
  "fst (take_value env s st) = content (st_at st s)" "length (states (snd (take_value env s st))) = length (states st)"
  "mval (st_at (snd (take_value env s st)) u) = mval (st_at st u)"
  "cb (st_at (snd (take_value env s st)) u) = cb (st_at st u)"
  "executed (st_at (snd (take_value env s st)) u) = executed (st_at st u)"
  "exception_ptr (st_at (snd (take_value env s st)) u) = exception_ptr (st_at st u)"
  "timeout_st (st_at (snd (take_value env s st)) u) = timeout_st (st_at st u)"
  "u \<noteq> s \<Longrightarrow> st_at (snd (take_value env s st)) u = st_at st u"
  "jobs (snd (take_value env s st)) = jobs st" "ran (snd (take_value env s st)) = ran st"
  "alls (snd (take_value env s st)) = alls st" "anys (snd (take_value env s st)) = anys st"
  by (simp_all add: take_value_def upd_st_at)

lemma make_arg_simps:
  assumes "s < length (states st)"
  shows "fst (make_arg env s st) = length (states st)"
    "length (states (snd (make_arg env s st))) = Suc (length (states st))"
    "content (st_at (snd (make_arg env s st)) (length (states st))) = content (st_at st s)"
    "exception_ptr (st_at (snd (make_arg env s st)) s) = exception_ptr (st_at st s)"
    "mval (st_at (snd (make_arg env s st)) s) = mval (st_at st s)"
    "u < length (states st) \<Longrightarrow> u \<noteq> s \<Longrightarrow> st_at (snd (make_arg env s st)) u = st_at st u"
    "jobs (snd (make_arg env s st)) = jobs st" "ran (snd (make_arg env s st)) = ran st"
  using assms by (simp_all add: make_arg_eq nth_append)

text \<open>One call of an in-place continuation.\<close>

lemma run_cb_user:
  assumes "s < length (states st)" "mval (st_at st s)" "cb (st_at st s) = Some (ThenCb (User k) q Inline)" "pending st q" "q \<noteq> s"
  shows "run_cb env s st =
    (Inr FUnit, complete q (then_spec (user env k) (content (st_at st s))) (snd (make_arg env s st)))"
proof -
  let ?m = "snd (make_arg env s st)"
  have q: "q < length (states st)" using assms(4) by (simp add: pending_def)
  have p: "pending ?m q" using assms(4,5) q by (simp add: pending_def make_arg_simps [OF assms(1)])
  have e: "get_exception s ?m = (case content (st_at st s) of Inl e \<Rightarrow> Some e | Inr _ \<Rightarrow> None)"
    by (simp add: get_exception_def make_arg_simps [OF assms(1)] content_def split: option.split)
  have "run_cb env s st = then_body env (User k) Inline (length (states st)) q s ?m"
    using assms by (simp add: run_cb_def case_prod_unfold make_arg_simps)
  also have "\<dots> = fulfil q (then_spec (user env k) (content (st_at st s))) ?m"
    by (simp add: then_body_def apply_cont_def make_arg_simps [OF assms(1)] then_spec_def e fulfil_def split: sum.split)
  finally show ?thesis using complete_pending(1) [OF p] by simp
qed

section \<open>Chains\<close>

text \<open>\<open>f.then(k1).then(k2)...\<close>, and a single thread that runs what is to be run.\<close>

fun then_chain :: "nat \<Rightarrow> nat list \<Rightarrow> 'a fstore \<Rightarrow> nat \<times> 'a fstore" where
  "then_chain s [] st = (s, st)"
| "then_chain s (k # ks) st = (case then_impl s (User k) Inline st of (q, st1) \<Rightarrow> then_chain q ks st1)"

fun run_first :: "'a fenv \<Rightarrow> nat \<Rightarrow> 'a fstore \<Rightarrow> 'a fstore" where
  "run_first env 0 st = st"
| "run_first env (Suc n) st = run_first env n (fstep env (FeJob 0) st)"

fun chained :: "'a fstore \<Rightarrow> nat \<Rightarrow> nat list \<Rightarrow> nat list \<Rightarrow> bool" where
  "chained st s [] qs \<longleftrightarrow> qs = [] \<and> cb (st_at st s) = None"
| "chained st s (k # ks) qs \<longleftrightarrow>
     (\<exists>q qs'. qs = q # qs' \<and> cb (st_at st s) = Some (ThenCb (User k) q Inline) \<and> pending st q \<and> chained st q ks qs')"

lemma chained_frame:
  assumes "chained st s ks qs" "cb (st_at st' s) = cb (st_at st s)" "length (states st) \<le> length (states st')"
    "\<And>u. u \<in> set qs \<Longrightarrow> u < length (states st) \<Longrightarrow> st_at st' u = st_at st u"
  shows "chained st' s ks qs"
  using assms
proof (induction ks arbitrary: s qs)
  case Nil
  then show ?case by simp
next
  case (Cons k ks)
  then obtain q qs' where q: "qs = q # qs'" "cb (st_at st s) = Some (ThenCb (User k) q Inline)" "pending st q" "chained st q ks qs'"
    by auto
  then have "st_at st' q = st_at st q" using Cons.prems(4) by (simp add: pending_def)
  then have "chained st' q ks qs'" "pending st' q"
    using Cons.IH [OF q(4)] Cons.prems(3,4) q by (auto simp: pending_def)
  with q Cons.prems(2) show ?case by simp
qed

lemma chained_runs:
  assumes "chained st s ks qs" "distinct (s # qs)" "s < length (states st)" "mval (st_at st s)"
    "jobs st = (if ks = [] then [] else [RunCb s])"
  shows "jobs (run_first env (length ks) st) = [] \<and> mval (st_at (run_first env (length ks) st) (last (s # qs))) \<and>
    content (st_at (run_first env (length ks) st) (last (s # qs))) =
      foldl (\<lambda>r k. then_spec (user env k) r) (content (st_at st s)) ks"
  using assms
proof (induction ks arbitrary: st s qs)
  case Nil
  then show ?case by simp
next
  case (Cons k ks)
  then obtain q qs' where q: "qs = q # qs'" "cb (st_at st s) = Some (ThenCb (User k) q Inline)" "pending st q" "chained st q ks qs'"
    by auto
  let ?st1 = "st\<lparr>jobs := [], ran := ran st @ [s]\<rparr>"
  let ?m = "snd (make_arg env s ?st1)"
  let ?r = "then_spec (user env k) (content (st_at st s))"
  let ?st2 = "complete q ?r ?m"
  have s: "s < length (states ?st1)" using Cons.prems(3) by simp
  have qs: "q \<noteq> s" "q < length (states st)" using Cons.prems(2) q(1,3) by (auto simp: pending_def)
  have pm: "pending ?m q" using q(3) qs by (simp add: pending_def make_arg_simps [OF s])
  have step: "fstep env (FeJob 0) st = ?st2"
    using run_cb_user [of s ?st1 k q env] Cons.prems(3,4,5) q(2,3) qs(1)
    by (simp add: run_job_def pending_def)
  have cbq: "cb (st_at ?st2 q) = cb (st_at st q)"
    using complete_pending(5) [OF pm] qs by (simp add: make_arg_simps [OF s])
  have "chained ?st2 q ks qs'"
  proof (rule chained_frame [OF q(4) cbq])
    show "length (states st) \<le> length (states ?st2)"
      by (simp add: complete_pending(2) [OF pm] make_arg_simps [OF s])
    fix u assume u: "u \<in> set qs'" "u < length (states st)"
    then have "u \<noteq> q" "u \<noteq> s" using Cons.prems(2) q(1) by auto
    then show "st_at ?st2 u = st_at st u"
      using complete_pending(6) [OF pm] u(2) by (simp add: make_arg_simps [OF s])
  qed
  moreover have "distinct (q # qs')" using Cons.prems(2) q(1) by simp
  moreover have "q < length (states ?st2)" using qs by (simp add: complete_pending(2) [OF pm] make_arg_simps [OF s])
  moreover have "mval (st_at ?st2 q)" by (rule complete_pending(3) [OF pm])
  moreover have "jobs ?st2 = (if ks = [] then [] else [RunCb q])"
  proof -
    have "cb (st_at ?m q) = cb (st_at st q)" using qs by (simp add: make_arg_simps [OF s])
    moreover have "cb (st_at st q) = None \<longleftrightarrow> ks = []" using q(4) by (cases ks) auto
    ultimately show ?thesis using complete_pending(7) [OF pm] by (simp add: make_arg_simps [OF s])
  qed
  ultimately have "jobs (run_first env (length ks) ?st2) = [] \<and> mval (st_at (run_first env (length ks) ?st2) (last (q # qs'))) \<and>
    content (st_at (run_first env (length ks) ?st2) (last (q # qs'))) =
      foldl (\<lambda>r k. then_spec (user env k) r) (content (st_at ?st2 q)) ks"
    by (rule Cons.IH)
  then show ?case using step q(1) complete_pending(4) [OF pm, of ?r] by simp
qed

lemma then_impl_pending:
  assumes "pending st s" "cb (st_at st s) = None"
  shows "then_impl s c ex st = (length (states st),
    st\<lparr>states := (states st)[s := (st_at st s)\<lparr>cb := Some (ThenCb c (length (states st)) ex)\<rparr>] @ [new_shared_state]\<rparr>)"
  using assms
  by (auto simp: then_impl_def new_promise_def set_callback_def drop_cb_def upd_st_def pending_def nth_append
      list_update_append Let_def)

lemma then_chain_chained:
  assumes "pending st s" "cb (st_at st s) = None"
  shows "\<exists>qs. chained (snd (then_chain s ks st)) s ks qs \<and> distinct (s # qs) \<and> fst (then_chain s ks st) = last (s # qs) \<and>
     pending (snd (then_chain s ks st)) s \<and> jobs (snd (then_chain s ks st)) = jobs st \<and> set qs \<subseteq> {length (states st)..} \<and>
     length (states st) \<le> length (states (snd (then_chain s ks st))) \<and>
     (\<forall>u. u < length (states st) \<longrightarrow> u \<noteq> s \<longrightarrow> st_at (snd (then_chain s ks st)) u = st_at st u) \<and>
     (ks = [] \<or> cb (st_at (snd (then_chain s ks st)) s) \<noteq> None)"
  using assms
proof (induction ks arbitrary: s st)
  case Nil
  then show ?case by (intro exI [of _ "[]"]) simp
next
  case (Cons k ks)
  let ?q = "length (states st)"
  let ?st1 = "snd (then_impl s (User k) Inline st)"
  have s: "s < ?q" using Cons.prems by (simp add: pending_def)
  note st1 = then_impl_pending [OF Cons.prems, of "User k" Inline]
  have p: "pending ?st1 ?q" "cb (st_at ?st1 ?q) = None" by (simp_all add: st1 pending_def new_shared_state_def nth_append)
  have at_s: "st_at ?st1 s = (st_at st s)\<lparr>cb := Some (ThenCb (User k) ?q Inline)\<rparr>" and len: "length (states ?st1) = Suc ?q"
    using s by (simp_all add: st1 nth_append)
  obtain qs where qs: "chained (snd (then_chain ?q ks ?st1)) ?q ks qs" "distinct (?q # qs)"
    "fst (then_chain ?q ks ?st1) = last (?q # qs)" "pending (snd (then_chain ?q ks ?st1)) ?q"
    "jobs (snd (then_chain ?q ks ?st1)) = jobs ?st1" "set qs \<subseteq> {length (states ?st1)..}"
    "length (states ?st1) \<le> length (states (snd (then_chain ?q ks ?st1)))"
    "\<And>u. u < length (states ?st1) \<Longrightarrow> u \<noteq> ?q \<Longrightarrow> st_at (snd (then_chain ?q ks ?st1)) u = st_at ?st1 u"
    using Cons.IH [OF p] by blast
  have tc: "then_chain s (k # ks) st = then_chain ?q ks ?st1" by (simp add: st1)
  have at_s': "st_at (snd (then_chain s (k # ks) st)) s = (st_at st s)\<lparr>cb := Some (ThenCb (User k) ?q Inline)\<rparr>"
    using qs(8) [of s] s len at_s tc by simp
  have "chained (snd (then_chain s (k # ks) st)) s (k # ks) (?q # qs)" using qs(1,4) at_s' tc by simp
  moreover have "distinct (s # ?q # qs)" using qs(2,6) s len by auto
  moreover have "pending (snd (then_chain s (k # ks) st)) s" using at_s' Cons.prems(1) qs(7) len s tc by (simp add: pending_def)
  moreover have "st_at (snd (then_chain s (k # ks) st)) u = st_at st u" if "u < ?q" "u \<noteq> s" for u
    using qs(8) [of u] that len tc by (simp add: st1 nth_append)
  ultimately show ?case using qs(3,5,6,7) len at_s' tc s
    by (intro exI [of _ "?q # qs"]) (auto simp: st1)
qed

text \<open>C34. A chain of continuations on a pending future computes, once the promise is fulfilled with a
  value or an exception, what calling the functions one after the other in the exception monad
  computes; after exactly one call per continuation the last future is ready and nothing is left
  to run.\<close>

theorem then_chain_refines:
  fixes st :: "'a fstore" and s ks r env
  defines "c \<equiv> then_chain s ks st"
  defines "st' \<equiv> run_first env (length ks) (complete s r (snd c))"
  assumes "pending st s" "cb (st_at st s) = None" "jobs st = []"
  shows "is_ready (fst c) st' \<and> content (st_at st' (fst c)) = foldl (\<lambda>r k. then_spec (user env k) r) r ks \<and> jobs st' = []"
proof -
  obtain qs where qs: "chained (snd c) s ks qs" "distinct (s # qs)" "fst c = last (s # qs)" "pending (snd c) s"
    "jobs (snd c) = []" "ks = [] \<or> cb (st_at (snd c) s) \<noteq> None"
    using then_chain_chained [OF assms(3,4), of ks] assms(5) unfolding c_def by auto
  note p = complete_pending [OF qs(4), where r = r]
  have j: "jobs (complete s r (snd c)) = (if ks = [] then [] else [RunCb s])"
    using p(7) qs(1,5,6) by (cases ks) auto
  have sl: "s < length (states (complete s r (snd c)))" using qs(4) p(2) by (simp add: pending_def)
  have "chained (complete s r (snd c)) s ks qs"
  proof (rule chained_frame [OF qs(1) p(5)])
    show "st_at (complete s r (snd c)) u = st_at (snd c) u" if "u \<in> set qs" for u
      using that qs(2) by (intro p(6)) auto
  qed (simp add: p(2))
  from chained_runs [OF this qs(2) sl p(3) j, of env] p(4) qs(3)
  show ?thesis by (simp add: st'_def is_ready_def)
qed

theorem then_chain_refines_witness:
  "pending (snd (new_promise (new_fstore :: nat fstore))) 0 \<and>
   (let c = then_chain 0 [1, 9, 2] (snd (new_promise new_fstore));
        st' = run_first demo_env (length [1, 9, 2 :: nat]) (complete 0 (Inr (FDat 5)) (snd c))
    in is_ready (fst c) st' \<and> content (st_at st' (fst c)) = Inl (UserExn 6) \<and> jobs st' = [])"
proof -
  have p: "pending (snd (new_promise (new_fstore :: nat fstore))) 0" "cb (st_at (snd (new_promise (new_fstore :: nat fstore))) 0) = None"
    "jobs (snd (new_promise (new_fstore :: nat fstore))) = []" by code_simp+
  have f: "foldl (\<lambda>r k. then_spec (user demo_env k) r) (Inr (FDat 5)) [1, 9, 2] = Inl (UserExn 6)" by code_simp
  show ?thesis using then_chain_refines [OF p, where ks = "[1, 9, 2]" and env = demo_env and r = "Inr (FDat 5)"] p(1)
    by (simp only: Let_def f simp_thms)
qed

section \<open>Timeouts\<close>

lemma set_value_pending:
  assumes "pending st s"
  shows "set_value s v st = (Inr FUnit, complete s (Inr v) st)" "set_exception s e st = (Inr FUnit, complete s (Inl e) st)"
  using assms by (auto simp: pending_def complete_def fulfil_def set_value_def set_exception_def)

lemma complete_timeout:
  "pending st s \<Longrightarrow> timeout_st (st_at (complete s r st) u) = timeout_st (st_at st u)"
  by (cases r) (auto simp: pending_def complete_def fulfil_def set_exception_def set_value_def
      set_ready_def launch_def upd_st_at Let_def split: if_splits)

lemma pending_upd:
  assumes "pending st q" "q \<noteq> s"
  shows "pending (upd_st s f st) q" using assms by (simp add: pending_def)

text \<open>A state whose future got a timeout with result \<open>q\<close>, before the timer fired or the callback ran.\<close>

definition timing :: "'a fstore \<Rightarrow> nat \<Rightarrow> nat \<Rightarrow> bool" where
  "timing st s q \<longleftrightarrow> s < length (states st) \<and> cb (st_at st s) = Some (TimeoutCb q) \<and>
     timeout_st (st_at st s) = NotSet \<and> pending st q \<and> q \<noteq> s"

lemma fire_timer_first:
  assumes "timing st s q"
  shows "fire_timer q s e st = (Inr FUnit, complete q (Inl e) (upd_st s (\<lambda>x. x\<lparr>timeout_st := Expired\<rparr>) st))"
  using assms set_value_pending(2) [OF pending_upd, of st q s e] by (simp add: timing_def fire_timer_def)

lemma timeout_result_first:
  assumes "timing st s q"
  shows "run_cb env s st = (Inr FUnit, complete q (content (st_at st s))
    (snd (take_value env s (upd_st s (\<lambda>x. x\<lparr>timeout_st := ResultSet\<rparr>) st))))"
proof -
  let ?u = "upd_st s (\<lambda>x. x\<lparr>timeout_st := ResultSet\<rparr>) st"
  let ?t = "snd (take_value env s ?u)"
  have s: "s < length (states st)" and ne: "q \<noteq> s" and p: "pending st q" using assms by (simp_all add: timing_def)
  have pq: "pending ?t q" using p ne by (simp add: pending_def)
  have c: "content (st_at ?u s) = content (st_at st s)" using s by (simp add: content_def split: option.split)
  show ?thesis
    using assms set_value_pending [OF pq] c
    by (cases "content (st_at st s)") (simp_all add: run_cb_def timeout_result_def timing_def case_prod_unfold)
qed

lemma timing_complete: "timing st s q \<Longrightarrow> pending st s \<Longrightarrow> timing (complete s r st) s q"
  using complete_pending(2,5) [of st s r] complete_pending(6) [of st s q r] complete_timeout [of st s r s]
  by (auto simp: timing_def pending_def)

text \<open>The timer comes before the callback: the returned future holds the timer's exception, and the callback
  changes nothing.\<close>

lemma timer_before_callback:
  assumes "timing st s q"
  obtains st1 where "fire_timer q s e st = (Inr FUnit, st1)" "mval (st_at st1 q)" "content (st_at st1 q) = Inl e"
    "st_at st1 s = (st_at st s)\<lparr>timeout_st := Expired\<rparr>" "length (states st1) = length (states st)"
proof -
  let ?u = "upd_st s (\<lambda>x. x\<lparr>timeout_st := Expired\<rparr>) st"
  have s: "s < length (states st)" "q \<noteq> s" "pending st q" using assms by (simp_all add: timing_def)
  then have "pending ?u q" by (intro pending_upd)
  note u = complete_pending [OF this, where r = "Inl e"]
  show thesis
    by (rule that [OF fire_timer_first [OF assms]]) (use u(2-4) u(6) [of s] s in simp_all)
qed

lemma run_cb_expired:
  "cb (st_at st s) = Some (TimeoutCb q) \<Longrightarrow> timeout_st (st_at st s) = Expired \<Longrightarrow> run_cb env s st = (Inr FUnit, st)"
  by (simp add: run_cb_def timeout_result_def)

lemma callback_before_timer:
  assumes "timing st s q"
  obtains st1 where "run_cb env s st = (Inr FUnit, st1)" "mval (st_at st1 q)" "content (st_at st1 q) = content (st_at st s)"
    "fire_timer q s e st1 = (Inr FUnit, st1)"
proof -
  let ?r = "snd (take_value env s (upd_st s (\<lambda>x. x\<lparr>timeout_st := ResultSet\<rparr>) st))"
  have s: "s < length (states st)" and ne: "q \<noteq> s" and p: "pending st q" using assms by (simp_all add: timing_def)
  have pr: "pending ?r q" using p ne by (simp add: pending_def)
  note r = complete_pending [OF pr, where r = "content (st_at st s)"]
  have "st_at (complete q (content (st_at st s)) ?r) s = st_at ?r s" using r(6) [of s] ne by simp
  then have "fire_timer q s e (complete q (content (st_at st s)) ?r) = (Inr FUnit, complete q (content (st_at st s)) ?r)"
    using s by (simp add: fire_timer_def)
  then show thesis using that timeout_result_first [OF assms, of env] r(3,4) by blast
qed

text \<open>C35. The timer and the result of a future with a timeout exclude each other, in each order in which the source's
  completion, the callback it launches and the timer can happen. If the timer fires while the source is pending, or
  after its completion but before the callback, the returned future holds the timer's exception, and neither the completion nor
  the callback changes it; if the callback comes first, it holds the result, and the timer changes nothing. Nothing
  is thrown.\<close>

theorem timeout_first_wins:
  assumes "timing st s q" "pending st s"
  shows "(\<exists>st1 st2 st3. fire_timer q s e st = (Inr FUnit, st1) \<and> fulfil s r st1 = (Inr FUnit, st2) \<and>
      run_cb env s st2 = (Inr FUnit, st3) \<and> mval (st_at st1 q) \<and> content (st_at st1 q) = Inl e \<and>
      st_at st2 q = st_at st1 q \<and> st_at st3 q = st_at st1 q) \<and>
    (\<exists>st1 st2 st3. fulfil s r st = (Inr FUnit, st1) \<and> fire_timer q s e st1 = (Inr FUnit, st2) \<and>
      run_cb env s st2 = (Inr FUnit, st3) \<and> mval (st_at st2 q) \<and> content (st_at st2 q) = Inl e \<and> st_at st3 q = st_at st2 q) \<and>
    (\<exists>st1 st2 st3. fulfil s r st = (Inr FUnit, st1) \<and> run_cb env s st1 = (Inr FUnit, st2) \<and>
      fire_timer q s e st2 = (Inr FUnit, st3) \<and> mval (st_at st2 q) \<and> content (st_at st2 q) = r \<and> st_at st3 q = st_at st2 q)"
proof (intro conjI)
  have ne: "q \<noteq> s" and cb: "cb (st_at st s) = Some (TimeoutCb q)" using assms(1) by (simp_all add: timing_def)
  obtain st1 where t: "fire_timer q s e st = (Inr FUnit, st1)" "mval (st_at st1 q)" "content (st_at st1 q) = Inl e"
    "st_at st1 s = (st_at st s)\<lparr>timeout_st := Expired\<rparr>" "length (states st1) = length (states st)"
    by (rule timer_before_callback [OF assms(1)])
  have p1: "pending st1 s" using assms(2) t(4,5) by (simp add: pending_def)
  have "run_cb env s (complete s r st1) = (Inr FUnit, complete s r st1)"
    by (rule run_cb_expired) (use complete_pending(5) [OF p1] complete_timeout [OF p1] t(4) cb in simp_all)
  moreover have "st_at (complete s r st1) q = st_at st1 q" by (rule complete_pending(6) [OF p1 ne])
  ultimately show "\<exists>st1 st2 st3. fire_timer q s e st = (Inr FUnit, st1) \<and> fulfil s r st1 = (Inr FUnit, st2) \<and>
      run_cb env s st2 = (Inr FUnit, st3) \<and> mval (st_at st1 q) \<and> content (st_at st1 q) = Inl e \<and>
      st_at st2 q = st_at st1 q \<and> st_at st3 q = st_at st1 q"
    using t(1-3) complete_pending(1) [OF p1, of r] by blast
next
  let ?c = "complete s r st"
  have c: "timing ?c s q" "fulfil s r st = (Inr FUnit, ?c)" "content (st_at ?c s) = r"
    using timing_complete [OF assms] complete_pending(1,4) [OF assms(2), of r] by simp_all
  obtain st2 where t: "fire_timer q s e ?c = (Inr FUnit, st2)" "mval (st_at st2 q)" "content (st_at st2 q) = Inl e"
    "st_at st2 s = (st_at ?c s)\<lparr>timeout_st := Expired\<rparr>"
    by (rule timer_before_callback [OF c(1)])
  have "run_cb env s st2 = (Inr FUnit, st2)" by (rule run_cb_expired) (use t(4) c(1) in \<open>simp_all add: timing_def\<close>)
  then show "\<exists>st1 st2 st3. fulfil s r st = (Inr FUnit, st1) \<and> fire_timer q s e st1 = (Inr FUnit, st2) \<and>
      run_cb env s st2 = (Inr FUnit, st3) \<and> mval (st_at st2 q) \<and> content (st_at st2 q) = Inl e \<and> st_at st3 q = st_at st2 q"
    using t(1-3) c(2) by blast
  show "\<exists>st1 st2 st3. fulfil s r st = (Inr FUnit, st1) \<and> run_cb env s st1 = (Inr FUnit, st2) \<and>
      fire_timer q s e st2 = (Inr FUnit, st3) \<and> mval (st_at st2 q) \<and> content (st_at st2 q) = r \<and> st_at st3 q = st_at st2 q"
    using callback_before_timer [OF c(1), of env e] c(2,3) by metis
qed

theorem timeout_first_wins_witness:
  "\<exists>st1 st2 st3. fire_timer 1 0 (UserExn 3) (frun demo_env [FePromise, FeTimeout 0 (UserExn 3)] new_fstore) = (Inr FUnit, st1) \<and>
     fulfil 0 (Inr (FDat 4)) st1 = (Inr FUnit, st2) \<and> run_cb demo_env 0 st2 = (Inr FUnit, st3) \<and>
     mval (st_at st1 1) \<and> content (st_at st1 1) = Inl (UserExn 3) \<and> st_at st2 1 = st_at st1 1 \<and> st_at st3 1 = st_at st1 1"
proof -
  have "timing (frun demo_env [FePromise, FeTimeout 0 (UserExn 3)] new_fstore) 0 1"
    "pending (frun demo_env [FePromise, FeTimeout 0 (UserExn 3)] new_fstore) 0" by code_simp+
  from timeout_first_wins [OF this, of "UserExn 3" "Inr (FDat 4)" demo_env] show ?thesis by blast
qed

section \<open>when_all\<close>


definition put_all :: "(nat \<times> nat) list \<Rightarrow> nat list \<Rightarrow> nat list" where
  "put_all xs res = fold (\<lambda>(i, f) r. r[i := f]) xs res"

lemma put_all_length [simp]: "length (put_all xs res) = length res"
  unfolding put_all_def by (induction xs arbitrary: res) auto





section \<open>when_any\<close>















text \<open>\<^verbatim>\<open>when_any\<close> loses results: the lambda of a future that completes second has moved its value into
  an argument that is thrown away, so the future in the returned vector is ready and holds a
  moved-from object. Here both futures were ready, with 5 and 6; the second one now holds what a
  move leaves behind, and a continuation attached to it is never called.\<close>

lemma when_any_loses_value:
  "let st = frun demo_env [FePromise, FePromise, FeSetValue 0 (FDat 5), FeSetValue 1 (FDat 6), FeWhenAny [0, 1],
        FeAnyIter 0, FeJob 0, FeAnyCount 0, FeAnyIter 0, FeJob 0, FeAnyCount 0, FeAnyFinal 0] new_fstore;
      st' = frun demo_env [FeThen 1 (User 3) Inline] st
   in content (st_at st 2) = Inr (FAny 0 [4, 1]) \<and> content (st_at st 4) = Inr (FDat 5) \<and>
      is_ready 1 st \<and> content (st_at st 1) = Inr (FDat (movedDat demo_env 6)) \<and>
      jobs st' = [] \<and> \<not> is_ready (length (states st)) st'"
  by code_simp

text \<open>In general a continuation added to a future whose callback has been called is never called.\<close>

lemma second_then_never_runs:
  assumes "s < length (states st)" "executed (st_at st s)"
  shows "jobs (snd (then_impl s c ex st)) = jobs st \<and> \<not> mval (st_at (snd (then_impl s c ex st)) (fst (then_impl s c ex st)))"
  using assms
  by (auto simp: then_impl_def case_prod_unfold set_callback_def drop_cb_def Let_def upd_st_at new_shared_state_def
      split: option.splits callback.splits)

end
