(* ===== verification/Remote.thy ===== *)
theory Remote
  imports Future "HOL-Library.AList"
begin

text \<open>
  Connections to the cloud and fog nodes and the messages that arrive on them
  (\<^verbatim>\<open>src/remote/remote.cc\<close>, \<^verbatim>\<open>include/remote/remote.hpp\<close>, the remote call table of
  \<^verbatim>\<open>include/scheduler/scheduler.hpp\<close>). Connection objects live in a list and are named by their
  position, so that a dangling pointer is visible; the promises of pending requests are states
  of the future store. Each operation runs under \<^verbatim>\<open>mCallback\<close>. MQTT, JSON and CBOR are the
  environment: messages arrive decoded, sent packets are logged with the information whether the
  adapter they went through was still open. The cache of message identifiers (Boost's LRU cache)
  is an argument, as a function of the identifiers inserted so far.
\<close>

section \<open>Data\<close>

datatype 'j jarg = JStr string | JOther 'j

datatype 'j jargs = JArray "'j jarg list" | JScalar 'j

datatype 'j json = JEmpty | JExn string | JArgs "'j jargs"

text \<open>What the promises of a request hold: an acknowledgement or a result.\<close>

datatype 'j rval = RBool bool | RPair bool "'j json"

datatype RemoteExecutionErrorCode = RexSuccess | HeartbeatFailure | AckTimedOut

fun error_message :: "RemoteExecutionErrorCode \<Rightarrow> string" where
  "error_message RexSuccess = ''Remote Execution Success''"
| "error_message HeartbeatFailure = ''Remote Execution Failed due to Hearbeat Failure''"
| "error_message AckTimedOut = ''Remote Execution Failed due to Acknoledgement Timeout''"

record 'j rexRequest =
  r_cmd :: string
  r_actname :: string
  r_args :: "'j list"
  r_cond :: string
  r_condvec :: u32
  r_opt :: string
  r_actid :: u32

datatype 'j packet =
    PRegister string | PGetCfInfo string | PPong string | PRexecAck u32 | PRequest "'j rexRequest" | PResult nat "'j json"

record CloudFogInfo =
  cf_devId :: string
  cf_appId :: string
  cf_hostAddr :: string
  isRegistered :: bool
  isExpired :: bool
  rExecPending :: "u32 list"
  pongCounter :: u32
  cloudFogInfoCounter :: u32
  adapterOpen :: bool

definition topic :: "CloudFogInfo \<Rightarrow> string \<Rightarrow> string" where
  "topic c name = ''/'' @ cf_appId c @ name"

definition requestUp :: "CloudFogInfo \<Rightarrow> string" where "requestUp c = topic c ''/requests/up''"
definition requestDown :: "CloudFogInfo \<Rightarrow> string" where "requestDown c = topic c ''/requests/down/c''"
definition replyUp :: "CloudFogInfo \<Rightarrow> string" where "replyUp c = topic c ''/replies/up''"
definition replyDown :: "CloudFogInfo \<Rightarrow> string" where "replyDown c = topic c ''/replies/down''"
definition announceDown :: "CloudFogInfo \<Rightarrow> string" where "announceDown c = topic c ''/announce/down''"

definition new_CloudFogInfo :: "string \<Rightarrow> string \<Rightarrow> string \<Rightarrow> CloudFogInfo" where
  "new_CloudFogInfo dev app host =
     \<lparr>cf_devId = dev, cf_appId = app, cf_hostAddr = host, isRegistered = False, isExpired = False, rExecPending = [],
      pongCounter = 0, cloudFogInfoCounter = 0, adapterOpen = True\<rparr>"

text \<open>A decoded message. A field can be missing or have the wrong type.\<close>

datatype 'x field = Missing | WrongType | Field 'x

record 'j rmsg =
  m_cmd :: "string field"
  m_opt :: "string field"
  m_actid :: "nat field"
  m_actname :: "string field"
  m_args :: "'j jargs option"

text \<open>A callback of an asynchronous request that goes to all connections, with the counter its
  tasks share.\<close>

datatype rcallback = SuccessCb | FailureCb RemoteExecutionErrorCode

record agg =
  countCommon :: nat
  failureCount :: nat
  calledOnce :: bool
  cbLog :: "rcallback list"
  prCommon :: nat

record 'j remote =
  conns :: "CloudFogInfo list"
  mainFogInfo :: "nat option"
  cloudFogInfo :: "(string \<times> nat) list"
  isValidConnection :: "nat list"
  ackLookup :: "(u32 \<times> nat) list"
  rLookup :: "(u32 \<times> nat) list"
  eIdFactory :: u32
  rcache :: "u32 list"
  futs :: "'j rval fstore"
  published :: "(nat \<times> bool \<times> string \<times> 'j packet) list"
  goesOn :: bool
  my_devId :: string
  my_appId :: string
  my_hostAddr :: string
  localFuncMap :: "string list"
  rpcTasks :: "(nat \<times> 'j rmsg) list"
  aggs :: "agg list"

text \<open>The environment: the cache's answer, given what was inserted, and \<^verbatim>\<open>rand()\<close>.\<close>

record renv =
  cache_contains :: "u32 list \<Rightarrow> u32 \<Rightarrow> bool"
  pong_rand :: nat

section \<open>Connections\<close>

abbreviation conn :: "'j remote \<Rightarrow> nat \<Rightarrow> CloudFogInfo" where
  "conn st c \<equiv> conns st ! c"

definition upd_conn :: "nat \<Rightarrow> (CloudFogInfo \<Rightarrow> CloudFogInfo) \<Rightarrow> 'j remote \<Rightarrow> 'j remote" where
  "upd_conn c f st = st\<lparr>conns := (conns st)[c := f (conn st c)]\<rparr>"

definition mqtt_publish :: "nat \<Rightarrow> string \<Rightarrow> 'j packet \<Rightarrow> 'j remote \<Rightarrow> 'j remote" where
  "mqtt_publish c t p st = st\<lparr>published := published st @ [(c, adapterOpen (conn st c), t, p)]\<rparr>"

definition add_valid :: "nat \<Rightarrow> 'j remote \<Rightarrow> 'j remote" where
  "add_valid c st = st\<lparr>isValidConnection := List.insert c (isValidConnection st)\<rparr>"

definition erase_valid :: "nat \<Rightarrow> 'j remote \<Rightarrow> 'j remote" where
  "erase_valid c st = st\<lparr>isValidConnection := removeAll c (isValidConnection st)\<rparr>"

definition make_conn :: "string \<Rightarrow> 'j remote \<Rightarrow> nat \<times> 'j remote" where
  "make_conn host st =
     (length (conns st), st\<lparr>conns := conns st @ [new_CloudFogInfo (my_devId st) (my_appId st) host]\<rparr>)"

text \<open>Operations that may throw: the exception, if any, and the state it leaves.\<close>

fun each_x :: "('b \<Rightarrow> 'w \<Rightarrow> exn option \<times> 'w) \<Rightarrow> 'b list \<Rightarrow> 'w \<Rightarrow> exn option \<times> 'w" where
  "each_x f [] w = (None, w)"
| "each_x f (x # xs) w = (case f x w of (None, w1) \<Rightarrow> each_x f xs w1 | (Some e, w1) \<Rightarrow> (Some e, w1))"

definition then_x :: "(exn option \<times> 'w) \<Rightarrow> ('w \<Rightarrow> exn option \<times> 'w) \<Rightarrow> exn option \<times> 'w" where
  "then_x m f = (case m of (None, w) \<Rightarrow> f w | (Some e, w) \<Rightarrow> (Some e, w))"

definition fset :: "nat \<Rightarrow> 'j rval \<Rightarrow> 'j remote \<Rightarrow> exn option \<times> 'j remote" where
  "fset p v st =
     (case set_value p (FDat v) (futs st) of
        (Inl e, f) \<Rightarrow> (Some e, st\<lparr>futs := f\<rparr>)
      | (Inr _, f) \<Rightarrow> (None, st\<lparr>futs := f\<rparr>))"

text \<open>Erasing an entry destroys its promise.\<close>

definition erase_ack :: "u32 \<Rightarrow> 'j remote \<Rightarrow> 'j remote" where
  "erase_ack i st =
     (case map_of (ackLookup st) i of
        None \<Rightarrow> st | Some p \<Rightarrow> st\<lparr>ackLookup := AList.delete i (ackLookup st), futs := abandon p (futs st)\<rparr>)"

definition erase_result :: "u32 \<Rightarrow> 'j remote \<Rightarrow> 'j remote" where
  "erase_result i st =
     (case map_of (rLookup st) i of
        None \<Rightarrow> st | Some p \<Rightarrow> st\<lparr>rLookup := AList.delete i (rLookup st), futs := abandon p (futs st)\<rparr>)"

text \<open>\<^verbatim>\<open>Clear\<close> answers the requests that are entered in the connection's pending set, and then deletes the adapter. The
  deletion is taken to return here; it polls the adapter's state, and as long as it does not return the
  thread keeps \<^verbatim>\<open>mCallback\<close>.\<close>

definition Clear_requests :: "nat \<Rightarrow> 'j remote \<Rightarrow> exn option \<times> 'j remote" where
  "Clear_requests c st =
     then_x
       (each_x (\<lambda>i st. case map_of (ackLookup st) i of None \<Rightarrow> (None, st) | Some p \<Rightarrow> fset p (RBool False) st)
         (rExecPending (conn st c)) (upd_conn c (\<lambda>x. x\<lparr>isRegistered := False\<rparr>) st))
       (each_x (\<lambda>i st. case map_of (rLookup st) i of None \<Rightarrow> (None, st) | Some p \<Rightarrow> fset p (RPair False JEmpty) st)
         (rExecPending (conn st c)))"

definition Clear :: "nat \<Rightarrow> 'j remote \<Rightarrow> exn option \<times> 'j remote" where
  "Clear c st = then_x (Clear_requests c st) (\<lambda>st. (None, upd_conn c (\<lambda>x. x\<lparr>adapterOpen := False\<rparr>) st))"

definition new_Remote :: "string \<Rightarrow> string \<Rightarrow> string \<Rightarrow> u32 \<Rightarrow> string list \<Rightarrow> 'j remote" where
  "new_Remote host app dev eid0 funcs =
     (case make_conn host
        \<lparr>conns = [], mainFogInfo = None, cloudFogInfo = [], isValidConnection = [], ackLookup = [], rLookup = [],
         eIdFactory = eid0, rcache = [], futs = new_fstore, published = [], goesOn = True, my_devId = dev, my_appId = app,
         my_hostAddr = host, localFuncMap = funcs, rpcTasks = [], aggs = []\<rparr> of
        (c, st) \<Rightarrow> add_valid c (st\<lparr>mainFogInfo := Some c\<rparr>))"

text \<open>One round of the loop of \<^verbatim>\<open>CheckExpire\<close>: the main connection, then the others.\<close>

definition expire_main :: "'j remote \<Rightarrow> exn option \<times> 'j remote" where
  "expire_main st =
     (case mainFogInfo st of
        Some c \<Rightarrow>
          if isExpired (conn st c)
          then then_x (Clear c st) (\<lambda>st. (None, (erase_valid c st)\<lparr>mainFogInfo := None\<rparr>))
          else (None, upd_conn c (\<lambda>x. x\<lparr>isExpired := True\<rparr>) st)
      | None \<Rightarrow> (case make_conn (my_hostAddr st) st of (c, st1) \<Rightarrow> (None, add_valid c (st1\<lparr>mainFogInfo := Some c\<rparr>))))"

definition expire_cloud :: "string \<times> nat \<Rightarrow> 'j remote \<times> string list \<Rightarrow> exn option \<times> ('j remote \<times> string list)" where
  "expire_cloud hc s =
     (case (hc, s) of ((host, c), (st, gone)) \<Rightarrow>
        if isExpired (conn st c)
        then (case Clear c st of (None, st1) \<Rightarrow> (None, (st1, gone @ [host])) | (Some e, st1) \<Rightarrow> (Some e, (st1, gone)))
        else (None, (upd_conn c (\<lambda>x. x\<lparr>isExpired := True\<rparr>) st, gone)))"

definition erase_host :: "string \<Rightarrow> 'j remote \<Rightarrow> 'j remote" where
  "erase_host host st =
     (case map_of (cloudFogInfo st) host of
        None \<Rightarrow> st
      | Some c \<Rightarrow> (erase_valid c st)\<lparr>cloudFogInfo := AList.delete host (cloudFogInfo st)\<rparr>)"

definition CheckExpire_round :: "'j remote \<Rightarrow> exn option \<times> 'j remote" where
  "CheckExpire_round st =
     then_x (expire_main st)
       (\<lambda>st1. case each_x expire_cloud (cloudFogInfo st1) (st1, []) of
          (Some e, (st2, _)) \<Rightarrow> (Some e, st2)
        | (None, (st2, gone)) \<Rightarrow> (None, fold erase_host gone st2))"

definition CancelAllRExecRequests :: "'j remote \<Rightarrow> exn option \<times> 'j remote" where
  "CancelAllRExecRequests st =
     then_x
       (then_x
         (case mainFogInfo st of
            None \<Rightarrow> (None, st) | Some c \<Rightarrow> then_x (Clear c st) (\<lambda>st. (None, st\<lparr>mainFogInfo := None\<rparr>)))
         (\<lambda>st. each_x Clear (map snd (cloudFogInfo st)) st))
       (\<lambda>st. (None, st\<lparr>cloudFogInfo := [], isValidConnection := []\<rparr>))"

definition ShutDownRunOnce :: "'j remote \<Rightarrow> exn option \<times> 'j remote" where
  "ShutDownRunOnce st = then_x (CancelAllRExecRequests st) (\<lambda>st. (None, st\<lparr>goesOn := False\<rparr>))"

definition Remote_ShutDown :: "'j remote \<Rightarrow> exn option \<times> 'j remote" where
  "Remote_ShutDown st = (if goesOn st then ShutDownRunOnce st else (None, st))"

section \<open>Messages\<close>

text \<open>The handlers of \<^verbatim>\<open>RemoteArrivedCallback\<close>, in the order of the code.\<close>

definition CLOUD_FOG_COUNT_STEP :: u32 where "CLOUD_FOG_COUNT_STEP = 10"
definition PONG_COUNTER_MAX :: nat where "PONG_COUNTER_MAX = 10"

definition on_PING :: "renv \<Rightarrow> nat \<Rightarrow> 'j remote \<Rightarrow> 'j remote" where
  "on_PING env c st =
     (let dev = cf_devId (conn st c); up = requestUp (conn st c);
          st1 = (if isRegistered (conn st c) then st else mqtt_publish c up (PRegister dev) st);
          st2 = (if mainFogInfo st1 = Some c \<and> cloudFogInfo st1 = [] \<and> cloudFogInfoCounter (conn st1 c) mod CLOUD_FOG_COUNT_STEP = 0
                 then upd_conn c (\<lambda>x. x\<lparr>cloudFogInfoCounter := cloudFogInfoCounter x + 1\<rparr>) (mqtt_publish c up (PGetCfInfo dev) st1)
                 else st1);
          st3 = (if pongCounter (conn st2 c) = 0
                 then upd_conn c (\<lambda>x. x\<lparr>pongCounter := of_nat (pong_rand env mod PONG_COUNTER_MAX)\<rparr>) (mqtt_publish c up (PPong dev) st2)
                 else upd_conn c (\<lambda>x. x\<lparr>pongCounter := pongCounter x - 1\<rparr>) st2)
      in upd_conn c (\<lambda>x. x\<lparr>isExpired := False\<rparr>) st3)"

definition on_REGISTER_ACK :: "nat \<Rightarrow> 'j remote \<Rightarrow> 'j remote" where
  "on_REGISTER_ACK c st = upd_conn c (\<lambda>x. x\<lparr>isRegistered := True, isExpired := False\<rparr>) st"

text \<open>\<^verbatim>\<open>args[0].get<string>()\<close>: reading past the end of an empty array is undefined, another type throws.\<close>

definition first_string :: "'j jargs option \<Rightarrow> (exn + string) outcome" where
  "first_string a =
     (case a of
        Some (JArray (JStr s # _)) \<Rightarrow> Ok (Inr s)
      | Some (JArray (JOther _ # _)) \<Rightarrow> Ok (Inl JsonTypeError)
      | _ \<Rightarrow> Fault OutOfBounds)"

definition is_array :: "'j jargs option \<Rightarrow> bool" where
  "is_array a = (case a of Some (JArray _) \<Rightarrow> True | _ \<Rightarrow> False)"

definition add_host :: "string \<Rightarrow> 'j remote \<Rightarrow> 'j remote" where
  "add_host host st =
     (case make_conn host st of (n, st1) \<Rightarrow>
        (let st2 = (if map_of (cloudFogInfo st1) host = None then st1\<lparr>cloudFogInfo := cloudFogInfo st1 @ [(host, n)]\<rparr> else st1);
             c = the (map_of (cloudFogInfo st2) host)
         in add_valid c (upd_conn c (\<lambda>x. x\<lparr>isRegistered := True\<rparr>) st2)))"

text \<open>A new identifier is put into the cache before the host name is read.\<close>

definition cf_update ::
  "renv \<Rightarrow> 'j rmsg \<Rightarrow> (string \<Rightarrow> 'j remote \<Rightarrow> (exn option \<times> 'j remote) outcome) \<Rightarrow> 'j remote \<Rightarrow> (exn option \<times> 'j remote) outcome" where
  "cf_update env m act st =
     (case m_actid m of
        Missing \<Rightarrow> Fault AssertFailed
      | WrongType \<Rightarrow> Ok (Some JsonTypeError, st)
      | Field n \<Rightarrow>
          if cache_contains env (rcache st) (of_nat n) then Ok (None, st)
          else
            (let st1 = st\<lparr>rcache := of_nat n # rcache st\<rparr> in
             obind (first_string (m_args m))
               (\<lambda>r. case r of Inl e \<Rightarrow> Ok (Some e, st1) | Inr host \<Rightarrow> act host st1)))"

definition del_host :: "string \<Rightarrow> 'j remote \<Rightarrow> (exn option \<times> 'j remote) outcome" where
  "del_host host st =
     (case map_of (cloudFogInfo st) host of
        None \<Rightarrow> Fault NullDeref
      | Some c \<Rightarrow> Ok (then_x (Clear c st) (\<lambda>st. (None, erase_host host st))))"

definition on_PUT_CF_INFO :: "renv \<Rightarrow> 'j rmsg \<Rightarrow> 'j remote \<Rightarrow> (exn option \<times> 'j remote) outcome" where
  "on_PUT_CF_INFO env m st =
     (if m_opt m = Field ''ADD'' \<and> is_array (m_args m) \<and> m_actid m \<noteq> Missing
      then cf_update env m (\<lambda>host st. Ok (None, add_host host st)) st
      else if m_opt m = Field ''DEL'' \<and> is_array (m_args m) then cf_update env m del_host st
      else Ok (None, st))"

definition on_REXEC_ACK :: "'j rmsg \<Rightarrow> 'j remote \<Rightarrow> exn option \<times> 'j remote" where
  "on_REXEC_ACK m st =
     (case m_actid m of
        Field n \<Rightarrow>
          (case map_of (ackLookup st) (of_nat n) of
             None \<Rightarrow> (None, st)
           | Some p \<Rightarrow> then_x (fset p (RBool True) st) (\<lambda>st. (None, erase_ack (of_nat n) st)))
      | _ \<Rightarrow> (None, st))"

text \<open>The scheduler's side of a remote call: the name must be registered.\<close>

definition CreateRPBatchCall :: "nat \<Rightarrow> 'j rmsg \<Rightarrow> 'j remote \<Rightarrow> (exn + bool) \<times> 'j remote" where
  "CreateRPBatchCall c m st =
     (if m_actname m \<noteq> Missing \<and> m_args m \<noteq> None
      then (case m_actname m of
              Field f \<Rightarrow>
                if List.member (localFuncMap st) f \<and> m_actid m \<noteq> Missing \<and> m_cmd m \<noteq> Missing
                then (Inr True, st\<lparr>rpcTasks := rpcTasks st @ [(c, m)]\<rparr>) else (Inr False, st)
            | _ \<Rightarrow> (Inl JsonTypeError, st))
      else (Inr False, st))"

definition on_REXEC_ASY :: "nat \<Rightarrow> 'j rmsg \<Rightarrow> 'j remote \<Rightarrow> exn option \<times> 'j remote" where
  "on_REXEC_ASY c m st =
     (case m_actid m of
        Field n \<Rightarrow>
          if goesOn st
          then (case CreateRPBatchCall c m st of
                  (Inl e, st1) \<Rightarrow> (Some e, st1)
                | (Inr False, st1) \<Rightarrow> (None, st1)
                | (Inr True, st1) \<Rightarrow>
                    (None, mqtt_publish c (replyUp (conn st1 c)) (PRexecAck (of_nat n)) (st1\<lparr>rcache := of_nat n # rcache st1\<rparr>)))
          else (None, st)
      | _ \<Rightarrow> (None, st))"

definition on_REXEC_RES :: "nat \<Rightarrow> 'j rmsg \<Rightarrow> 'j remote \<Rightarrow> exn option \<times> 'j remote" where
  "on_REXEC_RES c m st =
     (case (m_actid m, m_args m) of
        (Field n, Some a) \<Rightarrow>
          (case map_of (rLookup st) (of_nat n) of
             None \<Rightarrow> (None, st)
           | Some p \<Rightarrow>
               then_x (fset p (RPair True (JArgs a)) st)
                 (\<lambda>st. (None, erase_result (of_nat n) (upd_conn c (\<lambda>x. x\<lparr>rExecPending := removeAll (of_nat n) (rExecPending x)\<rparr>) st))))
      | _ \<Rightarrow> (None, st))"

text \<open>The part of the callback task that runs under \<^verbatim>\<open>mCallback\<close>: messages of a connection that is no longer valid are dropped; exceptions are
  swallowed.\<close>

definition RemoteArrivedCallback :: "renv \<Rightarrow> nat \<Rightarrow> string \<Rightarrow> 'j rmsg \<Rightarrow> 'j remote \<Rightarrow> 'j remote outcome" where
  "RemoteArrivedCallback env c t m st =
     (if \<not> List.member (isValidConnection st) c then Ok st
      else
        (let cf = conn st c; is = (\<lambda>name cmd. t = name \<and> m_cmd m = Field cmd); done = (\<lambda>r. Ok (snd r)) in
         if is (announceDown cf) ''PING'' then Ok (on_PING env c st)
         else if is (announceDown cf) ''KILL'' then done (Remote_ShutDown st)
         else if is (announceDown cf) ''REGISTER-ACK'' then Ok (on_REGISTER_ACK c st)
         else if is (announceDown cf) ''PUT-CF-INFO'' then obind (on_PUT_CF_INFO env m st) done
         else if is (replyDown cf) ''REXEC-ACK'' then done (on_REXEC_ACK m st)
         else if is (requestDown cf) ''REXEC-ASY'' then done (on_REXEC_ASY c m st)
         else if is (requestDown cf) ''REXEC-SYN'' then Ok st
         else if is (replyDown cf) ''REXEC-RES'' then done (on_REXEC_RES c m st)
         else Ok st))"

text \<open>The whole task: before it takes the lock and looks at the valid connections, it reads \<^verbatim>\<open>cfINFO->remote\<close>. The
  objects that exist are those that the node still owns.\<close>

definition owned :: "nat \<Rightarrow> 'j remote \<Rightarrow> bool" where
  "owned c st \<longleftrightarrow> mainFogInfo st = Some c \<or> List.member (map snd (cloudFogInfo st)) c"

definition arrived_task :: "renv \<Rightarrow> nat \<Rightarrow> string \<Rightarrow> 'j rmsg \<Rightarrow> ('j remote \<Rightarrow> 'j remote) \<Rightarrow> 'j remote \<Rightarrow> 'j remote outcome" where
  "arrived_task env c t m others st =
     (if owned c st then RemoteArrivedCallback env c t m (others st) else Fault Dangling)"

text \<open>The reply of a remote call, sent by the callback pool: up to three attempts, \<open>sent\<close> being the
  results of \<^verbatim>\<open>mqtt_publish\<close>.\<close>

fun reply_loop :: "nat \<Rightarrow> nat \<Rightarrow> bool list \<Rightarrow> nat \<Rightarrow> 'j json \<Rightarrow> 'j remote \<Rightarrow> 'j remote" where
  "reply_loop 0 c sent n j st = st"
| "reply_loop (Suc k) c sent n j st =
     (if List.member (isValidConnection st) c
      then (let st1 = mqtt_publish c ''/replies/up'' (PResult n j) st in
            if hd (sent @ [True]) then st1 else reply_loop k c (tl sent) n j st1)
      else st)"

definition send_reply :: "nat \<Rightarrow> bool list \<Rightarrow> nat \<Rightarrow> 'j json \<Rightarrow> 'j remote \<Rightarrow> 'j remote" where
  "send_reply c sent n j st = reply_loop 3 c sent n j st"

end
