(* ===== verification/RemoteCall.thy ===== *)
theory RemoteCall
  imports Remote
begin

text \<open>
  Remote executions (\<^verbatim>\<open>include/remote/remote.hpp\<close>, \<^verbatim>\<open>src/remote/remote.cc\<close>): how a request is
  registered and sent, the retry loops of its tasks, and the counter and once flag that the tasks
  of a request to all connections share. A task waits for its acknowledgement and its result;
  what the other threads do to the state during such a wait is an argument, and a wait that times
  out finds its future not ready afterwards.
\<close>

section \<open>Requests\<close>

text \<open>A host name, or the main connection; a connection is used only when it is registered.\<close>

definition find_conn :: "string option \<Rightarrow> 'j remote \<Rightarrow> nat option" where
  "find_conn host st = (case host of None \<Rightarrow> mainFogInfo st | Some h \<Rightarrow> map_of (cloudFogInfo st) h)"

definition registered :: "string option \<Rightarrow> 'j remote \<Rightarrow> nat option" where
  "registered host st =
     (case find_conn host st of
        None \<Rightarrow> None | Some c \<Rightarrow> if isRegistered (conn st c) then Some c else None)"

record 'j rtask =
  rt_host :: "string option"
  rt_eid :: u32
  rt_ack :: nat
  rt_exec :: nat
  rt_req :: "'j rexRequest"

definition async_request :: "string \<Rightarrow> string \<Rightarrow> u32 \<Rightarrow> 'j list \<Rightarrow> 'j rexRequest" where
  "async_request eName condstr condvec eArgs =
     \<lparr>r_cmd = ''REXEC-ASY'', r_actname = eName, r_args = eArgs, r_cond = condstr, r_condvec = condvec, r_opt = [], r_actid = 0\<rparr>"

definition sync_request :: "string \<Rightarrow> string \<Rightarrow> u32 \<Rightarrow> 'j list \<Rightarrow> 'j rexRequest" where
  "sync_request eName condstr condvec eArgs =
     \<lparr>r_cmd = ''REXEC-SYN'', r_actname = eName, r_args = eArgs, r_cond = condstr, r_condvec = condvec, r_opt = [], r_actid = 0\<rparr>"

definition new_fut :: "'j remote \<Rightarrow> nat \<times> 'j remote" where
  "new_fut st = (case new_promise (futs st) of (p, f) \<Rightarrow> (p, st\<lparr>futs := f\<rparr>))"

text \<open>Storing a promise under an identifier; a move assignment over an older promise forgets that
  promise without abandoning it.\<close>

definition store_ack :: "u32 \<Rightarrow> nat \<Rightarrow> 'j remote \<Rightarrow> 'j remote" where
  "store_ack i p st = st\<lparr>ackLookup := AList.update i p (ackLookup st)\<rparr>"

definition store_result :: "u32 \<Rightarrow> nat \<Rightarrow> 'j remote \<Rightarrow> 'j remote" where
  "store_result i p st = st\<lparr>rLookup := AList.update i p (rLookup st)\<rparr>"

definition add_pending :: "nat \<Rightarrow> u32 \<Rightarrow> 'j remote \<Rightarrow> 'j remote" where
  "add_pending c i st = upd_conn c (\<lambda>x. x\<lparr>rExecPending := List.insert i (rExecPending x)\<rparr>) st"

text \<open>The common part of the asynchronous variants: the identifier is taken and the promise of the
  acknowledgement stored. \<open>None\<close> when the connection is missing or not registered.\<close>

definition async_start :: "string option \<Rightarrow> 'j rexRequest \<Rightarrow> 'j remote \<Rightarrow> ('j rtask \<times> nat) option \<times> 'j remote" where
  "async_start host req st =
     (case new_fut st of (a, st1) \<Rightarrow>
        (case registered host st1 of
           None \<Rightarrow> (None, st1)
         | Some c \<Rightarrow>
             (let eid = eIdFactory st1;
                  req1 = req\<lparr>r_opt := cf_devId (conn st1 c), r_actid := eid\<rparr>
              in (Some (\<lparr>rt_host = host, rt_eid = eid, rt_ack = a, rt_exec = a, rt_req = req1\<rparr>, c),
                  store_ack eid a (st1\<lparr>eIdFactory := eid + 1\<rparr>)))))"

text \<open>The common part of the synchronous ones: both promises are stored, and the identifier is
  entered into the pending set of the main connection, whichever connection is used.\<close>

definition sync_start :: "string option \<Rightarrow> 'j rexRequest \<Rightarrow> 'j remote \<Rightarrow> ('j rtask option \<times> 'j remote) outcome" where
  "sync_start host req st =
     (case new_fut st of (a, st1) \<Rightarrow> case new_fut st1 of (e, st2) \<Rightarrow>
        (case registered host st2 of
           None \<Rightarrow> Ok (None, st2)
         | Some c \<Rightarrow>
             (let eid = eIdFactory st2;
                  req1 = req\<lparr>r_opt := cf_devId (conn st2 c), r_actid := eid\<rparr>;
                  st3 = store_result eid e (store_ack eid a (st2\<lparr>eIdFactory := eid + 1\<rparr>))
              in case mainFogInfo st3 of
                   None \<Rightarrow> Fault NullDeref
                 | Some m \<Rightarrow> Ok (Some \<lparr>rt_host = host, rt_eid = eid, rt_ack = a, rt_exec = e, rt_req = req1\<rparr>, add_pending m eid st3))))"

section \<open>Retry loops\<close>

text \<open>Sending the request, if the connection is still there and registered.\<close>

definition send_request :: "'j rtask \<Rightarrow> 'j remote \<Rightarrow> 'j remote option" where
  "send_request t st =
     (case registered (rt_host t) st of
        None \<Rightarrow> None | Some c \<Rightarrow> Some (mqtt_publish c (requestUp (conn st c)) (PRequest (rt_req t)) st))"

text \<open>How the loop over acknowledgements ends: connection lost, acknowledged (with \<open>True\<close>, or \<open>False\<close> when
  the connection was cleared), the branch for a failed last attempt, left after the last attempt,
  or an exception of \<^verbatim>\<open>futureAck.get()\<close>. The number counts the packets sent. \<open>wait k\<close> is what the other
  threads do during the wait of round \<open>k\<close>.\<close>

datatype ack_end = NotConnected | Acked bool | RetryFailed | LoopLeft | AckThrew exn

function ack_loop ::
  "'j rtask \<Rightarrow> (nat \<Rightarrow> 'j remote \<Rightarrow> 'j remote) \<Rightarrow> nat \<Rightarrow> nat \<Rightarrow> 'j remote \<Rightarrow> ack_end \<times> nat \<times> 'j remote" where
  "ack_loop t wait retryNum sent st =
     (if retryNum < 3 then
        (case send_request t st of
           None \<Rightarrow> (NotConnected, sent, st)
         | Some st1 \<Rightarrow>
             (let st2 = wait retryNum st1 in
              if \<not> is_ready (rt_ack t) (futs st2)
              then (if retryNum < 3 then ack_loop t wait (retryNum + 1) (sent + 1) st2 else (RetryFailed, sent + 1, st2))
              else (case content (st_at (futs st2) (rt_ack t)) of
                      Inr (FDat (RBool b)) \<Rightarrow> (Acked b, sent + 1, st2)
                    | Inr _ \<Rightarrow> (Acked False, sent + 1, st2)
                    | Inl e \<Rightarrow> (AckThrew e, sent + 1, st2))))
      else (LoopLeft, sent, st))"
  by pat_completeness auto
termination by (relation "measure (\<lambda>(t, wait, retryNum, sent, st). 3 - retryNum)") auto

declare ack_loop.simps [simp del]

text \<open>The asynchronous request to the main connection, with its own callbacks: the callbacks called, in order, and the
  packets sent.\<close>

definition CreateRetryTask_solo ::
  "'j rtask \<Rightarrow> (nat \<Rightarrow> 'j remote \<Rightarrow> 'j remote) \<Rightarrow> 'j remote \<Rightarrow> (rcallback list \<times> nat \<times> 'j remote) outcome" where
  "CreateRetryTask_solo t wait st =
     (case ack_loop t wait 0 0 st of
        (NotConnected, n, st1) \<Rightarrow> Ok ([FailureCb HeartbeatFailure], n, st1)
      | (RetryFailed, n, st1) \<Rightarrow> Ok ([FailureCb AckTimedOut], n, erase_ack (rt_eid t) st1)
      | (Acked True, n, st1) \<Rightarrow> Ok ([SuccessCb], n, st1)
      | (Acked False, n, st1) \<Rightarrow> Ok ([FailureCb HeartbeatFailure], n, st1)
      | (LoopLeft, n, st1) \<Rightarrow> Ok ([], n, st1)
      | (AckThrew e, n, st1) \<Rightarrow> Fault Uncaught)"

definition CreateRExecAsyncWithCallback ::
  "string \<Rightarrow> string \<Rightarrow> u32 \<Rightarrow> 'j list \<Rightarrow> 'j remote \<Rightarrow> (rcallback option \<times> 'j rtask option) \<times> 'j remote" where
  "CreateRExecAsyncWithCallback eName condstr condvec eArgs st =
     (case async_start None (async_request eName condstr condvec eArgs) st of
        (None, st1) \<Rightarrow> ((Some (FailureCb HeartbeatFailure), None), st1)
      | (Some (t, c), st1) \<Rightarrow> ((None, Some t), st1))"

section \<open>Requests to all connections\<close>

text \<open>The counter starts at zero and is compared, before the increment, with the number of hosts:
  the main connection makes one more task than there are hosts.\<close>

definition upd_agg :: "nat \<Rightarrow> (agg \<Rightarrow> agg) \<Rightarrow> 'j remote \<Rightarrow> 'j remote" where
  "upd_agg a f st = st\<lparr>aggs := (aggs st)[a := f (aggs st ! a)]\<rparr>"

definition report_failure :: "nat \<Rightarrow> RemoteExecutionErrorCode \<Rightarrow> 'j remote \<Rightarrow> 'j remote" where
  "report_failure a code st =
     upd_agg a (\<lambda>g. g\<lparr>failureCount := failureCount g + 1,
       cbLog := (if failureCount g = countCommon g then cbLog g @ [FailureCb code] else cbLog g)\<rparr>) st"

definition report_success :: "nat \<Rightarrow> 'j remote \<Rightarrow> 'j remote" where
  "report_success a st =
     upd_agg a (\<lambda>g. if calledOnce g then g else g\<lparr>calledOnce := True, cbLog := cbLog g @ [SuccessCb]\<rparr>) st"

definition CreateRetryTask_shared ::
  "nat \<Rightarrow> 'j rtask \<Rightarrow> (nat \<Rightarrow> 'j remote \<Rightarrow> 'j remote) \<Rightarrow> 'j remote \<Rightarrow> (nat \<times> 'j remote) outcome" where
  "CreateRetryTask_shared a t wait st =
     (case ack_loop t wait 0 0 st of
        (NotConnected, n, st1) \<Rightarrow> Ok (n, report_failure a HeartbeatFailure st1)
      | (RetryFailed, n, st1) \<Rightarrow> Ok (n, report_failure a AckTimedOut (erase_ack (rt_eid t) st1))
      | (Acked False, n, st1) \<Rightarrow> Ok (n, report_failure a HeartbeatFailure st1)
      | (Acked True, n, st1) \<Rightarrow> Ok (n, report_success a st1)
      | (LoopLeft, n, st1) \<Rightarrow> Ok (n, st1)
      | (AckThrew e, n, st1) \<Rightarrow> Fault Uncaught)"

definition CreateRExecAsyncWithCallbackNT :: "nat \<Rightarrow> string option \<Rightarrow> 'j rexRequest \<Rightarrow> 'j remote \<Rightarrow> 'j rtask option \<times> 'j remote" where
  "CreateRExecAsyncWithCallbackNT a host req st =
     (case async_start host req st of
        (None, st1) \<Rightarrow> (None, report_failure a HeartbeatFailure st1)
      | (Some (t, c), st1) \<Rightarrow> (Some t, case host of None \<Rightarrow> st1 | Some _ \<Rightarrow> add_pending c (rt_eid t) st1))"

definition new_agg :: "nat \<Rightarrow> nat \<Rightarrow> agg" where
  "new_agg n p = \<lparr>countCommon = n, failureCount = 0, calledOnce = False, cbLog = [], prCommon = p\<rparr>"

text \<open>One task for each host in turn, then one for the main connection.\<close>

definition CreateRExecAsyncWithCallbackToEachConnection ::
  "string \<Rightarrow> string \<Rightarrow> u32 \<Rightarrow> 'j list \<Rightarrow> 'j remote \<Rightarrow> 'j rtask option list \<times> 'j remote" where
  "CreateRExecAsyncWithCallbackToEachConnection eName condstr condvec eArgs st =
     (let hosts = map fst (cloudFogInfo st); a = length (aggs st);
          st1 = st\<lparr>aggs := aggs st @ [new_agg (length hosts) 0]\<rparr>
      in foldl (\<lambda>(ts, s) host. case CreateRExecAsyncWithCallbackNT a host (async_request eName condstr condvec eArgs) s of
                  (t, s1) \<Rightarrow> (ts @ [t], s1)) ([], st1) (map Some hosts @ [None]))"

section \<open>Synchronous requests\<close>

definition sync_fail :: "nat \<Rightarrow> string \<Rightarrow> 'j remote \<Rightarrow> exn option \<times> 'j remote" where
  "sync_fail a msg st =
     (let g = aggs st ! a; st1 = upd_agg a (\<lambda>g. g\<lparr>failureCount := failureCount g + 1\<rparr>) st in
      if failureCount g = countCommon g then fset (prCommon g) (RPair False (JExn msg)) st1 else (None, st1))"

text \<open>\<^verbatim>\<open>call_once\<close> leaves its flag alone when the function throws.\<close>

definition sync_succeed :: "nat \<Rightarrow> 'j json \<Rightarrow> 'j remote \<Rightarrow> exn option \<times> 'j remote" where
  "sync_succeed a v st =
     (if calledOnce (aggs st ! a) then (None, st)
      else then_x (fset (prCommon (aggs st ! a)) (RPair True v) st) (\<lambda>st. (None, upd_agg a (\<lambda>g. g\<lparr>calledOnce := True\<rparr>) st)))"

text \<open>An exception that leaves the task's function is not caught.\<close>

definition uncaught :: "exn option \<times> 'j remote \<Rightarrow> 'j remote outcome" where
  "uncaught r = (case r of (None, st) \<Rightarrow> Ok st | (Some _, st) \<Rightarrow> Fault Uncaught)"

text \<open>The part in the \<^verbatim>\<open>try\<close> block, after the wait for the result.\<close>

definition sync_exec :: "nat \<Rightarrow> 'j rtask \<Rightarrow> 'j remote \<Rightarrow> 'j remote outcome" where
  "sync_exec a t st =
     (case (if \<not> is_ready (rt_exec t) (futs st) then sync_fail a ''execution timeout'' st
            else (case content (st_at (futs st) (rt_exec t)) of
                    Inl e \<Rightarrow> (Some e, st)
                  | Inr (FDat (RPair True v)) \<Rightarrow> sync_succeed a v st
                  | Inr _ \<Rightarrow> sync_fail a ''heartbeat failed'' st)) of
        (None, st1) \<Rightarrow> Ok st1
      | (Some e, st1) \<Rightarrow> uncaught (sync_fail a (what e) st1))"

definition CreateRetryTaskSync_main ::
  "nat \<Rightarrow> 'j rexRequest \<Rightarrow> (nat \<Rightarrow> 'j remote \<Rightarrow> 'j remote) \<Rightarrow> ('j remote \<Rightarrow> 'j remote) \<Rightarrow> 'j remote \<Rightarrow> 'j remote outcome" where
  "CreateRetryTaskSync_main a req wait waitExec st =
     obind (sync_start None req st) (\<lambda>(task, st1).
       case task of
         None \<Rightarrow> uncaught (sync_fail a ''heartbeat failed'' st1)
       | Some t \<Rightarrow>
           (case ack_loop t wait 0 0 st1 of
              (NotConnected, _, st2) \<Rightarrow> uncaught (sync_fail a ''heartbeat failed'' st2)
            | (RetryFailed, _, st2) \<Rightarrow>
                uncaught (sync_fail a ''retry failed'' (erase_result (rt_eid t) (erase_ack (rt_eid t) st2)))
            | (AckThrew _, _, st2) \<Rightarrow> Fault Uncaught
            | (Acked False, _, st2) \<Rightarrow> uncaught (sync_fail a ''heartbeat failed'' st2)
            | (Acked True, _, st2) \<Rightarrow> sync_exec a t (waitExec st2)
            | (LoopLeft, _, st2) \<Rightarrow> sync_exec a t (waitExec st2)))"

text \<open>The variant for a host goes on to wait for a result after a negative acknowledgement.\<close>

definition CreateRetryTaskSync_host ::
  "nat \<Rightarrow> string \<Rightarrow> 'j rexRequest \<Rightarrow> (nat \<Rightarrow> 'j remote \<Rightarrow> 'j remote) \<Rightarrow> ('j remote \<Rightarrow> 'j remote) \<Rightarrow> 'j remote \<Rightarrow> 'j remote outcome" where
  "CreateRetryTaskSync_host a host req wait waitExec st =
     obind (sync_start (Some host) req st) (\<lambda>(task, st1).
       case task of
         None \<Rightarrow> uncaught (sync_fail a ''heartbeat failed'' st1)
       | Some t \<Rightarrow>
           (case ack_loop t wait 0 0 st1 of
              (NotConnected, _, st2) \<Rightarrow> uncaught (sync_fail a ''heartbeat failed'' st2)
            | (RetryFailed, _, st2) \<Rightarrow>
                uncaught (sync_fail a ''retry failed'' (erase_result (rt_eid t) (erase_ack (rt_eid t) st2)))
            | (AckThrew _, _, st2) \<Rightarrow> Fault Uncaught
            | (Acked False, _, st2) \<Rightarrow>
                obind (uncaught (sync_fail a ''heartbeat failed'' st2)) (\<lambda>st3. sync_exec a t (waitExec st3))
            | (Acked True, _, st2) \<Rightarrow> sync_exec a t (waitExec st2)
            | (LoopLeft, _, st2) \<Rightarrow> sync_exec a t (waitExec st2)))"

text \<open>The request to the main connection alone returns its JSON value; an exception of a future goes
  to the caller.\<close>

definition CreateRExecSyncWithTimeout ::
  "string \<Rightarrow> string \<Rightarrow> u32 \<Rightarrow> 'j list \<Rightarrow> (nat \<Rightarrow> 'j remote \<Rightarrow> 'j remote) \<Rightarrow> ('j remote \<Rightarrow> 'j remote) \<Rightarrow> 'j remote \<Rightarrow>
   ((exn + 'j json) \<times> 'j remote) outcome" where
  "CreateRExecSyncWithTimeout eName condstr condvec eArgs wait waitExec st =
     obind (sync_start None (sync_request eName condstr condvec eArgs) st) (\<lambda>(task, st1).
       case task of
         None \<Rightarrow> Ok (Inr (JExn ''heartbeat failed''), st1)
       | Some t \<Rightarrow>
           (let result = (\<lambda>st2. let st3 = waitExec st2 in
                  if \<not> is_ready (rt_exec t) (futs st3) then Ok (Inr (JExn ''value timeout''), st3)
                  else (case content (st_at (futs st3) (rt_exec t)) of
                          Inl e \<Rightarrow> Ok (Inl e, st3)
                        | Inr (FDat (RPair _ v)) \<Rightarrow> Ok (Inr v, st3)
                        | Inr _ \<Rightarrow> Ok (Inr JEmpty, st3)))
            in case ack_loop t wait 0 0 st1 of
                 (NotConnected, _, st2) \<Rightarrow> Ok (Inr (JExn ''heartbeat failed''), st2)
               | (RetryFailed, _, st2) \<Rightarrow> Ok (Inr (JExn ''retry failed''), erase_result (rt_eid t) (erase_ack (rt_eid t) st2))
               | (AckThrew e, _, st2) \<Rightarrow> Ok (Inl e, st2)
               | (Acked False, _, st2) \<Rightarrow> Ok (Inr (JExn ''heartbeat failed''), st2)
               | (Acked True, _, st2) \<Rightarrow> result st2
               | (LoopLeft, _, st2) \<Rightarrow> result st2))"

text \<open>The request to all connections: the counter and the common promise, and the tasks to run, the
  main connection's first.\<close>

definition CreateRExecSyncToEachConnection_begin :: "'j remote \<Rightarrow> nat \<times> string option list \<times> 'j remote" where
  "CreateRExecSyncToEachConnection_begin st =
     (case new_fut st of (p, st1) \<Rightarrow>
        (length (aggs st1), None # map Some (map fst (cloudFogInfo st1)),
         st1\<lparr>aggs := aggs st1 @ [new_agg (length (cloudFogInfo st1)) p]\<rparr>))"

section \<open>How often a request is sent\<close>

lemma ack_loop_bound:
  "ack_loop t wait k n st = (r, n', st') \<Longrightarrow> n' \<le> n + (3 - k) \<and> r \<noteq> RetryFailed \<and> (r = LoopLeft \<longrightarrow> k \<le> 3 \<longrightarrow> n' = n + (3 - k))"
proof (induction t wait k n st arbitrary: n' r st' rule: ack_loop.induct)
  case (1 t wait k n st)
  show ?case
  proof (cases "send_request t st")
    case None
    then show ?thesis using "1.prems" by (auto simp: ack_loop.simps [of t wait k n st] split: if_splits)
  next
    case (Some st1)
    show ?thesis
    proof (cases "k < 3 \<and> \<not> is_ready (rt_ack t) (futs (wait k st1))")
      case True
      then have "ack_loop t wait (k + 1) (n + 1) (wait k st1) = (r, n', st')"
        using "1.prems" Some by (simp add: ack_loop.simps [of t wait k n st])
      then show ?thesis using "1.IH" [OF _ Some refl] True by fastforce
    next
      case False
      then show ?thesis using "1.prems" Some
        by (auto simp: ack_loop.simps [of t wait k n st] Let_def split: if_splits sum.splits fval.splits rval.splits)
    qed
  qed
qed

end
