(* ===== verification/RemoteSafe.thy ===== *)
theory RemoteSafe
  imports RemoteCall
begin

text \<open>
  Safety of the connection bookkeeping: whatever messages arrive and whenever connections expire,
  only open connections are reachable, no promise is fulfilled twice, and losing a connection
  answers every request that is pending on it.
\<close>

section \<open>Invariant\<close>

definition unset :: "'j remote \<Rightarrow> nat \<Rightarrow> bool" where
  "unset st p \<longleftrightarrow> \<not> mval (st_at (futs st) p)"

text \<open>The table of promises: known states, no state twice.\<close>

definition table_ok :: "'j remote \<Rightarrow> bool" where
  "table_ok st \<longleftrightarrow> distinct (map fst (ackLookup st)) \<and> distinct (map fst (rLookup st)) \<and>
     distinct (map snd (ackLookup st) @ map snd (rLookup st)) \<and>
     (\<forall>p \<in> set (map snd (ackLookup st) @ map snd (rLookup st)). p < length (states (futs st)))"

text \<open>The connections in \<open>V\<close> are open, their pending requests are distinct and unanswered.\<close>

definition live :: "nat set \<Rightarrow> 'j remote \<Rightarrow> bool" where
  "live V st \<longleftrightarrow> (\<forall>c \<in> V. c < length (conns st) \<and> adapterOpen (conn st c) \<and> distinct (rExecPending (conn st c)) \<and>
       (\<forall>i \<in> set (rExecPending (conn st c)). \<forall>p. map_of (ackLookup st) i = Some p \<or> map_of (rLookup st) i = Some p \<longrightarrow> unset st p)) \<and>
     (\<forall>c \<in> V. \<forall>d \<in> V. c \<noteq> d \<longrightarrow> set (rExecPending (conn st c)) \<inter> set (rExecPending (conn st d)) = {})"

definition links :: "'j remote \<Rightarrow> bool" where
  "links st \<longleftrightarrow> distinct (map fst (cloudFogInfo st)) \<and> distinct (map snd (cloudFogInfo st)) \<and>
     (\<forall>c. mainFogInfo st = Some c \<longrightarrow> c \<notin> snd ` set (cloudFogInfo st)) \<and>
     set (isValidConnection st) = set_option (mainFogInfo st) \<union> snd ` set (cloudFogInfo st)"

definition sent_open :: "'j remote \<Rightarrow> bool" where
  "sent_open st \<longleftrightarrow> (\<forall>(c, open, t, p) \<in> set (published st). open)"

definition rinv :: "'j remote \<Rightarrow> bool" where
  "rinv st \<longleftrightarrow> table_ok st \<and> live (set (isValidConnection st)) st \<and> links st \<and> sent_open st"

section \<open>Fulfilling promises\<close>

lemma fset_unset:
  assumes "unset st p" "p < length (states (futs st))"
  obtains f where "fset p v st = (None, st\<lparr>futs := f\<rparr>)" "length (states f) = length (states (futs st))"
    "\<And>u. mval (st_at f u) \<longleftrightarrow> mval (st_at (futs st) u) \<or> u = p"
    "exception_ptr (st_at (futs st) p) = None \<Longrightarrow> content (st_at f p) = Inr (FDat v)"
    "\<And>u. u \<noteq> p \<Longrightarrow> st_at f u = st_at (futs st) u"
proof -
  let ?f = "set_ready p (upd_st p (\<lambda>x. x\<lparr>fvalue := FDat v\<rparr>) (futs st))"
  have m: "mval (st_at ?f u) \<longleftrightarrow> mval (st_at (futs st) u) \<or> u = p" for u
    using assms(2) by (cases "u = p") simp_all
  have c: "content (st_at ?f p) = Inr (FDat v)" if "exception_ptr (st_at (futs st) p) = None"
    using that assms(2) by (simp add: content_def)
  have o: "u \<noteq> p \<Longrightarrow> st_at ?f u = st_at (futs st) u" for u by simp
  have "fset p v st = (None, st\<lparr>futs := ?f\<rparr>)" using assms(1) by (simp add: fset_def set_value_def unset_def)
  then show ?thesis by (rule that) (use m c o in auto)
qed

text \<open>The loops of \<^verbatim>\<open>Clear\<close>, over one of the two tables.\<close>

definition answer :: "('j remote \<Rightarrow> (u32 \<times> nat) list) \<Rightarrow> 'j rval \<Rightarrow> u32 \<Rightarrow> 'j remote \<Rightarrow> exn option \<times> 'j remote" where
  "answer tab v i st = (case map_of (tab st) i of None \<Rightarrow> (None, st) | Some p \<Rightarrow> fset p v st)"

lemma answer_loop:
  assumes tab: "\<And>f. tab (st\<lparr>futs := f\<rparr>) = tab st" and d: "distinct ids" "distinct (map fst (tab st))" "distinct (map snd (tab st))"
    and u: "\<And>i p. i \<in> set ids \<Longrightarrow> map_of (tab st) i = Some p \<Longrightarrow> unset st p \<and> p < length (states (futs st))"
  obtains f where "each_x (answer tab v) ids st = (None, st\<lparr>futs := f\<rparr>)" "length (states f) = length (states (futs st))"
    "\<And>u. mval (st_at f u) \<longleftrightarrow> mval (st_at (futs st) u) \<or> (\<exists>i \<in> set ids. map_of (tab st) i = Some u)"
    "\<And>i p. i \<in> set ids \<Longrightarrow> map_of (tab st) i = Some p \<Longrightarrow> exception_ptr (st_at (futs st) p) = None \<Longrightarrow>
      content (st_at f p) = Inr (FDat v)"
    "\<And>u. (\<forall>i \<in> set ids. map_of (tab st) i \<noteq> Some u) \<Longrightarrow> st_at f u = st_at (futs st) u"
  using tab d u
proof (induction ids arbitrary: st thesis)
  case Nil
  show ?case by (rule Nil.prems(1) [of "futs st"]) simp_all
next
  case (Cons i ids)
  note tab = Cons.prems(2) and d = Cons.prems(3-5) and u = Cons.prems(6)
  show ?case
  proof (cases "map_of (tab st) i")
    case None
    obtain f where f: "each_x (answer tab v) ids st = (None, st\<lparr>futs := f\<rparr>)" "length (states f) = length (states (futs st))"
      "\<And>u. mval (st_at f u) \<longleftrightarrow> mval (st_at (futs st) u) \<or> (\<exists>i \<in> set ids. map_of (tab st) i = Some u)"
      "\<And>i p. i \<in> set ids \<Longrightarrow> map_of (tab st) i = Some p \<Longrightarrow> exception_ptr (st_at (futs st) p) = None \<Longrightarrow>
        content (st_at f p) = Inr (FDat v)"
      "\<And>u. (\<forall>i \<in> set ids. map_of (tab st) i \<noteq> Some u) \<Longrightarrow> st_at f u = st_at (futs st) u"
      by (rule Cons.IH [of st]) (use tab d u in \<open>auto intro: that\<close>)
    have "answer tab v i st = (None, st)" using None by (simp add: answer_def)
    then show ?thesis using None f by (intro Cons.prems(1) [of f]) auto
  next
    case (Some p)
    obtain g where g: "fset p v st = (None, st\<lparr>futs := g\<rparr>)" "length (states g) = length (states (futs st))"
      "\<And>u. mval (st_at g u) \<longleftrightarrow> mval (st_at (futs st) u) \<or> u = p"
      "exception_ptr (st_at (futs st) p) = None \<Longrightarrow> content (st_at g p) = Inr (FDat v)"
      "\<And>u. u \<noteq> p \<Longrightarrow> st_at g u = st_at (futs st) u"
      by (rule fset_unset [of st p v]) (use u [of i p] Some in auto)
    let ?st = "st\<lparr>futs := g\<rparr>"
    have inj: "map_of (tab st) j = Some p \<Longrightarrow> j = i" for j
      using Some d(2,3) by (metis distinct_map map_of_SomeD inj_onD prod.inject snd_conv)
    have "unset ?st q \<and> q < length (states (futs ?st))" if "j \<in> set ids" "map_of (tab ?st) j = Some q" for j q
    proof -
      have j: "map_of (tab st) j = Some q" using that(2) tab by simp
      then have "unset st q" "q < length (states (futs st))" using u [of j q] that(1) by auto
      moreover have "q \<noteq> p" using inj [of j] j that(1) d(1) by auto
      ultimately show ?thesis using g(2,3) by (simp add: unset_def)
    qed
    then obtain f where f: "each_x (answer tab v) ids ?st = (None, ?st\<lparr>futs := f\<rparr>)" "length (states f) = length (states (futs ?st))"
      "\<And>u. mval (st_at f u) \<longleftrightarrow> mval (st_at (futs ?st) u) \<or> (\<exists>i \<in> set ids. map_of (tab ?st) i = Some u)"
      "\<And>i p. i \<in> set ids \<Longrightarrow> map_of (tab ?st) i = Some p \<Longrightarrow> exception_ptr (st_at (futs ?st) p) = None \<Longrightarrow>
        content (st_at f p) = Inr (FDat v)"
      "\<And>u. (\<forall>i \<in> set ids. map_of (tab ?st) i \<noteq> Some u) \<Longrightarrow> st_at f u = st_at (futs ?st) u"
      using Cons.IH [of ?st] tab d by auto
    have keep: "st_at f u = st_at g u" if "\<forall>i \<in> set ids. map_of (tab st) i \<noteq> Some u" for u
      using f(5) [of u] that tab by simp
    have p: "\<forall>j \<in> set ids. map_of (tab st) j \<noteq> Some p" using inj d(1) by auto
    have "content (st_at f q) = Inr (FDat v)"
      if q: "j \<in> set (i # ids)" "map_of (tab st) j = Some q" "exception_ptr (st_at (futs st) q) = None" for j q
    proof (cases "q = p")
      case True
      then show ?thesis using keep [OF p] g(4) q(3) by simp
    next
      case False
      then have "j \<in> set ids" using q(1,2) Some by auto
      then show ?thesis using f(4) [of j q] q False g(5) [of q] tab by simp
    qed
    moreover have "st_at f u = st_at (futs st) u" if "\<forall>j \<in> set (i # ids). map_of (tab st) j \<noteq> Some u" for u
      using that keep [of u] g(5) [of u] Some by auto
    moreover have "answer tab v i st = (None, ?st)" using Some g(1) by (simp add: answer_def)
    ultimately show ?thesis using Some g(2,3) f(1-3) tab by (intro Cons.prems(1) [of f]) auto
  qed
qed

lemma Clear_unfold:
  "Clear_requests c st =
     then_x
       (each_x (answer ackLookup (RBool False)) (rExecPending (conn st c)) (upd_conn c (\<lambda>x. x\<lparr>isRegistered := False\<rparr>) st))
       (each_x (answer rLookup (RPair False JEmpty)) (rExecPending (conn st c)))"
  by (simp add: Clear_requests_def answer_def [abs_def])

lemma table_disjoint:
  assumes "table_ok st"
  shows "map_of (ackLookup st) i = Some p \<Longrightarrow> map_of (rLookup st) j \<noteq> Some p"
    "map_of (ackLookup st) i = Some p \<Longrightarrow> p < length (states (futs st))"
    "map_of (rLookup st) i = Some p \<Longrightarrow> p < length (states (futs st))"
    "map_of (ackLookup st) i = Some p \<Longrightarrow> map_of (ackLookup st) j = Some p \<Longrightarrow> i = j"
    "map_of (rLookup st) i = Some p \<Longrightarrow> map_of (rLookup st) j = Some p \<Longrightarrow> i = j"
proof -
  have t: "distinct (map snd (ackLookup st))" "distinct (map snd (rLookup st))"
    "set (map snd (ackLookup st)) \<inter> set (map snd (rLookup st)) = {}"
    "\<And>p. p \<in> set (map snd (ackLookup st)) \<or> p \<in> set (map snd (rLookup st)) \<Longrightarrow> p < length (states (futs st))"
    using assms by (auto simp: table_ok_def)
  have m: "map_of xs i = Some p \<Longrightarrow> p \<in> set (map snd xs)" for xs :: "(u32 \<times> nat) list" and i p
    by (metis image_eqI list.set_map map_of_SomeD snd_conv)
  show "map_of (ackLookup st) i = Some p \<Longrightarrow> map_of (rLookup st) j \<noteq> Some p" using m t(3) by fast
  show "map_of (ackLookup st) i = Some p \<Longrightarrow> p < length (states (futs st))"
    "map_of (rLookup st) i = Some p \<Longrightarrow> p < length (states (futs st))" using m t(4) by blast+
  show "map_of (ackLookup st) i = Some p \<Longrightarrow> map_of (ackLookup st) j = Some p \<Longrightarrow> i = j"
    "map_of (rLookup st) i = Some p \<Longrightarrow> map_of (rLookup st) j = Some p \<Longrightarrow> i = j"
    using t(1,2) by (metis distinct_map inj_onD map_of_SomeD prod.inject snd_conv)+
qed

text \<open>Clearing a live connection does not throw; it closes the connection and answers exactly its
  pending requests.\<close>

definition answered :: "'j remote \<Rightarrow> nat \<Rightarrow> nat \<Rightarrow> bool" where
  "answered st c u \<longleftrightarrow> (\<exists>i \<in> set (rExecPending (conn st c)). map_of (ackLookup st) i = Some u \<or> map_of (rLookup st) i = Some u)"

lemma Clear_requests_live:
  assumes t: "table_ok st" and l: "live V st" and c: "c \<in> V"
  obtains f where "Clear_requests c st = (None, st\<lparr>conns := (conns st)[c := (conn st c)\<lparr>isRegistered := False\<rparr>], futs := f\<rparr>)"
    "length (states f) = length (states (futs st))" "\<And>u. mval (st_at f u) \<longleftrightarrow> mval (st_at (futs st) u) \<or> answered st c u"
    "\<And>i p. i \<in> set (rExecPending (conn st c)) \<Longrightarrow> map_of (ackLookup st) i = Some p \<Longrightarrow>
       exception_ptr (st_at (futs st) p) = None \<Longrightarrow> content (st_at f p) = Inr (FDat (RBool False))"
    "\<And>i p. i \<in> set (rExecPending (conn st c)) \<Longrightarrow> map_of (rLookup st) i = Some p \<Longrightarrow>
       exception_ptr (st_at (futs st) p) = None \<Longrightarrow> content (st_at f p) = Inr (FDat (RPair False JEmpty))"
    "\<And>u. \<not> answered st c u \<Longrightarrow> st_at f u = st_at (futs st) u"
proof -
  let ?ids = "rExecPending (conn st c)" and ?st = "upd_conn c (\<lambda>x. x\<lparr>isRegistered := False\<rparr>) st"
  have cl: "c < length (conns st)" "distinct ?ids"
    "\<And>i p. i \<in> set ?ids \<Longrightarrow> map_of (ackLookup st) i = Some p \<or> map_of (rLookup st) i = Some p \<Longrightarrow> unset st p"
    using l c by (auto simp: live_def)
  have same: "ackLookup ?st = ackLookup st" "rLookup ?st = rLookup st" "futs ?st = futs st"
    by (simp_all add: upd_conn_def)
  have d: "distinct (map fst (ackLookup st))" "distinct (map snd (ackLookup st))" "distinct (map fst (rLookup st))" "distinct (map snd (rLookup st))"
    using t by (auto simp: table_ok_def)
  obtain f where f: "each_x (answer ackLookup (RBool False)) ?ids ?st = (None, ?st\<lparr>futs := f\<rparr>)"
    "length (states f) = length (states (futs st))"
    "\<And>u. mval (st_at f u) \<longleftrightarrow> mval (st_at (futs st) u) \<or> (\<exists>i \<in> set ?ids. map_of (ackLookup st) i = Some u)"
    "\<And>i p. i \<in> set ?ids \<Longrightarrow> map_of (ackLookup st) i = Some p \<Longrightarrow> exception_ptr (st_at (futs st) p) = None \<Longrightarrow>
      content (st_at f p) = Inr (FDat (RBool False))"
    "\<And>u. (\<forall>i \<in> set ?ids. map_of (ackLookup st) i \<noteq> Some u) \<Longrightarrow> st_at f u = st_at (futs st) u"
    by (rule answer_loop [of ackLookup ?st ?ids "RBool False"])
      (use cl(2,3) d table_disjoint(2) [OF t] in \<open>auto simp: same unset_def\<close>)
  have u: "unset (?st\<lparr>futs := f\<rparr>) p \<and> p < length (states f)"
    if "i \<in> set ?ids" "map_of (rLookup st) i = Some p" for i p
    using cl(3) [OF that(1)] that(2) f(2,3) table_disjoint(1,3) [OF t] by (auto simp: unset_def)
  obtain g where g: "each_x (answer rLookup (RPair False JEmpty)) ?ids (?st\<lparr>futs := f\<rparr>) = (None, ?st\<lparr>futs := f\<rparr>\<lparr>futs := g\<rparr>)"
    "length (states g) = length (states f)"
    "\<And>u. mval (st_at g u) \<longleftrightarrow> mval (st_at f u) \<or> (\<exists>i \<in> set ?ids. map_of (rLookup st) i = Some u)"
    "\<And>i p. i \<in> set ?ids \<Longrightarrow> map_of (rLookup st) i = Some p \<Longrightarrow> exception_ptr (st_at f p) = None \<Longrightarrow>
      content (st_at g p) = Inr (FDat (RPair False JEmpty))"
    "\<And>u. (\<forall>i \<in> set ?ids. map_of (rLookup st) i \<noteq> Some u) \<Longrightarrow> st_at g u = st_at f u"
    by (rule answer_loop [of rLookup "?st\<lparr>futs := f\<rparr>" ?ids "RPair False JEmpty"])
      (use cl(2) d u in \<open>auto simp: same\<close>)
  have ack: "st_at g p = st_at f p" if "map_of (ackLookup st) i = Some p" for i p
    using g(5) [of p] table_disjoint(1) [OF t that] by blast
  have res: "st_at f p = st_at (futs st) p" if "map_of (rLookup st) i = Some p" for i p
    using f(5) [of p] table_disjoint(1) [OF t] that by blast
  show ?thesis
  proof (rule that [of g])
    show "Clear_requests c st = (None, st\<lparr>conns := (conns st)[c := (conn st c)\<lparr>isRegistered := False\<rparr>], futs := g\<rparr>)"
      using f(1) g(1) cl(1) by (simp add: Clear_unfold then_x_def upd_conn_def)
    show "length (states g) = length (states (futs st))" using f(2) g(2) by simp
    show "mval (st_at g u) \<longleftrightarrow> mval (st_at (futs st) u) \<or> answered st c u" for u
      using f(3) g(3) by (auto simp: answered_def)
    show "content (st_at g p) = Inr (FDat (RBool False))"
      if "i \<in> set ?ids" "map_of (ackLookup st) i = Some p" "exception_ptr (st_at (futs st) p) = None" for i p
      using f(4) [OF that] ack [OF that(2)] by simp
    show "content (st_at g p) = Inr (FDat (RPair False JEmpty))"
      if "i \<in> set ?ids" "map_of (rLookup st) i = Some p" "exception_ptr (st_at (futs st) p) = None" for i p
      using g(4) [OF that(1,2)] res [OF that(2)] that(3) by simp
    show "st_at g u = st_at (futs st) u" if "\<not> answered st c u" for u
      using f(5) [of u] g(5) [of u] that unfolding answered_def by metis
  qed
qed

lemma Clear_live:
  assumes t: "table_ok st" and l: "live V st" and c: "c \<in> V"
  obtains f where "Clear c st = (None, st\<lparr>conns := (conns st)[c := (conn st c)\<lparr>isRegistered := False, adapterOpen := False\<rparr>], futs := f\<rparr>)"
    "length (states f) = length (states (futs st))" "\<And>u. mval (st_at f u) \<longleftrightarrow> mval (st_at (futs st) u) \<or> answered st c u"
proof -
  have cl: "c < length (conns st)" using l c by (auto simp: live_def)
  obtain f where f: "Clear_requests c st = (None, st\<lparr>conns := (conns st)[c := (conn st c)\<lparr>isRegistered := False\<rparr>], futs := f\<rparr>)"
    "length (states f) = length (states (futs st))" "\<And>u. mval (st_at f u) \<longleftrightarrow> mval (st_at (futs st) u) \<or> answered st c u"
    by (rule Clear_requests_live [OF assms]) blast
  have "Clear c st = (None, st\<lparr>conns := (conns st)[c := (conn st c)\<lparr>isRegistered := False, adapterOpen := False\<rparr>], futs := f\<rparr>)"
    using f(1) cl by (simp add: Clear_def then_x_def upd_conn_def)
  then show thesis using f(2,3) that by blast
qed

text \<open>The connection is out, the others stay as they were.\<close>

lemma Clear_keeps:
  assumes t: "table_ok st" and l: "live V st" and c: "c \<in> V"
  obtains st' where "Clear c st = (None, st')" "table_ok st'" "live (V - {c}) st'"
    "mainFogInfo st' = mainFogInfo st" "cloudFogInfo st' = cloudFogInfo st" "isValidConnection st' = isValidConnection st"
    "published st' = published st" "length (conns st') = length (conns st)" "\<And>d. d \<noteq> c \<Longrightarrow> conn st' d = conn st d"
    "my_hostAddr st' = my_hostAddr st"
proof -
  obtain f where f: "Clear c st = (None, st\<lparr>conns := (conns st)[c := (conn st c)\<lparr>isRegistered := False, adapterOpen := False\<rparr>], futs := f\<rparr>)"
    "length (states f) = length (states (futs st))" "\<And>u. mval (st_at f u) \<longleftrightarrow> mval (st_at (futs st) u) \<or> answered st c u"
    by (rule Clear_live [OF assms]) blast
  let ?st = "st\<lparr>conns := (conns st)[c := (conn st c)\<lparr>isRegistered := False, adapterOpen := False\<rparr>], futs := f\<rparr>"
  have tab: "table_ok ?st" using t f(2) by (simp add: table_ok_def)
  have not_answered: "\<not> answered st c p"
    if d: "d \<in> V" "d \<noteq> c" "i \<in> set (rExecPending (conn st d))" "map_of (ackLookup st) i = Some p \<or> map_of (rLookup st) i = Some p" for d i p
  proof
    assume "answered st c p"
    then obtain j where j: "j \<in> set (rExecPending (conn st c))" "map_of (ackLookup st) j = Some p \<or> map_of (rLookup st) j = Some p"
      by (auto simp: answered_def)
    have "i = j" using d(4) j(2) table_disjoint(1,4,5) [OF t] by blast
    then show False using l c d(1-3) j(1) by (auto simp: live_def)
  qed
  have "live (V - {c}) ?st"
    using l not_answered f(3) by (auto simp: live_def unset_def)
  with tab f(1) show ?thesis by (intro that [of ?st]) auto
qed

lemma live_mono: "live V st \<Longrightarrow> W \<subseteq> V \<Longrightarrow> live W st"
  unfolding live_def by blast

lemma live_cong:
  assumes "live V st" "conns st' = conns st" "ackLookup st' = ackLookup st" "rLookup st' = rLookup st" "futs st' = futs st" "W \<subseteq> V"
  shows "live W st'"
proof -
  have "live V st'" using assms(1-5) by (simp add: live_def unset_def)
  then show ?thesis using assms(6) by (rule live_mono)
qed

lemma table_cong:
  "table_ok st \<Longrightarrow> ackLookup st' = ackLookup st \<Longrightarrow> rLookup st' = rLookup st \<Longrightarrow>
   length (states (futs st')) = length (states (futs st)) \<Longrightarrow> table_ok st'"
  by (simp add: table_ok_def)

text \<open>Changes of flags and counters of a connection.\<close>

lemma rinv_upd_conn:
  assumes "rinv st" "\<And>x. adapterOpen (f x) = adapterOpen x" "\<And>x. rExecPending (f x) = rExecPending x"
  shows "rinv (upd_conn c f st)"
proof -
  have "adapterOpen (conn (upd_conn c f st) d) = adapterOpen (conn st d)"
    "rExecPending (conn (upd_conn c f st) d) = rExecPending (conn st d)" for d
    using assms(2,3) by (cases "c < length (conns st)"; cases "d = c"; simp add: upd_conn_def list_update_beyond)+
  then show ?thesis using assms(1)
    by (simp add: rinv_def upd_conn_def table_ok_def live_def links_def sent_open_def unset_def)
qed

lemma rinv_publish:
  assumes "rinv st" "List.member (isValidConnection st) c"
  shows "rinv (mqtt_publish c t p st)"
  using assms by (auto simp: rinv_def mqtt_publish_def table_ok_def live_def links_def sent_open_def unset_def)

text \<open>A new connection that is entered into the table and the set of valid ones.\<close>

lemma rinv_new_conn:
  assumes "rinv st" "adapterOpen x" "rExecPending x = []" "n = length (conns st)"
    "set V = insert n (set (isValidConnection st))"
    "(M = Some n \<and> mainFogInfo st = None \<and> C = cloudFogInfo st) \<or>
     (M = mainFogInfo st \<and> C = cloudFogInfo st @ [(h, n)] \<and> map_of (cloudFogInfo st) h = None)"
  shows "rinv (st\<lparr>conns := conns st @ [x], mainFogInfo := M, cloudFogInfo := C, isValidConnection := V\<rparr>)"
proof -
  have l: "live (set (isValidConnection st)) st" and k: "links st" using assms(1) by (simp_all add: rinv_def)
  have n: "c < length (conns st)" if "c \<in> set (isValidConnection st)" for c using l that by (simp add: live_def)
  let ?st = "st\<lparr>conns := conns st @ [x], mainFogInfo := M, cloudFogInfo := C, isValidConnection := V\<rparr>"
  have at: "conn ?st n = x" "\<And>c. c < length (conns st) \<Longrightarrow> conn ?st c = conn st c" using assms(4) by (simp_all add: nth_append)
  have "live (set V) ?st"
    using l n less_SucI [OF n] at assms(2-5) by (auto simp: live_def unset_def)
  moreover have "links ?st"
  proof -
    have nin: "n \<notin> snd ` set (cloudFogInfo st)" "mainFogInfo st \<noteq> Some n" using n [of n] k assms(4) by (auto simp: links_def)
    show ?thesis using assms(5,6) k nin by (auto simp: links_def map_of_eq_None_iff image_iff) (metis snd_conv)
  qed
  ultimately show ?thesis using assms(1) by (simp add: rinv_def table_ok_def sent_open_def)
qed

lemma rinv_expire_main:
  assumes "rinv st"
  obtains st' where "expire_main st = (None, st')" "rinv st'"
proof (cases "mainFogInfo st")
  case None
  let ?x = "new_CloudFogInfo (my_devId st) (my_appId st) (my_hostAddr st)"
  have "rinv (st\<lparr>conns := conns st @ [?x], mainFogInfo := Some (length (conns st)), cloudFogInfo := cloudFogInfo st,
      isValidConnection := List.insert (length (conns st)) (isValidConnection st)\<rparr>)"
    using assms None by (intro rinv_new_conn) (auto simp: new_CloudFogInfo_def)
  then show ?thesis using None by (intro that) (auto simp: expire_main_def make_conn_def add_valid_def)
next
  case (Some c)
  have c: "c \<in> set (isValidConnection st)" and t: "table_ok st" and l: "live (set (isValidConnection st)) st"
    and k: "links st" and s: "sent_open st"
    using assms Some by (auto simp: rinv_def links_def)
  show ?thesis
  proof (cases "isExpired (conn st c)")
    case False
    then show ?thesis using Some rinv_upd_conn [OF assms, of "\<lambda>x. x\<lparr>isExpired := True\<rparr>" c]
      by (intro that) (auto simp: expire_main_def)
  next
    case True
    obtain st' where st': "Clear c st = (None, st')" "table_ok st'" "live (set (isValidConnection st) - {c}) st'"
      "mainFogInfo st' = mainFogInfo st" "cloudFogInfo st' = cloudFogInfo st" "isValidConnection st' = isValidConnection st"
      "published st' = published st"
      by (rule Clear_keeps [OF t l c]) blast
    let ?st = "(erase_valid c st')\<lparr>mainFogInfo := None\<rparr>"
    have "table_ok ?st" using st'(2) by (simp add: table_ok_def erase_valid_def)
    moreover have "live (set (isValidConnection ?st)) ?st"
      by (rule live_cong [OF st'(3)]) (auto simp: erase_valid_def st'(6))
    moreover have "links ?st" using k Some st'(4-6) by (auto simp: links_def erase_valid_def)
    moreover have "sent_open ?st" using s st'(7) by (simp add: sent_open_def erase_valid_def)
    ultimately show ?thesis using Some True st'(1) by (intro that [of ?st]) (auto simp: rinv_def expire_main_def then_x_def)
  qed
qed

text \<open>The loop over the hosts: those found expired are cleared and collected.\<close>

lemma expire_loop_keeps:
  assumes "table_ok st" "live V st" "snd ` set hs \<subseteq> V" "distinct (map snd hs)"
  shows "\<exists>st' gone. each_x expire_cloud hs (st, acc) = (None, (st', acc @ map fst gone)) \<and> set gone \<subseteq> set hs \<and>
    table_ok st' \<and> live (V - snd ` set gone) st' \<and> mainFogInfo st' = mainFogInfo st \<and> cloudFogInfo st' = cloudFogInfo st \<and>
    isValidConnection st' = isValidConnection st \<and> published st' = published st"
  using assms
proof (induction hs arbitrary: st V acc)
  case Nil
  then show ?case by (intro exI [of _ st] exI [of _ "[]"]) simp
next
  case (Cons hc hs)
  obtain h c where hc: "hc = (h, c)" by force
  have c: "c \<in> V" using Cons.prems(3) hc by simp
  show ?case
  proof (cases "isExpired (conn st c)")
    case False
    let ?st = "upd_conn c (\<lambda>x. x\<lparr>isExpired := True\<rparr>) st"
    have "conn ?st d = (if d = c then (conn st c)\<lparr>isExpired := True\<rparr> else conn st d)" for d
      using Cons.prems(2) c by (auto simp: upd_conn_def live_def)
    then have "live V ?st" using Cons.prems(2) by (simp add: live_def unset_def upd_conn_def)
    moreover have "table_ok ?st" using Cons.prems(1) by (simp add: table_ok_def upd_conn_def)
    ultimately obtain st' gone where s: "each_x expire_cloud hs (?st, acc) = (None, (st', acc @ map fst gone))" "set gone \<subseteq> set hs"
      "table_ok st'" "live (V - snd ` set gone) st'" "mainFogInfo st' = mainFogInfo ?st" "cloudFogInfo st' = cloudFogInfo ?st"
      "isValidConnection st' = isValidConnection ?st" "published st' = published ?st"
      using Cons.IH [of ?st V acc] Cons.prems(3,4) by auto
    moreover have "expire_cloud hc (st, acc) = (None, (?st, acc))" using False by (simp add: expire_cloud_def hc)
    ultimately show ?thesis by (intro exI [of _ st'] exI [of _ gone]) (auto simp: upd_conn_def)
  next
    case True
    obtain st1 where st1: "Clear c st = (None, st1)" "table_ok st1" "live (V - {c}) st1"
      "mainFogInfo st1 = mainFogInfo st" "cloudFogInfo st1 = cloudFogInfo st" "isValidConnection st1 = isValidConnection st"
      "published st1 = published st"
      by (rule Clear_keeps [OF Cons.prems(1,2) c]) blast
    have "snd ` set hs \<subseteq> V - {c}" using Cons.prems(3,4) hc by auto
    then obtain st' gone where s: "each_x expire_cloud hs (st1, acc @ [h]) = (None, (st', (acc @ [h]) @ map fst gone))" "set gone \<subseteq> set hs"
      "table_ok st'" "live (V - {c} - snd ` set gone) st'" "mainFogInfo st' = mainFogInfo st1" "cloudFogInfo st' = cloudFogInfo st1"
      "isValidConnection st' = isValidConnection st1" "published st' = published st1"
      using Cons.IH [OF st1(2,3), of "acc @ [h]"] Cons.prems(4) by auto
    moreover have "expire_cloud hc (st, acc) = (None, (st1, acc @ [h]))" using True st1(1) by (simp add: expire_cloud_def hc)
    moreover have "V - {c} - snd ` set gone = V - snd ` set (hc # gone)" using hc by auto
    ultimately show ?thesis using st1 hc by (intro exI [of _ st'] exI [of _ "hc # gone"]) auto
  qed
qed

lemma map_of_distinct_snd:
  "distinct (map fst xs) \<Longrightarrow> (h, c) \<in> set xs \<Longrightarrow> map_of xs h = Some c"
  by simp

text \<open>Erasing a host takes its connection out of the tables.\<close>

lemma links_erase_host:
  assumes "links st"
  shows "links (erase_host h st)"
    "set (isValidConnection (erase_host h st)) = set (isValidConnection st) - {c. map_of (cloudFogInfo st) h = Some c}"
    "cloudFogInfo (erase_host h st) = AList.delete h (cloudFogInfo st)"
proof -
  have d: "distinct (map fst (cloudFogInfo st))" "distinct (map snd (cloudFogInfo st))" using assms by (simp_all add: links_def)
  show v: "set (isValidConnection (erase_host h st)) = set (isValidConnection st) - {c. map_of (cloudFogInfo st) h = Some c}"
    by (auto simp: erase_host_def erase_valid_def split: option.split)
  show cl: "cloudFogInfo (erase_host h st) = AList.delete h (cloudFogInfo st)"
    by (auto simp: erase_host_def AList.delete_eq map_of_eq_None_iff split: option.split intro!: filter_True [symmetric]) (metis fst_conv image_eqI)
  have "snd ` set (AList.delete h (cloudFogInfo st)) = snd ` set (cloudFogInfo st) - {c. map_of (cloudFogInfo st) h = Some c}"
  proof
    show "snd ` set (AList.delete h (cloudFogInfo st)) \<subseteq> snd ` set (cloudFogInfo st) - {c. map_of (cloudFogInfo st) h = Some c}"
      using d by (auto simp: AList.delete_eq) (metis distinct_map fst_conv inj_onD map_of_SomeD snd_conv)
    show "snd ` set (cloudFogInfo st) - {c. map_of (cloudFogInfo st) h = Some c} \<subseteq> snd ` set (AList.delete h (cloudFogInfo st))"
      using d by (force simp: AList.delete_eq)
  qed
  moreover have "distinct (map fst (AList.delete h (cloudFogInfo st)))" "distinct (map snd (AList.delete h (cloudFogInfo st)))"
    using d by (simp_all add: AList.delete_eq distinct_map_filter)
  moreover have "mainFogInfo (erase_host h st) = mainFogInfo st" by (simp add: erase_host_def erase_valid_def split: option.split)
  moreover have "\<And>c. mainFogInfo st = Some c \<Longrightarrow> map_of (cloudFogInfo st) h \<noteq> Some c"
    using assms by (auto simp: links_def dest!: map_of_SomeD) (metis image_eqI snd_conv)
  ultimately show "links (erase_host h st)" using assms v cl unfolding links_def by auto
qed

lemma erase_host_frame:
  "mainFogInfo (erase_host h st) = mainFogInfo st" "conns (erase_host h st) = conns st" "ackLookup (erase_host h st) = ackLookup st"
  "rLookup (erase_host h st) = rLookup st" "futs (erase_host h st) = futs st" "published (erase_host h st) = published st"
  by (simp_all add: erase_host_def erase_valid_def split: option.split)

lemma rinv_erase_hosts:
  assumes "table_ok st" "links st" "sent_open st" "live (set (isValidConnection st) - snd ` set gone) st"
    "\<And>h c. (h, c) \<in> set gone \<Longrightarrow> map_of (cloudFogInfo st) h = Some c \<or> (map_of (cloudFogInfo st) h = None \<and> c \<notin> set (isValidConnection st))"
  shows "rinv (fold erase_host (map fst gone) st)"
  using assms
proof (induction gone arbitrary: st)
  case Nil
  then show ?case by (simp add: rinv_def)
next
  case (Cons hc gone)
  obtain h c where hc: "hc = (h, c)" by force
  let ?st = "erase_host h st"
  note e = links_erase_host [OF Cons.prems(2), of h]
  have h: "map_of (cloudFogInfo st) h = Some c \<or> (map_of (cloudFogInfo st) h = None \<and> c \<notin> set (isValidConnection st))"
    using Cons.prems(5) hc by simp
  have "set (isValidConnection ?st) - snd ` set gone = set (isValidConnection st) - snd ` set (hc # gone)"
    using h e(2) hc by auto
  then have "live (set (isValidConnection ?st) - snd ` set gone) ?st"
    using live_cong [OF Cons.prems(4), of ?st] by (simp add: erase_host_frame)
  moreover have "map_of (cloudFogInfo ?st) h' = Some c' \<or> (map_of (cloudFogInfo ?st) h' = None \<and> c' \<notin> set (isValidConnection ?st))"
    if "(h', c') \<in> set gone" for h' c'
    using Cons.prems(5) [of h' c'] that h e(2,3) by (auto simp: AList.delete_conv' split: if_splits)
  moreover have "table_ok ?st" "sent_open ?st"
    using Cons.prems(1,3) by (simp_all add: table_ok_def sent_open_def erase_host_frame)
  ultimately have "rinv (fold erase_host (map fst gone) ?st)" using Cons.IH [of ?st] e(1) by blast
  then show ?case using hc by simp
qed

lemma rinv_CheckExpire:
  assumes "rinv st"
  shows "\<exists>st'. CheckExpire_round st = (None, st') \<and> rinv st'"
proof -
  obtain st1 where st1: "expire_main st = (None, st1)" "rinv st1" by (rule rinv_expire_main [OF assms])
  then have r: "table_ok st1" "live (set (isValidConnection st1)) st1" "links st1" "sent_open st1" by (simp_all add: rinv_def)
  have cl: "snd ` set (cloudFogInfo st1) \<subseteq> set (isValidConnection st1)" "distinct (map snd (cloudFogInfo st1))" "distinct (map fst (cloudFogInfo st1))"
    using r(3) by (auto simp: links_def)
  obtain st2 gone where st2: "each_x expire_cloud (cloudFogInfo st1) (st1, []) = (None, (st2, map fst gone))" "set gone \<subseteq> set (cloudFogInfo st1)"
    "table_ok st2" "live (set (isValidConnection st1) - snd ` set gone) st2" "mainFogInfo st2 = mainFogInfo st1"
    "cloudFogInfo st2 = cloudFogInfo st1" "isValidConnection st2 = isValidConnection st1" "published st2 = published st1"
    using expire_loop_keeps [OF r(1,2) cl(1,2), of "[]"] by auto
  have "links st2" "sent_open st2" using r(3,4) st2(5-8) by (simp_all add: links_def sent_open_def)
  moreover have "map_of (cloudFogInfo st2) h = Some c" if "(h, c) \<in> set gone" for h c
    using st2(2,6) that cl(3) by auto
  ultimately have "rinv (fold erase_host (map fst gone) st2)"
    using st2(3,4,7) by (intro rinv_erase_hosts) auto
  then show ?thesis using st1(1) st2(1) by (simp add: CheckExpire_round_def then_x_def)
qed

lemma Clear_all:
  assumes "table_ok st" "live V st" "set cs \<subseteq> V" "distinct cs"
  shows "\<exists>st'. each_x Clear cs st = (None, st') \<and> table_ok st' \<and> published st' = published st \<and> mainFogInfo st' = mainFogInfo st"
  using assms
proof (induction cs arbitrary: st V)
  case Nil
  then show ?case by simp
next
  case (Cons c cs)
  obtain st1 where st1: "Clear c st = (None, st1)" "table_ok st1" "live (V - {c}) st1" "mainFogInfo st1 = mainFogInfo st" "published st1 = published st"
    by (rule Clear_keeps [OF Cons.prems(1,2), of c]) (use Cons.prems(3) in auto)
  then show ?case using Cons.IH [OF st1(2,3)] Cons.prems(3,4) by auto
qed

lemma rinv_CancelAll:
  assumes "rinv st"
  shows "\<exists>st'. CancelAllRExecRequests st = (None, st') \<and> rinv st' \<and> isValidConnection st' = [] \<and> mainFogInfo st' = None"
proof -
  let ?V = "set (isValidConnection st)"
  have r: "table_ok st" "live ?V st" "links st" "sent_open st" using assms by (simp_all add: rinv_def)
  have cs: "set (map snd (cloudFogInfo st)) \<subseteq> ?V - set_option (mainFogInfo st)" "distinct (map snd (cloudFogInfo st))"
    using r(3) by (auto simp: links_def)
  obtain st1 where st1: "(case mainFogInfo st of
            None \<Rightarrow> (None, st) | Some c \<Rightarrow> then_x (Clear c st) (\<lambda>st. (None, st\<lparr>mainFogInfo := None\<rparr>))) = (None, st1)"
    "table_ok st1" "live (?V - set_option (mainFogInfo st)) st1" "cloudFogInfo st1 = cloudFogInfo st" "published st1 = published st" "mainFogInfo st1 = None"
  proof (cases "mainFogInfo st")
    case None
    then show ?thesis using r by (intro that [of st]) auto
  next
    case (Some c)
    then have "c \<in> ?V" using r(3) by (auto simp: links_def)
    then obtain st' where st': "Clear c st = (None, st')" "table_ok st'" "live (?V - {c}) st'" "cloudFogInfo st' = cloudFogInfo st" "published st' = published st"
      by (rule Clear_keeps [OF r(1,2)]) blast
    have "live (?V - {c}) (st'\<lparr>mainFogInfo := None\<rparr>)" by (rule live_cong [OF st'(3)]) auto
    moreover have "table_ok (st'\<lparr>mainFogInfo := None\<rparr>)" using st'(2) by (simp add: table_ok_def)
    ultimately show ?thesis using Some st' by (intro that [of "st'\<lparr>mainFogInfo := None\<rparr>"]) (auto simp: then_x_def)
  qed
  obtain st2 where st2: "each_x Clear (map snd (cloudFogInfo st1)) st1 = (None, st2)" "table_ok st2" "published st2 = published st1" "mainFogInfo st2 = mainFogInfo st1"
    using Clear_all [OF st1(2,3), of "map snd (cloudFogInfo st1)"] cs st1(4) by auto
  have "rinv (st2\<lparr>cloudFogInfo := [], isValidConnection := []\<rparr>)"
    using st2 st1(5,6) r(4) by (simp add: rinv_def table_ok_def live_def links_def sent_open_def)
  then show ?thesis using st1(1,6) st2(1,4) by (simp add: CancelAllRExecRequests_def then_x_def)
qed

section \<open>Messages and requests keep the invariant\<close>

lemma rinv_simple:
  assumes "rinv st" "conns st' = conns st" "mainFogInfo st' = mainFogInfo st" "cloudFogInfo st' = cloudFogInfo st"
    "isValidConnection st' = isValidConnection st" "ackLookup st' = ackLookup st" "rLookup st' = rLookup st"
    "futs st' = futs st" "published st' = published st"
  shows "rinv st'"
  using assms by (simp add: rinv_def table_ok_def live_def links_def sent_open_def unset_def)

lemma rinv_PING:
  assumes "rinv st" "List.member (isValidConnection st) c"
  shows "rinv (on_PING env c st)"
proof -
  have p: "rinv s \<Longrightarrow> isValidConnection s = isValidConnection st \<Longrightarrow> rinv (mqtt_publish c t x s)" for s :: "'a remote" and t x
    using assms(2) by (simp add: rinv_publish)
  have v: "isValidConnection (upd_conn d f s) = isValidConnection s" "isValidConnection (mqtt_publish d t x s) = isValidConnection s"
    for d f t x and s :: "'a remote" by (simp_all add: upd_conn_def mqtt_publish_def)
  show ?thesis unfolding on_PING_def Let_def
    using assms(1) by (auto intro!: rinv_upd_conn p simp: v)
qed

lemma rinv_add_host:
  assumes "rinv st"
  shows "rinv (add_host host st)"
proof -
  let ?x = "new_CloudFogInfo (my_devId st) (my_appId st) host"
  let ?n = "length (conns st)"
  have x: "adapterOpen ?x" "rExecPending ?x = []" by (simp_all add: new_CloudFogInfo_def)
  have upd: "rinv (upd_conn c (\<lambda>x. x\<lparr>isRegistered := True\<rparr>) s)" if "rinv s" for c and s :: "'a remote"
    using that by (rule rinv_upd_conn) simp_all
  show ?thesis
  proof (cases "map_of (cloudFogInfo st) host")
    case None
    let ?st = "st\<lparr>conns := conns st @ [?x], mainFogInfo := mainFogInfo st, cloudFogInfo := cloudFogInfo st @ [(host, ?n)],
        isValidConnection := List.insert ?n (isValidConnection st)\<rparr>"
    have r: "rinv ?st" using assms x None by (intro rinv_new_conn) auto
    have m: "map_of (cloudFogInfo st @ [(host, ?n)]) host = Some ?n" using None by (simp add: map_add_def)
    show ?thesis
      by (rule rinv_simple [OF upd [OF r, of ?n]])
        (use None m in \<open>simp_all add: add_host_def make_conn_def Let_def add_valid_def upd_conn_def\<close>)
  next
    case (Some c)
    have c: "c \<in> set (isValidConnection st)" using assms Some by (force simp: rinv_def links_def dest: map_of_SomeD)
    have "live (set (isValidConnection st)) (st\<lparr>conns := conns st @ [?x]\<rparr>)"
      using assms by (auto simp: rinv_def live_def unset_def nth_append)
    then have r: "rinv (st\<lparr>conns := conns st @ [?x]\<rparr>)"
      using assms by (simp add: rinv_def table_ok_def links_def sent_open_def)
    show ?thesis
      by (rule rinv_simple [OF upd [OF r, of c]])
        (use Some c in \<open>simp_all add: add_host_def make_conn_def Let_def add_valid_def upd_conn_def List.insert_def\<close>)
  qed
qed

lemma rinv_erase_host:
  assumes "table_ok st" "links st" "sent_open st" "live (set (isValidConnection st) - {c}) st" "map_of (cloudFogInfo st) h = Some c"
  shows "rinv (erase_host h st)"
  using rinv_erase_hosts [OF assms(1-3), of "[(h, c)]"] assms(4,5) by simp

lemma rinv_del_host:
  assumes "rinv st" "del_host host st = Ok (e, st')"
  shows "rinv st'"
proof -
  have r: "table_ok st" "live (set (isValidConnection st)) st" "links st" "sent_open st" using assms(1) by (simp_all add: rinv_def)
  obtain c where c: "map_of (cloudFogInfo st) host = Some c" using assms(2) by (auto simp: del_host_def split: option.splits)
  then have "c \<in> set (isValidConnection st)" using r(3) by (force simp: links_def dest: map_of_SomeD)
  then obtain st1 where st1: "Clear c st = (None, st1)" "table_ok st1" "live (set (isValidConnection st) - {c}) st1"
    "mainFogInfo st1 = mainFogInfo st" "cloudFogInfo st1 = cloudFogInfo st" "isValidConnection st1 = isValidConnection st"
    "published st1 = published st"
    by (rule Clear_keeps [OF r(1,2)]) blast
  have "rinv (erase_host host st1)"
    using st1 r(3,4) c by (intro rinv_erase_host) (auto simp: links_def sent_open_def)
  then show ?thesis using assms(2) c st1(1) by (simp add: del_host_def then_x_def)
qed

lemma rinv_PUT_CF_INFO:
  assumes "rinv st" "on_PUT_CF_INFO env m st = Ok (e, st')"
  shows "rinv st'"
proof -
  have c: "rinv (st\<lparr>rcache := x\<rparr>)" for x by (rule rinv_simple [OF assms(1)]) simp_all
  have u: "rinv st'" if cf: "cf_update env m act st = Ok (e, st')" and
    act: "\<And>h s e s'. rinv s \<Longrightarrow> act h s = Ok (e, s') \<Longrightarrow> rinv s'" for act
  proof (cases "m_actid m")
    case (Field n)
    let ?st = "st\<lparr>rcache := of_nat n # rcache st\<rparr>"
    show ?thesis
    proof (cases "cache_contains env (rcache st) (of_nat n)")
      case False
      then obtain r where "first_string (m_args m) = Ok r" "(case r of Inl e \<Rightarrow> Ok (Some e, ?st) | Inr h \<Rightarrow> act h ?st) = Ok (e, st')"
        using cf Field by (auto simp: cf_update_def Let_def)
      then show ?thesis using c act [OF c] by (cases r) auto
    qed (use cf Field assms(1) in \<open>simp add: cf_update_def\<close>)
  qed (use cf assms(1) in \<open>simp_all add: cf_update_def\<close>)
  consider "cf_update env m (\<lambda>host st. Ok (None, add_host host st)) st = Ok (e, st')" |
    "cf_update env m del_host st = Ok (e, st')" | "st' = st"
    using assms(2) by (auto simp: on_PUT_CF_INFO_def split: if_splits)
  then show ?thesis
  proof cases
    case 1
    then show ?thesis by (rule u) (auto intro: rinv_add_host)
  next
    case 2
    then show ?thesis by (rule u) (rule rinv_del_host)
  qed (simp add: assms(1))
qed

text \<open>Fulfilling the promise of an entry and erasing the entry.\<close>

lemma abandon_set: "mval (st_at f p) \<Longrightarrow> abandon p f = f"
  by (simp add: abandon_def)

lemma rinv_answer_erase:
  assumes r: "rinv st" and u: "unset st p" and p: "p < length (states (futs st))"
    and A: "set A \<subseteq> set (ackLookup st)" "set R \<subseteq> set (rLookup st)" "distinct (map fst A)" "distinct (map fst R)"
      "distinct (map snd A @ map snd R)" "p \<notin> snd ` (set A \<union> set R)"
  obtains f where "fset p v st = (None, st\<lparr>futs := f\<rparr>)" "mval (st_at f p)" "rinv (st\<lparr>futs := f, ackLookup := A, rLookup := R\<rparr>)"
proof -
  obtain f where f: "fset p v st = (None, st\<lparr>futs := f\<rparr>)" "length (states f) = length (states (futs st))"
    "\<And>u. mval (st_at f u) \<longleftrightarrow> mval (st_at (futs st) u) \<or> u = p"
    by (rule fset_unset [OF u p]) blast
  let ?st = "st\<lparr>futs := f, ackLookup := A, rLookup := R\<rparr>"
  have t: "table_ok st" and l: "live (set (isValidConnection st)) st" using r by (simp_all add: rinv_def)
  have sub: "map_of A i = Some q \<Longrightarrow> map_of (ackLookup st) i = Some q \<and> q \<noteq> p"
    "map_of R i = Some q \<Longrightarrow> map_of (rLookup st) i = Some q \<and> q \<noteq> p" for i q
  proof -
    have d: "distinct (map fst (ackLookup st))" "distinct (map fst (rLookup st))" using t by (simp_all add: table_ok_def)
    have np: "(i, q) \<in> set A \<union> set R \<Longrightarrow> q \<noteq> p" using A(6) by force
    show "map_of A i = Some q \<Longrightarrow> map_of (ackLookup st) i = Some q \<and> q \<noteq> p"
      using A(1) d(1) np by (auto dest!: map_of_SomeD)
    show "map_of R i = Some q \<Longrightarrow> map_of (rLookup st) i = Some q \<and> q \<noteq> p"
      using A(2) d(2) np by (auto dest!: map_of_SomeD)
  qed
  have "snd ` set A \<union> snd ` set R \<subseteq> snd ` set (ackLookup st) \<union> snd ` set (rLookup st)" using A(1,2) by blast
  moreover have "\<forall>q \<in> snd ` set (ackLookup st) \<union> snd ` set (rLookup st). q < length (states (futs st))"
    using t by (simp add: table_ok_def)
  ultimately have "\<forall>q \<in> snd ` set A \<union> snd ` set R. q < length (states f)" unfolding f(2) by blast
  then have "table_ok ?st" using A(3-5) by (simp add: table_ok_def)
  moreover have "unset ?st q" if "c \<in> set (isValidConnection st)" "i \<in> set (rExecPending (conn st c))" "map_of A i = Some q \<or> map_of R i = Some q" for c i q
    using l that f(3) [of q] sub [of i q] by (auto simp: live_def unset_def)
  then have "live (set (isValidConnection ?st)) ?st"
    using l by (simp add: live_def)
  ultimately have "rinv ?st" using r by (simp add: rinv_def links_def sent_open_def)
  then show ?thesis using f by (intro that [of f]) auto
qed

lemma fset_set: "\<not> unset st p \<Longrightarrow> fset p v st = (Some (FutureError PromiseAlreadySatisfied), st)"
  by (simp add: fset_def set_value_def unset_def)

lemma delete_table:
  assumes "table_ok st"
  shows "set (AList.delete i (ackLookup st)) \<subseteq> set (ackLookup st)" "set (AList.delete i (rLookup st)) \<subseteq> set (rLookup st)"
    "distinct (map fst (AList.delete i (ackLookup st)))" "distinct (map fst (AList.delete i (rLookup st)))"
    "distinct (map snd (AList.delete i (ackLookup st)) @ map snd (rLookup st))"
    "distinct (map snd (ackLookup st) @ map snd (AList.delete i (rLookup st)))"
    "map_of (ackLookup st) i = Some p \<Longrightarrow> p \<notin> snd ` (set (AList.delete i (ackLookup st)) \<union> set (rLookup st))"
    "map_of (rLookup st) i = Some p \<Longrightarrow> p \<notin> snd ` (set (ackLookup st) \<union> set (AList.delete i (rLookup st)))"
proof -
  have d: "distinct (map fst (ackLookup st))" "distinct (map fst (rLookup st))" "distinct (map snd (ackLookup st))"
    "distinct (map snd (rLookup st))" "snd ` set (ackLookup st) \<inter> snd ` set (rLookup st) = {}"
    using assms by (auto simp: table_ok_def)
  show a: "set (AList.delete i (ackLookup st)) \<subseteq> set (ackLookup st)" "set (AList.delete i (rLookup st)) \<subseteq> set (rLookup st)"
    by (auto simp: AList.delete_eq)
  show "distinct (map fst (AList.delete i (ackLookup st)))" "distinct (map fst (AList.delete i (rLookup st)))"
    using d by (simp_all add: AList.delete_eq distinct_map_filter)
  show "distinct (map snd (AList.delete i (ackLookup st)) @ map snd (rLookup st))"
    "distinct (map snd (ackLookup st) @ map snd (AList.delete i (rLookup st)))"
    using d a by (simp_all add: AList.delete_eq distinct_map_filter) blast+
  note t = table_disjoint [OF assms]
  show "map_of (ackLookup st) i = Some p \<Longrightarrow> p \<notin> snd ` (set (AList.delete i (ackLookup st)) \<union> set (rLookup st))"
    using t(1,4) d(1,2) by (auto simp: AList.delete_eq)
  show "map_of (rLookup st) i = Some p \<Longrightarrow> p \<notin> snd ` (set (ackLookup st) \<union> set (AList.delete i (rLookup st)))"
    using t(1,5) d(1,2) by (auto simp: AList.delete_eq)
qed

lemma rinv_REXEC_ACK:
  assumes r: "rinv st"
  shows "rinv (snd (on_REXEC_ACK m st))"
proof (cases "\<exists>n p. m_actid m = Field n \<and> map_of (ackLookup st) (of_nat n) = Some p \<and> unset st p")
  case True
  then obtain n p where n: "m_actid m = Field n" "map_of (ackLookup st) (of_nat n) = Some p" "unset st p" by blast
  have t: "table_ok st" using r by (simp add: rinv_def)
  obtain f where f: "fset p (RBool True) st = (None, st\<lparr>futs := f\<rparr>)" "mval (st_at f p)"
    "rinv (st\<lparr>futs := f, ackLookup := AList.delete (of_nat n) (ackLookup st), rLookup := rLookup st\<rparr>)"
    by (rule rinv_answer_erase [OF r n(3) table_disjoint(2) [OF t n(2)] delete_table(1) [OF t] subset_refl delete_table(3) [OF t] _
          delete_table(5) [OF t] delete_table(7) [OF t n(2)]])
      (use t in \<open>auto simp: table_ok_def\<close>)
  show ?thesis using f n by (intro rinv_simple [OF f(3)]) (simp_all add: on_REXEC_ACK_def then_x_def erase_ack_def abandon_set)
next
  case False
  then have "snd (on_REXEC_ACK m st) = st"
    by (auto simp: on_REXEC_ACK_def then_x_def fset_set split: field.splits option.splits)
  then show ?thesis using r by simp
qed

lemma rinv_less_pending:
  assumes "rinv st" "\<And>x. adapterOpen (g x) = adapterOpen x" "\<And>x. set (rExecPending (g x)) \<subseteq> set (rExecPending x)"
    "\<And>x. distinct (rExecPending x) \<Longrightarrow> distinct (rExecPending (g x))"
  shows "rinv (upd_conn c g st)"
proof -
  have g: "conn (upd_conn c g st) d = (if d = c \<and> c < length (conns st) then g (conn st c) else conn st d)" for d
    by (cases "c < length (conns st)") (auto simp: upd_conn_def list_update_beyond)
  have l: "live (set (isValidConnection st)) st" using assms(1) by (simp add: rinv_def)
  have sub: "set (rExecPending (conn (upd_conn c g st) d)) \<subseteq> set (rExecPending (conn st d))" for d using assms(3) g by simp
  have "unset (upd_conn c g st) p"
    if "d \<in> set (isValidConnection st)" "i \<in> set (rExecPending (conn (upd_conn c g st) d))"
      "map_of (ackLookup st) i = Some p \<or> map_of (rLookup st) i = Some p" for d i p
  proof -
    have "i \<in> set (rExecPending (conn st d))" using sub that(2) by blast
    then have "unset st p" using l that(1,3) unfolding live_def by blast
    then show ?thesis by (simp add: unset_def upd_conn_def)
  qed
  moreover have "set (rExecPending (conn (upd_conn c g st) d)) \<inter> set (rExecPending (conn (upd_conn c g st) e)) = {}"
    if "d \<in> set (isValidConnection st)" "e \<in> set (isValidConnection st)" "d \<noteq> e" for d e
    using l that sub [of d] sub [of e] unfolding live_def by blast
  moreover have "d < length (conns (upd_conn c g st)) \<and> adapterOpen (conn (upd_conn c g st) d) \<and> distinct (rExecPending (conn (upd_conn c g st) d))"
    if "d \<in> set (isValidConnection st)" for d
    using l that g assms(2,4) by (auto simp: live_def upd_conn_def)
  ultimately have "live (set (isValidConnection st)) (upd_conn c g st)"
    unfolding live_def by (simp add: upd_conn_def)
  then show ?thesis using assms(1) by (simp add: rinv_def table_ok_def links_def sent_open_def upd_conn_def)
qed

lemma rinv_REXEC_RES:
  assumes r: "rinv st"
  shows "rinv (snd (on_REXEC_RES c m st))"
proof (cases "\<exists>n a p. m_actid m = Field n \<and> m_args m = Some a \<and> map_of (rLookup st) (of_nat n) = Some p \<and> unset st p")
  case True
  then obtain n a p where n: "m_actid m = Field n" "m_args m = Some a" "map_of (rLookup st) (of_nat n) = Some p" "unset st p" by blast
  have t: "table_ok st" using r by (simp add: rinv_def)
  let ?g = "\<lambda>x. x\<lparr>rExecPending := removeAll (of_nat n) (rExecPending x)\<rparr>"
  obtain f where f: "fset p (RPair True (JArgs a)) st = (None, st\<lparr>futs := f\<rparr>)" "mval (st_at f p)"
    "rinv (st\<lparr>futs := f, ackLookup := ackLookup st, rLookup := AList.delete (of_nat n) (rLookup st)\<rparr>)"
    by (rule rinv_answer_erase [OF r n(4) table_disjoint(3) [OF t n(3)] subset_refl delete_table(2) [OF t] _ delete_table(4) [OF t]
          delete_table(6) [OF t] delete_table(8) [OF t n(3)]])
      (use t in \<open>auto simp: table_ok_def\<close>)
  have "rinv (upd_conn c ?g (st\<lparr>futs := f, ackLookup := ackLookup st, rLookup := AList.delete (of_nat n) (rLookup st)\<rparr>))"
    by (rule rinv_less_pending [OF f(3)]) (auto simp: distinct_removeAll)
  from rinv_simple [OF this] f n show ?thesis
    by (simp add: on_REXEC_RES_def then_x_def erase_result_def abandon_set upd_conn_def)
next
  case False
  then have "snd (on_REXEC_RES c m st) = st"
    by (auto simp: on_REXEC_RES_def then_x_def fset_set split: field.splits option.splits)
  then show ?thesis using r by simp
qed

lemma rinv_REXEC_ASY:
  assumes "rinv st" "List.member (isValidConnection st) c"
  shows "rinv (snd (on_REXEC_ASY c m st))"
proof -
  have s: "rinv (st\<lparr>rpcTasks := x\<rparr>)" "rinv (st\<lparr>rpcTasks := x, rcache := y\<rparr>)" for x y
    by (rule rinv_simple [OF assms(1)]; simp)+
  have p: "rinv (mqtt_publish c t q (st\<lparr>rpcTasks := x, rcache := y\<rparr>))" for x y t q
    using assms(2) by (intro rinv_publish s) simp
  show ?thesis using assms(1) s p
    by (auto simp: on_REXEC_ASY_def CreateRPBatchCall_def split: field.splits if_splits)
qed

end
