(* ===== verification/RemoteSystem.thy ===== *)
theory RemoteSystem
  imports RemoteSafe
begin

text \<open>
  The remote side as a transition system: messages arrive, connections expire, requests are
  started, sent and answered, in any order. Each step is one critical section of \<^verbatim>\<open>mCallback\<close>.
\<close>

section \<open>Starting a request\<close>

lemma alist_update_snd:
  fixes al :: "('k \<times> 'v) list"
  shows "snd ` set (AList.update k v al) \<subseteq> insert v (snd ` set al)"
    "distinct (map snd al) \<Longrightarrow> v \<notin> snd ` set al \<Longrightarrow> distinct (map snd (AList.update k v al))"
proof -
  show s: "snd ` set (AList.update k v al) \<subseteq> insert v (snd ` set al)" for al :: "('k \<times> 'v) list"
    by (induction al) auto
  show "distinct (map snd al) \<Longrightarrow> v \<notin> snd ` set al \<Longrightarrow> distinct (map snd (AList.update k v al))"
  proof (induction al)
    case (Cons a al)
    then show ?case using s [of al] by (cases a) (auto simp: image_iff subset_iff)
  qed simp
qed

definition untabled :: "nat \<Rightarrow> 'j remote \<Rightarrow> bool" where
  "untabled p st \<longleftrightarrow> p < length (states (futs st)) \<and> p \<notin> snd ` (set (ackLookup st) \<union> set (rLookup st))"

lemma table_store:
  assumes "distinct (map fst A)" "distinct (map snd A @ map snd B)" "p \<notin> snd ` (set A \<union> set B)"
    "\<forall>q \<in> set (map snd A @ map snd B). q < (n::nat)" "p < n"
  shows "distinct (map fst (AList.update i p A)) \<and> distinct (map snd (AList.update i p A) @ map snd B) \<and>
    (\<forall>q \<in> set (map snd (AList.update i p A) @ map snd B). q < n)"
proof -
  have s: "set (map snd (AList.update i p A)) \<subseteq> insert p (set (map snd A))" using alist_update_snd(1) [of i p A] by simp
  have d: "distinct (map snd (AList.update i p A))" using alist_update_snd(2) [of A p i] assms(2,3) by auto
  have "set (map snd (AList.update i p A)) \<inter> set (map snd B) = {}"
    using s assms(2,3) by auto
  moreover have "q < n" if "q \<in> set (map snd (AList.update i p A) @ map snd B)" for q
  proof -
    have "q \<in> insert p (set (map snd A @ map snd B))" using that s by auto
    then show ?thesis using assms(4,5) by blast
  qed
  ultimately show ?thesis using d assms(1,2) by (simp add: AList.distinct_update)
qed

lemma table_store_ack:
  assumes "table_ok st" "untabled p st"
  shows "table_ok (store_ack i p st)"
  using table_store [of "ackLookup st" "rLookup st" p "length (states (futs st))" i] assms
  by (simp add: table_ok_def untabled_def store_ack_def)

lemma table_store_result:
  assumes "table_ok st" "untabled p st"
  shows "table_ok (store_result i p st)"
  using table_store [of "rLookup st" "ackLookup st" p "length (states (futs st))" i] assms
  by (simp add: table_ok_def untabled_def store_result_def Int_commute Un_commute)

text \<open>Tables that agree on the pending identifiers of the valid connections.\<close>

lemma rinv_tables:
  assumes "rinv st" "table_ok st'" "conns st' = conns st" "mainFogInfo st' = mainFogInfo st" "cloudFogInfo st' = cloudFogInfo st"
    "isValidConnection st' = isValidConnection st" "futs st' = futs st" "published st' = published st"
    "\<And>c i. c \<in> set (isValidConnection st) \<Longrightarrow> i \<in> set (rExecPending (conn st c)) \<Longrightarrow>
       map_of (ackLookup st') i = map_of (ackLookup st) i \<and> map_of (rLookup st') i = map_of (rLookup st) i"
  shows "rinv st'"
  using assms by (simp add: rinv_def live_def links_def sent_open_def unset_def)

lemma rinv_new_fut:
  assumes "rinv st" "new_fut st = (p, st')"
  shows "rinv st'" "untabled p st'" "unset st' p" "p = length (states (futs st))"
    "length (states (futs st')) = Suc (length (states (futs st)))"
    "\<And>q. untabled q st \<Longrightarrow> untabled q st' \<and> q \<noteq> p \<and> (unset st q \<longrightarrow> unset st' q)"
proof -
  have st: "st' = st\<lparr>futs := (futs st)\<lparr>states := states (futs st) @ [new_shared_state]\<rparr>\<rparr>" "p = length (states (futs st))"
    using assms(2) by (auto simp: new_fut_def new_promise_def)
  have t: "table_ok st" using assms(1) by (simp add: rinv_def)
  have u: "q < length (states (futs st)) \<Longrightarrow> unset st' q = unset st q" for q by (simp add: st unset_def nth_append)
  have b: "map_of (ackLookup st) i = Some q \<or> map_of (rLookup st) i = Some q \<Longrightarrow> unset st' q = unset st q" for i q
    using table_disjoint(2,3) [OF t] u by blast
  have "live (set (isValidConnection st)) st'"
    using assms(1) b by (auto simp: rinv_def live_def st)
  moreover have "table_ok st'" using t by (simp add: table_ok_def st less_SucI)
  ultimately show "rinv st'" using assms(1) by (simp add: rinv_def links_def sent_open_def st)
  show "untabled p st'" using t by (auto simp: untabled_def st table_ok_def)
  show "unset st' p" by (simp add: unset_def st new_shared_state_def)
  show "p = length (states (futs st))" "length (states (futs st')) = Suc (length (states (futs st)))" by (simp_all add: st)
  show "\<And>q. untabled q st \<Longrightarrow> untabled q st' \<and> q \<noteq> p \<and> (unset st q \<longrightarrow> unset st' q)"
    using u by (auto simp: untabled_def st)
qed

text \<open>The next identifier is not in use: the 32-bit counter has not come around to one that is.\<close>

definition fresh_id :: "'j remote \<Rightarrow> bool" where
  "fresh_id st \<longleftrightarrow> eIdFactory st \<notin> fst ` set (rLookup st) \<and>
     (\<forall>c \<in> set (isValidConnection st). eIdFactory st \<notin> set (rExecPending (conn st c)))"

lemma rinv_store_ack:
  assumes "rinv st" "untabled p st" "\<And>c. c \<in> set (isValidConnection st) \<Longrightarrow> i \<notin> set (rExecPending (conn st c))"
  shows "rinv (store_ack i p st)"
proof (rule rinv_tables [OF assms(1)])
  show "table_ok (store_ack i p st)" using assms(1,2) table_store_ack by (auto simp: rinv_def)
  show "map_of (ackLookup (store_ack i p st)) j = map_of (ackLookup st) j \<and> map_of (rLookup (store_ack i p st)) j = map_of (rLookup st) j"
    if "c \<in> set (isValidConnection st)" "j \<in> set (rExecPending (conn st c))" for c j
    using assms(3) [OF that(1)] that(2) by (auto simp: store_ack_def AList.update_conv)
qed (simp_all add: store_ack_def)

lemma rinv_store_result:
  assumes "rinv st" "untabled p st" "\<And>c. c \<in> set (isValidConnection st) \<Longrightarrow> i \<notin> set (rExecPending (conn st c))"
  shows "rinv (store_result i p st)"
proof (rule rinv_tables [OF assms(1)])
  show "table_ok (store_result i p st)" using assms(1,2) table_store_result by (auto simp: rinv_def)
  show "map_of (ackLookup (store_result i p st)) j = map_of (ackLookup st) j \<and> map_of (rLookup (store_result i p st)) j = map_of (rLookup st) j"
    if "c \<in> set (isValidConnection st)" "j \<in> set (rExecPending (conn st c))" for c j
    using assms(3) [OF that(1)] that(2) by (auto simp: store_result_def AList.update_conv)
qed (simp_all add: store_result_def)

text \<open>Entering an identifier whose promises are open into the pending set of a connection.\<close>

lemma rinv_add_pending:
  assumes "rinv st" "c \<in> set (isValidConnection st)"
    "\<And>d. d \<in> set (isValidConnection st) \<Longrightarrow> i \<notin> set (rExecPending (conn st d))"
    "\<And>p. map_of (ackLookup st) i = Some p \<or> map_of (rLookup st) i = Some p \<Longrightarrow> unset st p"
  shows "rinv (add_pending c i st)"
proof -
  have l: "live (set (isValidConnection st)) st" using assms(1) by (simp add: rinv_def)
  let ?st = "add_pending c i st"
  have p: "rExecPending (conn ?st d) = (if d = c then List.insert i (rExecPending (conn st d)) else rExecPending (conn st d))"
      "adapterOpen (conn ?st d) = adapterOpen (conn st d)" if "d < length (conns st)" for d
    using that by (cases "d = c"; simp add: add_pending_def upd_conn_def)+
  have f: "ackLookup ?st = ackLookup st" "rLookup ?st = rLookup st" "unset ?st = unset st" "isValidConnection ?st = isValidConnection st"
      "length (conns ?st) = length (conns st)" "futs ?st = futs st"
    by (simp_all add: add_pending_def upd_conn_def unset_def fun_eq_iff)
  have "live (set (isValidConnection ?st)) ?st"
    using l assms(2-4) by (auto simp: live_def f p)
  then show ?thesis using assms(1) by (simp add: rinv_def table_ok_def links_def sent_open_def add_pending_def upd_conn_def)
qed

lemma find_conn_valid:
  assumes "rinv st" "find_conn host st = Some c"
  shows "c \<in> set (isValidConnection st)"
  using assms by (cases host) (force simp: find_conn_def rinv_def links_def dest!: map_of_SomeD)+

lemma registered_valid:
  assumes "rinv st" "registered host st = Some c"
  shows "c \<in> set (isValidConnection st)"
  using assms(2) by (intro find_conn_valid [OF assms(1), of host]) (auto simp: registered_def split: option.splits if_splits)

lemma new_fut_frame:
  assumes "new_fut st = (p, st')"
  shows "conns st' = conns st" "mainFogInfo st' = mainFogInfo st" "cloudFogInfo st' = cloudFogInfo st" "eIdFactory st' = eIdFactory st"
    "isValidConnection st' = isValidConnection st" "ackLookup st' = ackLookup st" "rLookup st' = rLookup st"
  using assms by (auto simp: new_fut_def split: prod.splits)

lemma fresh_pending:
  assumes "fresh_id st" "c \<in> set (isValidConnection st)"
  shows "eIdFactory st \<notin> set (rExecPending (conn st c))"
  using assms by (simp add: fresh_id_def)

text \<open>Both variants of an asynchronous request: with and without an entry in the pending set.\<close>

lemma rinv_async_start:
  assumes r: "rinv st" and f: "fresh_id st" and s: "async_start host req st = (x, st')"
  shows "rinv st'" "\<And>t c. x = Some (t, c) \<Longrightarrow> rinv (add_pending c (rt_eid t) st')"
proof -
  obtain a st1 where n: "new_fut st = (a, st1)" by (cases "new_fut st")
  note r1 = rinv_new_fut [OF r n] and fr = new_fut_frame [OF n]
  let ?i = "eIdFactory st" and ?st = "st1\<lparr>eIdFactory := eIdFactory st1 + 1\<rparr>"
  have st: "rinv ?st" by (rule rinv_simple [OF r1(1)]) simp_all
  have u: "untabled a ?st" using r1(2) by (simp add: untabled_def)
  have p: "?i \<notin> set (rExecPending (conn ?st c))" if "c \<in> set (isValidConnection ?st)" for c
    using that fresh_pending [OF f] by (simp add: fr)
  have stored: "rinv (store_ack ?i a ?st)" by (rule rinv_store_ack [OF st u p])
  show "rinv st'" using s n stored r1(1) fr(4) by (auto simp: async_start_def Let_def split: option.splits)
  show "rinv (add_pending c (rt_eid t) st')" if x: "x = Some (t, c)" for t c
  proof -
    have c: "registered host st1 = Some c" and t: "rt_eid t = ?i" and st': "st' = store_ack ?i a ?st"
      using s n x fr(4) by (auto simp: async_start_def Let_def split: option.splits)
    have "rinv (add_pending c ?i (store_ack ?i a ?st))"
    proof (rule rinv_add_pending [OF stored])
      show "c \<in> set (isValidConnection (store_ack ?i a ?st))"
        using registered_valid [OF r1(1) c] by (simp add: store_ack_def)
      show "?i \<notin> set (rExecPending (conn (store_ack ?i a ?st) d))" if "d \<in> set (isValidConnection (store_ack ?i a ?st))" for d
        using p [of d] that by (simp add: store_ack_def)
      show "unset (store_ack ?i a ?st) q" if "map_of (ackLookup (store_ack ?i a ?st)) ?i = Some q \<or> map_of (rLookup (store_ack ?i a ?st)) ?i = Some q" for q
        using that r1(3) f fr by (auto simp: store_ack_def AList.update_conv unset_def fresh_id_def dest!: map_of_SomeD)
          (metis fst_conv image_eqI)
    qed
    then show ?thesis by (simp add: t st')
  qed
qed

text \<open>A synchronous request: two promises, an entry in the pending set of the main connection.\<close>

lemma rinv_sync_start:
  assumes r: "rinv st" and f: "fresh_id st" and s: "sync_start host req st = Ok (x, st')"
  shows "rinv st'"
proof -
  obtain a st1 where n1: "new_fut st = (a, st1)" by (cases "new_fut st")
  note r1 = rinv_new_fut [OF r n1] and fr1 = new_fut_frame [OF n1]
  obtain e st2 where n2: "new_fut st1 = (e, st2)" by (cases "new_fut st1")
  note r2 = rinv_new_fut [OF r1(1) n2] and fr2 = new_fut_frame [OF n2]
  have a: "untabled a st2" "a \<noteq> e" "unset st2 a" using r2(6) [OF r1(2)] r1(3) by auto
  let ?i = "eIdFactory st" and ?st = "st2\<lparr>eIdFactory := eIdFactory st2 + 1\<rparr>"
  let ?st3 = "store_result ?i e (store_ack ?i a ?st)"
  have st: "rinv ?st" by (rule rinv_simple [OF r2(1)]) simp_all
  have p: "?i \<notin> set (rExecPending (conn st2 c))" if "c \<in> set (isValidConnection st2)" for c
    using that fresh_pending [OF f] by (simp add: fr1 fr2)
  have "rinv (store_ack ?i a ?st)" by (rule rinv_store_ack [OF st]) (use a(1) p in \<open>auto simp: untabled_def\<close>)
  moreover have "untabled e (store_ack ?i a ?st)"
    using r2(2) a(2) alist_update_snd(1) [of ?i a "ackLookup st2"] by (auto simp: untabled_def store_ack_def)
  ultimately have st3: "rinv ?st3"
    by (rule rinv_store_result) (use p in \<open>simp add: store_ack_def\<close>)
  have "rinv (add_pending m ?i ?st3)" if "mainFogInfo ?st3 = Some m" for m
  proof (rule rinv_add_pending [OF st3])
    show "m \<in> set (isValidConnection ?st3)" using st3 that by (simp add: rinv_def links_def)
    show "?i \<notin> set (rExecPending (conn ?st3 d))" if "d \<in> set (isValidConnection ?st3)" for d
      using p [of d] that by (simp add: store_ack_def store_result_def)
    show "unset ?st3 q" if "map_of (ackLookup ?st3) ?i = Some q \<or> map_of (rLookup ?st3) ?i = Some q" for q
      using that r2(3) a(3) by (auto simp: store_ack_def store_result_def AList.update_conv unset_def)
  qed
  then show ?thesis using s n1 n2 r2(1) fr1(4) fr2(4) by (auto simp: sync_start_def Let_def split: option.splits)
qed

section \<open>Steps\<close>

lemma rinv_private_promise:
  assumes "rinv st" "untabled p st"
  shows "rinv (snd (fset p v st))"
proof (cases "unset st p")
  case True
  obtain f where f: "fset p v st = (None, st\<lparr>futs := f\<rparr>)" "length (states f) = length (states (futs st))"
    "\<And>u. mval (st_at f u) \<longleftrightarrow> mval (st_at (futs st) u) \<or> u = p"
    by (rule fset_unset [of st p v]) (use True assms(2) in \<open>auto simp: untabled_def\<close>)
  have "q \<noteq> p" if "map_of (ackLookup st) i = Some q \<or> map_of (rLookup st) i = Some q" for i q
    using that assms(2) by (force simp: untabled_def dest!: map_of_SomeD)
  then have "live (set (isValidConnection st)) (st\<lparr>futs := f\<rparr>)"
    using assms(1) f(3) by (auto simp: rinv_def live_def unset_def)
  moreover have "table_ok (st\<lparr>futs := f\<rparr>)" using assms(1) f(2) by (simp add: rinv_def table_ok_def)
  ultimately show ?thesis using assms(1) f(1) by (simp add: rinv_def links_def sent_open_def)
qed (use assms(1) in \<open>simp add: fset_set\<close>)

lemma rinv_send_request:
  assumes "rinv st" "send_request t st = Some st'"
  shows "rinv st'"
  using assms registered_valid [OF assms(1)] by (auto simp: send_request_def intro: rinv_publish split: option.splits)

lemma rinv_reply_loop: "rinv st \<Longrightarrow> rinv (reply_loop k c sent n j st)"
proof (induction k arbitrary: sent st)
  case (Suc k)
  then show ?case using rinv_publish [OF Suc.prems] by (auto simp: Let_def)
qed simp

lemma rinv_ShutDown:
  assumes "rinv st"
  shows "rinv (snd (Remote_ShutDown st))" "fst (Remote_ShutDown st) = None"
proof -
  obtain st' where c: "CancelAllRExecRequests st = (None, st')" "rinv st'" using rinv_CancelAll [OF assms] by blast
  have "rinv (st'\<lparr>goesOn := False\<rparr>)" by (rule rinv_simple [OF c(2)]) simp_all
  then show "rinv (snd (Remote_ShutDown st))" "fst (Remote_ShutDown st) = None"
    using c(1) assms by (simp_all add: Remote_ShutDown_def ShutDownRunOnce_def then_x_def)
qed

lemma rinv_RemoteArrivedCallback:
  assumes "rinv st" "RemoteArrivedCallback env c t m st = Ok st'"
  shows "rinv st'"
proof (cases "List.member (isValidConnection st) c")
  case True
  have "rinv (on_REGISTER_ACK c st)" unfolding on_REGISTER_ACK_def by (rule rinv_upd_conn [OF assms(1)]) simp_all
  then show ?thesis
    using assms rinv_PING [OF assms(1) True] rinv_ShutDown(1) [OF assms(1)] rinv_PUT_CF_INFO [OF assms(1)]
      rinv_REXEC_ACK [OF assms(1)] rinv_REXEC_ASY [OF assms(1) True] rinv_REXEC_RES [OF assms(1)] True
    by (auto simp: RemoteArrivedCallback_def Let_def split: if_splits outcome.splits)
qed (use assms in \<open>simp add: RemoteArrivedCallback_def\<close>)

text \<open>One step of the remote side. The waits of the tasks are the steps that others take; the
  common promise of a synchronous request to all connections is not in the tables.\<close>

inductive rstep :: "'j remote \<Rightarrow> 'j remote \<Rightarrow> bool" where
  arrive: "RemoteArrivedCallback env c t m st = Ok st' \<Longrightarrow> rstep st st'"
| expire: "CheckExpire_round st = (e, st') \<Longrightarrow> rstep st st'"
| shutdown: "Remote_ShutDown st = (e, st') \<Longrightarrow> rstep st st'"
| async_one: "fresh_id st \<Longrightarrow> CreateRExecAsyncWithCallback eName condstr condvec eArgs st = (x, st') \<Longrightarrow> rstep st st'"
| async_each: "fresh_id st \<Longrightarrow> CreateRExecAsyncWithCallbackNT a host req st = (x, st') \<Longrightarrow> rstep st st'"
| sync: "fresh_id st \<Longrightarrow> sync_start host req st = Ok (x, st') \<Longrightarrow> rstep st st'"
| send: "send_request t st = Some st' \<Longrightarrow> rstep st st'"
| reply: "send_reply c sent n j st = st' \<Longrightarrow> rstep st st'"
| count: "rstep st (st\<lparr>aggs := g\<rparr>)"
| common: "untabled p st \<Longrightarrow> fset p v st = (e, st') \<Longrightarrow> rstep st st'"
| take: "new_fut st = (p, st') \<Longrightarrow> rstep st st'"

definition remote_init :: "'j remote \<Rightarrow> bool" where
  "remote_init st \<longleftrightarrow> (\<exists>host app dev eid0 funcs. st = new_Remote host app dev eid0 funcs)"

lemma rinv_aggs: "rinv st \<Longrightarrow> rinv (st\<lparr>aggs := g\<rparr>)"
  by (rule rinv_simple) simp_all

lemma rinv_report:
  assumes "rinv st"
  shows "rinv (report_failure a code st)" "rinv (report_success a st)"
  using rinv_aggs [OF assms] by (simp_all add: report_failure_def report_success_def upd_agg_def)

lemma rinv_rstep:
  assumes "rstep st st'" "rinv st"
  shows "rinv st'"
  using assms
proof (induction rule: rstep.induct)
  case (arrive env c t m st st')
  then show ?case using rinv_RemoteArrivedCallback by blast
next
  case (expire st e st')
  then show ?case using rinv_CheckExpire by fastforce
next
  case (shutdown st e st')
  then show ?case using rinv_ShutDown(1) by (metis snd_conv)
next
  case (async_one st eName condstr condvec eArgs x st')
  then show ?case using rinv_async_start(1)
    by (fastforce simp: CreateRExecAsyncWithCallback_def split: prod.splits option.splits)
next
  case (async_each st a host req x st')
  obtain y st1 where y: "async_start host req st = (y, st1)" by (cases "async_start host req st")
  note s = rinv_async_start [OF async_each(3,1) y]
  show ?case using async_each(2) y s(1) s(2) rinv_report(1) [OF s(1)]
    by (auto simp: CreateRExecAsyncWithCallbackNT_def split: option.splits)
next
  case (sync st host req x st')
  then show ?case using rinv_sync_start by blast
next
  case (send t st st')
  then show ?case using rinv_send_request by blast
next
  case (reply c sent n j st st')
  then show ?case using rinv_reply_loop by (auto simp: send_reply_def)
next
  case (count st g)
  then show ?case by (rule rinv_aggs)
next
  case (common p st v e st')
  then show ?case using rinv_private_promise by (metis snd_conv)
next
  case (take st p st')
  then show ?case using rinv_new_fut(1) by blast
qed

lemma rinv_init: "remote_init st \<Longrightarrow> rinv st"
  by (auto simp: remote_init_def new_Remote_def make_conn_def add_valid_def rinv_def table_ok_def live_def links_def
      sent_open_def new_CloudFogInfo_def)

interpretation rsys: invariant_system remote_init rstep rinv
  by unfold_locales (use rinv_init rinv_rstep in blast)+

section \<open>Promises that are not satisfied\<close>

text \<open>They hold no exception: what changes the promises of the remote side satisfies or abandons one, or makes a
  new one.\<close>

definition clean :: "'j remote \<Rightarrow> bool" where
  "clean st \<longleftrightarrow> (\<forall>u < length (states (futs st)). \<not> mval (st_at (futs st) u) \<longrightarrow> exception_ptr (st_at (futs st) u) = None)"

named_theorems clean_intros

lemma clean_futs: "futs st' = futs st \<Longrightarrow> clean st \<Longrightarrow> clean st'"
  by (simp add: clean_def)

lemma clean_fset [clean_intros]: "clean st \<Longrightarrow> clean (snd (fset p v st))"
proof -
  assume c: "clean st"
  have "exception_ptr (st_at (set_ready p (upd_st p (\<lambda>x. x\<lparr>fvalue := FDat v\<rparr>) (futs st))) u) = None"
    if "u < length (states (futs st))" "\<not> mval (st_at (set_ready p (upd_st p (\<lambda>x. x\<lparr>fvalue := FDat v\<rparr>) (futs st))) u)" for u
    using c that by (cases "u = p") (simp_all add: clean_def upd_st_at)
  then show "clean (snd (fset p v st))" using c by (simp add: fset_def set_value_def clean_def)
qed

lemma clean_abandon: "clean st \<Longrightarrow> clean (st\<lparr>futs := abandon p (futs st)\<rparr>)"
proof -
  assume c: "clean st"
  let ?f = "upd_st p (\<lambda>x. x\<lparr>exception_ptr := Some (FutureError BrokenPromise)\<rparr>) (futs st)"
  have "exception_ptr (st_at (set_ready p ?f) u) = None"
    if "u < length (states (futs st))" "\<not> mval (st_at (set_ready p ?f) u)" for u
    using c that by (cases "u = p") (simp_all add: clean_def upd_st_at)
  then show "clean (st\<lparr>futs := abandon p (futs st)\<rparr>)" using c by (simp add: abandon_def clean_def)
qed

lemma clean_erase [clean_intros]: "clean st \<Longrightarrow> clean (erase_ack i st)" "clean st \<Longrightarrow> clean (erase_result i st)"
  using clean_abandon by (auto simp: erase_ack_def erase_result_def clean_def split: option.splits)

lemma clean_new_fut: "clean st \<Longrightarrow> new_fut st = (p, st') \<Longrightarrow> clean st'"
  by (auto simp: new_fut_def new_promise_def clean_def nth_append new_shared_state_def)

lemma clean_then [clean_intros]: "clean (snd m) \<Longrightarrow> (\<And>w. clean w \<Longrightarrow> clean (snd (f w))) \<Longrightarrow> clean (snd (then_x m f))"
  by (cases m; cases "fst m") (auto simp: then_x_def)

lemma each_x_keeps: "Q w \<Longrightarrow> (\<And>x w. Q w \<Longrightarrow> Q (snd (f x w))) \<Longrightarrow> Q (snd (each_x f xs w))"
proof (induction xs arbitrary: w)
  case (Cons x xs)
  have "Q (snd (f x w))" using Cons.prems by blast
  then show ?case using Cons.IH Cons.prems(2) by (auto split: prod.splits option.splits)
qed simp

lemma clean_frame [clean_intros]:
  "clean st \<Longrightarrow> clean (upd_conn c f st)" "clean st \<Longrightarrow> clean (mqtt_publish c t p st)" "clean st \<Longrightarrow> clean (add_valid c st)"
  "clean st \<Longrightarrow> clean (erase_valid c st)" "clean st \<Longrightarrow> clean (erase_host h st)" "clean st \<Longrightarrow> clean (upd_agg a g st)"
  "clean st \<Longrightarrow> clean (snd (make_conn h st))" "clean st \<Longrightarrow> clean (store_ack i q st)" "clean st \<Longrightarrow> clean (store_result i q st)"
  "clean st \<Longrightarrow> clean (add_pending c i st)"
  by (auto simp: clean_def upd_conn_def mqtt_publish_def add_valid_def erase_valid_def erase_host_def upd_agg_def
      make_conn_def store_ack_def store_result_def add_pending_def split: option.splits)

lemma clean_Clear [clean_intros]: "clean st \<Longrightarrow> clean (snd (Clear c st))"
  unfolding Clear_def Clear_requests_def
  by (intro clean_then each_x_keeps [where Q = clean] clean_frame)
    (auto split: option.splits intro: clean_intros)

lemma clean_CheckExpire:
  assumes "clean st"
  shows "clean (snd (CheckExpire_round st))"
proof -
  have m: "clean (snd (expire_main st))"
  proof (cases "mainFogInfo st")
    case None
    then show ?thesis using assms by (auto simp: expire_main_def make_conn_def add_valid_def clean_def)
  next
    case (Some c)
    have "clean (snd (then_x (Clear c st) (\<lambda>st. (None, (erase_valid c st)\<lparr>mainFogInfo := None\<rparr>))))"
      by (rule clean_then [OF clean_Clear [OF assms]]) (simp add: clean_def erase_valid_def)
    then show ?thesis using Some clean_frame(1) [OF assms] by (simp add: expire_main_def)
  qed
  have e: "clean (fst (snd (expire_cloud hc s)))" if "clean (fst s)" for hc and s :: "'a remote \<times> string list"
    using that clean_Clear [OF that, of "snd hc"]
    by (auto simp: expire_cloud_def case_prod_unfold split: option.splits intro: clean_intros)
  have f: "clean (fold erase_host hs w)" if "clean w" for hs and w :: "'a remote"
    using that by (induction hs arbitrary: w) (auto intro: clean_intros)
  show ?thesis unfolding CheckExpire_round_def
  proof (rule clean_then [OF m])
    fix w :: "'a remote" assume w: "clean w"
    obtain x st2 gone where r: "each_x expire_cloud (cloudFogInfo w) (w, []) = (x, (st2, gone))" by (metis surj_pair)
    have "clean (fst (snd (each_x expire_cloud (cloudFogInfo w) (w, []))))"
      by (rule each_x_keeps [where Q = "\<lambda>s. clean (fst s)"]) (use w e in auto)
    then have "clean st2" by (simp add: r)
    then show "clean (snd (case each_x expire_cloud (cloudFogInfo w) (w, []) of
        (Some e, (st2, _)) \<Rightarrow> (Some e, st2) | (None, (st2, gone)) \<Rightarrow> (None, fold erase_host gone st2)))"
      using f by (cases x) (simp_all add: r)
  qed
qed

lemma clean_ShutDown:
  assumes "clean st"
  shows "clean (snd (Remote_ShutDown st))"
proof -
  have more: "clean w \<Longrightarrow> clean (w\<lparr>mainFogInfo := None\<rparr>)" "clean w \<Longrightarrow> clean (w\<lparr>cloudFogInfo := [], isValidConnection := []\<rparr>)"
    "clean w \<Longrightarrow> clean (w\<lparr>goesOn := False\<rparr>)" for w :: "'a remote" by (simp_all add: clean_def)
  have "clean (snd (CancelAllRExecRequests st))" unfolding CancelAllRExecRequests_def
    by (intro clean_then each_x_keeps [where Q = clean])
      (auto split: option.splits intro!: assms clean_then clean_Clear more)
  then show ?thesis using assms
    by (auto simp: Remote_ShutDown_def ShutDownRunOnce_def intro!: clean_then more)
qed

lemma clean_cf_update:
  assumes "cf_update env m act st = Ok r" "clean st" "\<And>h w r. clean w \<Longrightarrow> act h w = Ok r \<Longrightarrow> clean (snd r)"
  shows "clean (snd r)"
proof -
  have c: "clean (st\<lparr>rcache := x\<rparr>)" for x using assms(2) by (simp add: clean_def)
  show ?thesis
  proof (cases "first_string (m_args m)")
    case (Ok y)
    then show ?thesis using assms(1,2) c assms(3) [OF c]
      by (cases y; cases r) (auto simp: cf_update_def Let_def split: field.splits if_splits)
  qed (use assms in \<open>auto simp: cf_update_def Let_def split: field.splits if_splits\<close>)
qed

lemma clean_PUT_CF_INFO:
  assumes "clean st" "on_PUT_CF_INFO env m st = Ok r"
  shows "clean (snd r)"
proof -
  have a: "clean (add_host h w)" if "clean w" for h and w :: "'a remote"
    using that by (auto simp: add_host_def make_conn_def Let_def clean_def add_valid_def upd_conn_def)
  have d: "clean (snd r)" if "clean w" "del_host h w = Ok r" for h r and w :: "'a remote"
    using that by (auto simp: del_host_def split: option.splits intro!: clean_intros)
  show ?thesis using assms a d
    by (auto simp: on_PUT_CF_INFO_def split: if_splits elim!: clean_cf_update)
qed

lemma clean_arrive:
  assumes "clean st" "RemoteArrivedCallback env c t m st = Ok st'"
  shows "clean st'"
proof -
  have "clean (on_PING env c st)" using assms(1) by (auto simp: on_PING_def Let_def intro!: clean_intros)
  moreover have "clean (on_REGISTER_ACK c st)" using assms(1) by (auto simp: on_REGISTER_ACK_def intro!: clean_intros)
  moreover have "clean (snd (on_REXEC_ACK m st))"
    using assms(1) by (auto simp: on_REXEC_ACK_def split: field.splits option.splits intro!: clean_intros)
  moreover have "clean (snd (on_REXEC_ASY c m st))"
    using assms(1) by (auto simp: on_REXEC_ASY_def CreateRPBatchCall_def mqtt_publish_def clean_def split: field.splits)
  moreover have "clean (snd (on_REXEC_RES c m st))"
    using assms(1) by (auto simp: on_REXEC_RES_def split: field.splits option.splits intro!: clean_intros)
  ultimately show ?thesis using assms clean_ShutDown [OF assms(1)] clean_PUT_CF_INFO [OF assms(1), of env m]
    by (auto simp: RemoteArrivedCallback_def Let_def split: if_splits)
qed

lemma clean_async_start:
  assumes "clean st" "async_start host req st = (y, st')"
  shows "clean st'"
proof -
  obtain a st1 where n: "new_fut st = (a, st1)" by (cases "new_fut st")
  have 1: "clean st1" by (rule clean_new_fut [OF assms(1) n])
  have "clean (store_ack i a (st1\<lparr>eIdFactory := e\<rparr>))" for i e using 1 by (simp add: clean_def store_ack_def)
  then show ?thesis using assms(2) 1 n by (auto simp: async_start_def Let_def split: option.splits)
qed

lemma clean_sync_start:
  assumes "clean st" "sync_start host req st = Ok (y, st')"
  shows "clean st'"
proof -
  obtain a st1 b st2 where n: "new_fut st = (a, st1)" "new_fut st1 = (b, st2)" by (metis surj_pair)
  have 2: "clean st2" using clean_new_fut n assms(1) by blast
  have "clean (add_pending m i (store_result i b (store_ack i a (st2\<lparr>eIdFactory := e\<rparr>))))" for m i e
    using 2 by (simp add: clean_def store_ack_def store_result_def add_pending_def upd_conn_def)
  then show ?thesis using assms(2) 2 n by (auto simp: sync_start_def Let_def split: option.splits)
qed

lemma clean_rstep:
  assumes "rstep st st'" "clean st"
  shows "clean st'"
  using assms
proof (induction rule: rstep.induct)
  case (arrive env c t m st st')
  then show ?case using clean_arrive by blast
next
  case (expire st e st')
  then show ?case using clean_CheckExpire by (metis snd_conv)
next
  case (shutdown st e st')
  then show ?case using clean_ShutDown by (metis snd_conv)
next
  case (async_one st eName condstr condvec eArgs x st')
  then show ?case using clean_async_start by (fastforce simp: CreateRExecAsyncWithCallback_def split: prod.splits option.splits)
next
  case (async_each st a host req x st')
  obtain y st1 where y: "async_start host req st = (y, st1)" by (cases "async_start host req st")
  have "clean st1" by (rule clean_async_start [OF async_each(3) y])
  then show ?case using async_each(2) y
    by (auto simp: CreateRExecAsyncWithCallbackNT_def report_failure_def split: option.splits intro: clean_intros)
next
  case (sync st host req x st')
  then show ?case using clean_sync_start by blast
next
  case (send t st st')
  then show ?case by (auto simp: send_request_def split: option.splits intro: clean_intros)
next
  case (reply c sent n j st st')
  have "clean (reply_loop k c sent n j w)" if "clean w" for k and w :: "'a remote"
    using that by (induction k arbitrary: sent w) (auto simp: Let_def intro: clean_intros)
  then show ?case using reply by (auto simp: send_reply_def)
next
  case (common p st v e st')
  then show ?case using clean_fset by (metis snd_conv)
next
  case (take st p st')
  then show ?case using clean_new_fut by blast
qed (simp add: clean_def)

interpretation rclean: invariant_system remote_init rstep clean
proof
  show "clean st" if "remote_init st" for st :: "'a remote"
    using that by (auto simp: remote_init_def new_Remote_def make_conn_def add_valid_def clean_def new_fstore_def)
qed (rule clean_rstep)

section \<open>Theorems\<close>

text \<open>C38. In every state the remote side can reach, whatever messages arrive and however requests,
  expiries and shutdown interleave (as long as the 32-bit counter does not come around to an
  identifier that is still in use): every packet went out through an adapter that was still open,
  the connections in the tables are valid and open, and neither an expiry round nor cancelling
  all requests throws.\<close>

theorem remote_connections_safe:
  assumes "remote_init s0" "rstep\<^sup>*\<^sup>* s0 st"
  shows "(\<forall>(c, op, t, p) \<in> set (published st). op) \<and>
    (\<forall>host c. find_conn host st = Some c \<longrightarrow> List.member (isValidConnection st) c \<and> c < length (conns st) \<and> adapterOpen (conn st c)) \<and>
    fst (CheckExpire_round st) = None \<and> fst (CancelAllRExecRequests st) = None"
proof -
  have r: "rinv st" by (rule rsys.reachable_inv [OF assms])
  then have "\<forall>(c, op, t, p) \<in> set (published st). op" by (simp add: rinv_def sent_open_def)
  moreover have "List.member (isValidConnection st) c \<and> c < length (conns st) \<and> adapterOpen (conn st c)" if "find_conn host st = Some c" for host c
    using find_conn_valid [OF r that] r by (auto simp: rinv_def live_def)
  ultimately show ?thesis using rinv_CheckExpire [OF r] rinv_CancelAll [OF r] by auto
qed

text \<open>A fresh node, and its main connection after one expiry round.\<close>

definition node0 :: "unit remote" where
  "node0 = new_Remote ''host'' ''app'' ''dev'' 0 []"

lemma node0_reach: "remote_init node0" "rstep\<^sup>*\<^sup>* node0 (snd (CheckExpire_round node0))"
proof -
  show "remote_init node0" unfolding remote_init_def node0_def by blast
  have "rstep node0 (snd (CheckExpire_round node0))" by (rule rstep.expire) (rule prod.collapse [symmetric])
  then show "rstep\<^sup>*\<^sup>* node0 (snd (CheckExpire_round node0))" by (rule r_into_rtranclp)
qed

theorem remote_connections_safe_witness:
  "fst (CheckExpire_round (snd (CheckExpire_round node0))) = None \<and> mainFogInfo (snd (CheckExpire_round (snd (CheckExpire_round node0)))) = None"
proof
  show "fst (CheckExpire_round (snd (CheckExpire_round node0))) = None"
    using remote_connections_safe [OF node0_reach] by blast
  show "mainFogInfo (snd (CheckExpire_round (snd (CheckExpire_round node0)))) = None"
    by (simp add: node0_def new_Remote_def make_conn_def add_valid_def CheckExpire_round_def expire_main_def then_x_def
        new_CloudFogInfo_def upd_conn_def Clear_def Clear_requests_def erase_valid_def)
qed

text \<open>C39. Losing a connection answers the requests that are entered in its pending set. In every reachable state, clearing a
  valid connection answers, before its adapter is deleted and without throwing, exactly these: the acknowledgements that are
  waited for become false, the results become a failure, and no other future changes. The connection is then
  unregistered, and closed when the deletion of its adapter has returned.\<close>

theorem Clear_answers_pending:
  assumes "remote_init s0" "rstep\<^sup>*\<^sup>* s0 st" "List.member (isValidConnection st) c"
  shows "\<exists>st1 st'. Clear_requests c st = (None, st1) \<and> Clear c st = (None, st') \<and> futs st' = futs st1 \<and>
    adapterOpen (conn st1 c) \<and> \<not> adapterOpen (conn st' c) \<and> \<not> isRegistered (conn st1 c) \<and>
    (\<forall>i \<in> set (rExecPending (conn st c)).
       (\<forall>p. map_of (ackLookup st) i = Some p \<longrightarrow> is_ready p (futs st1) \<and> content (st_at (futs st1) p) = Inr (FDat (RBool False))) \<and>
       (\<forall>p. map_of (rLookup st) i = Some p \<longrightarrow> is_ready p (futs st1) \<and> content (st_at (futs st1) p) = Inr (FDat (RPair False JEmpty)))) \<and>
    (\<forall>p. (\<forall>i \<in> set (rExecPending (conn st c)). map_of (ackLookup st) i \<noteq> Some p \<and> map_of (rLookup st) i \<noteq> Some p) \<longrightarrow>
       st_at (futs st1) p = st_at (futs st) p)"
proof -
  have r: "rinv st" by (rule rsys.reachable_inv [OF assms(1,2)])
  have cl: "clean st" by (rule rclean.reachable_inv [OF assms(1,2)])
  have t: "table_ok st" and l: "live (set (isValidConnection st)) st" using r by (simp_all add: rinv_def)
  have c: "c \<in> set (isValidConnection st)" "c < length (conns st)" "adapterOpen (conn st c)"
    using assms(3) l by (auto simp: live_def)
  have free: "exception_ptr (st_at (futs st) p) = None"
    if "i \<in> set (rExecPending (conn st c))" "map_of (ackLookup st) i = Some p \<or> map_of (rLookup st) i = Some p" for i p
    using that l c(1) cl table_disjoint(2,3) [OF t] unfolding live_def clean_def unset_def by blast
  obtain f where f: "Clear_requests c st = (None, st\<lparr>conns := (conns st)[c := (conn st c)\<lparr>isRegistered := False\<rparr>], futs := f\<rparr>)"
    "\<And>u. mval (st_at f u) \<longleftrightarrow> mval (st_at (futs st) u) \<or> answered st c u"
    "\<And>i p. i \<in> set (rExecPending (conn st c)) \<Longrightarrow> map_of (ackLookup st) i = Some p \<Longrightarrow>
       exception_ptr (st_at (futs st) p) = None \<Longrightarrow> content (st_at f p) = Inr (FDat (RBool False))"
    "\<And>i p. i \<in> set (rExecPending (conn st c)) \<Longrightarrow> map_of (rLookup st) i = Some p \<Longrightarrow>
       exception_ptr (st_at (futs st) p) = None \<Longrightarrow> content (st_at f p) = Inr (FDat (RPair False JEmpty))"
    "\<And>u. \<not> answered st c u \<Longrightarrow> st_at f u = st_at (futs st) u"
    by (rule Clear_requests_live [OF t l c(1)]) blast
  let ?st1 = "st\<lparr>conns := (conns st)[c := (conn st c)\<lparr>isRegistered := False\<rparr>], futs := f\<rparr>"
  let ?st' = "upd_conn c (\<lambda>x. x\<lparr>adapterOpen := False\<rparr>) ?st1"
  have "Clear c st = (None, ?st')" using f(1) by (simp add: Clear_def then_x_def)
  moreover have "futs ?st' = futs ?st1" "adapterOpen (conn ?st1 c)" "\<not> adapterOpen (conn ?st' c)" "\<not> isRegistered (conn ?st1 c)"
    using c(2,3) by (simp_all add: upd_conn_def)
  moreover have "\<forall>i \<in> set (rExecPending (conn st c)).
       (\<forall>p. map_of (ackLookup st) i = Some p \<longrightarrow> is_ready p (futs ?st1) \<and> content (st_at (futs ?st1) p) = Inr (FDat (RBool False))) \<and>
       (\<forall>p. map_of (rLookup st) i = Some p \<longrightarrow> is_ready p (futs ?st1) \<and> content (st_at (futs ?st1) p) = Inr (FDat (RPair False JEmpty)))"
    using f(2-4) free by (auto simp: is_ready_def answered_def)
  moreover have "\<forall>p. (\<forall>i \<in> set (rExecPending (conn st c)). map_of (ackLookup st) i \<noteq> Some p \<and> map_of (rLookup st) i \<noteq> Some p) \<longrightarrow>
       st_at (futs ?st1) p = st_at (futs st) p"
    using f(5) by (auto simp: answered_def)
  ultimately show ?thesis using f(1) by (intro exI [of _ ?st1] exI [of _ ?st'] conjI) assumption+
qed

text \<open>The main connection registers, and a synchronous request is started on it.\<close>

definition node1 :: "unit remote" where
  "node1 = on_REGISTER_ACK 0 node0"

definition node2 :: "unit remote" where
  "node2 = (case sync_start None (sync_request ''f'' [] 0 []) node1 of Ok (_, st) \<Rightarrow> st | _ \<Rightarrow> node1)"

lemmas node_simps = node0_def node1_def node2_def new_Remote_def make_conn_def add_valid_def on_REGISTER_ACK_def upd_conn_def
  new_CloudFogInfo_def sync_start_def new_fut_def new_promise_def registered_def find_conn_def store_ack_def store_result_def
  add_pending_def new_fstore_def new_shared_state_def

lemma node2_reach: "rstep\<^sup>*\<^sup>* node0 node2"
proof -
  let ?m = "\<lparr>m_cmd = Field ''REGISTER-ACK'', m_opt = Missing, m_actid = Missing, m_actname = Missing, m_args = None\<rparr>"
  have "RemoteArrivedCallback \<lparr>cache_contains = \<lambda>_ _. False, pong_rand = 0\<rparr> 0 (announceDown (conn node0 0)) ?m node0 = Ok node1"
    by (simp add: RemoteArrivedCallback_def node1_def) (simp add: node_simps)
  then have 1: "rstep node0 node1" by (rule rstep.arrive)
  have "\<exists>x. sync_start None (sync_request ''f'' [] 0 []) node1 = Ok (x, node2)"
    by (simp add: node_simps)
  moreover have "fresh_id node1" by (simp add: fresh_id_def node_simps)
  ultimately have 2: "rstep node1 node2" using rstep.sync by blast
  from 1 2 show ?thesis by (meson rtranclp.rtrancl_into_rtrancl rtranclp.rtrancl_refl)
qed

theorem Clear_answers_pending_witness:
  "\<exists>st1. Clear_requests 0 node2 = (None, st1) \<and> content (st_at (futs st1) 0) = Inr (FDat (RBool False)) \<and>
     content (st_at (futs st1) 1) = Inr (FDat (RPair False JEmpty))"
proof -
  have v: "List.member (isValidConnection node2) 0" by (simp add: node_simps)
  have p: "0 \<in> set (rExecPending (conn node2 0)) \<and> map_of (ackLookup node2) 0 = Some 0 \<and> map_of (rLookup node2) 0 = Some 1"
    by (simp add: node_simps)
  show ?thesis using Clear_answers_pending [OF node0_reach(1) node2_reach v] p by blast
qed

text \<open>The task of a message that arrived for the main connection, when it runs after the connection has expired: the
  validity of the connection is tested only after its object was read.\<close>

lemma arrived_after_expiry:
  "let st = snd (CheckExpire_round (snd (CheckExpire_round node0))) in
   rstep\<^sup>*\<^sup>* node0 st \<and> arrived_task env 0 t m others st = Fault Dangling"
proof -
  let ?st1 = "snd (CheckExpire_round node0)"
  have "rstep ?st1 (snd (CheckExpire_round ?st1))" by (rule rstep.expire) (rule prod.collapse [symmetric])
  with node0_reach(2) have "rstep\<^sup>*\<^sup>* node0 (snd (CheckExpire_round ?st1))" by (rule rtranclp.rtrancl_into_rtrancl)
  moreover have "\<not> owned 0 (snd (CheckExpire_round ?st1))"
    by (simp add: owned_def node0_def new_Remote_def make_conn_def add_valid_def CheckExpire_round_def expire_main_def then_x_def
        new_CloudFogInfo_def upd_conn_def Clear_def Clear_requests_def erase_valid_def)
  ultimately show ?thesis by (simp add: Let_def arrived_task_def)
qed

end
