(* ===== verification/RemoteCallSpec.thy ===== *)
theory RemoteCallSpec
  imports RemoteSystem
begin

text \<open>
  What the callers of a remote execution observe: how often a request is sent, when its callbacks
  are called, and how the reports of the tasks of a request to all connections add up.
\<close>

section \<open>The retry loop\<close>

lemma ack_loop_acked:
  "ack_loop t wait k n st = (Acked True, n', st') \<Longrightarrow> content (st_at (futs st') (rt_ack t)) = Inr (FDat (RBool True)) \<and>
     is_ready (rt_ack t) (futs st') \<and> n < n'"
proof (induction t wait k n st arbitrary: n' st' rule: ack_loop.induct)
  case (1 t wait k n st)
  show ?case
  proof (cases "send_request t st")
    case None
    then show ?thesis using "1.prems" by (auto simp: ack_loop.simps [of t wait k n st] split: if_splits)
  next
    case (Some st1)
    show ?thesis
    proof (cases "k < 3 \<and> \<not> is_ready (rt_ack t) (futs (wait k st1))")
      case True
      then have "ack_loop t wait (k + 1) (n + 1) (wait k st1) = (Acked True, n', st')"
        using "1.prems" Some by (simp add: ack_loop.simps [of t wait k n st])
      then show ?thesis using "1.IH" [OF _ Some refl] True by fastforce
    next
      case False
      then show ?thesis using "1.prems" Some
        by (auto simp: ack_loop.simps [of t wait k n st] Let_def split: if_splits sum.splits fval.splits rval.splits)
    qed
  qed
qed

text \<open>C40. An asynchronous remote execution sends its request at most three times and calls at most
  one of its callbacks: the success callback only after the acknowledgement has arrived, the
  failure callback only with a heartbeat failure, and none at all only after three attempts.\<close>

theorem solo_retry_outcome:
  assumes "CreateRetryTask_solo t wait st = Ok (called, n, st')"
  shows "n \<le> 3 \<and>
    (called = [] \<and> n = 3 \<or>
     called = [SuccessCb] \<and> 0 < n \<and> is_ready (rt_ack t) (futs st') \<and> content (st_at (futs st') (rt_ack t)) = Inr (FDat (RBool True)) \<or>
     called = [FailureCb HeartbeatFailure])"
proof -
  obtain r m st1 where r: "ack_loop t wait 0 0 st = (r, m, st1)" by (cases "ack_loop t wait 0 0 st")
  note b = ack_loop_bound [OF r]
  show ?thesis
  proof (cases r)
    case (Acked b)
    then show ?thesis using assms r \<open>m \<le> 0 + (3 - 0) \<and> _\<close> ack_loop_acked [of t wait 0 0 st m st1]
      by (cases b) (auto simp: CreateRetryTask_solo_def)
  qed (use assms r b in \<open>auto simp: CreateRetryTask_solo_def\<close>)
qed

text \<open>A wait during which nothing happens to the request.\<close>

definition silent :: "'j rtask \<Rightarrow> ('j remote \<Rightarrow> 'j remote) \<Rightarrow> bool" where
  "silent t w \<longleftrightarrow> (\<forall>st. (registered (rt_host t) (w st) = None \<longleftrightarrow> registered (rt_host t) st = None) \<and>
     (is_ready (rt_ack t) (futs (w st)) \<longleftrightarrow> is_ready (rt_ack t) (futs st)))"

lemma ack_loop_silent:
  assumes "\<forall>k. silent t (wait k)" "registered (rt_host t) st \<noteq> None" "\<not> is_ready (rt_ack t) (futs st)" "k \<le> 3"
  shows "\<exists>st'. ack_loop t wait k n st = (LoopLeft, n + (3 - k), st')"
  using assms(2-4)
proof (induction "3 - k" arbitrary: k n st)
  case 0
  then show ?case by (simp add: ack_loop.simps [of t wait 3 n st])
next
  case (Suc j)
  obtain c where c: "registered (rt_host t) st = Some c" using Suc.prems(1) by blast
  let ?p = "mqtt_publish c (requestUp (conn st c)) (PRequest (rt_req t)) st"
  have s: "send_request t st = Some ?p" by (simp add: send_request_def c)
  have p: "registered (rt_host t) ?p = registered (rt_host t) st" "futs ?p = futs st"
    by (simp_all add: registered_def find_conn_def mqtt_publish_def cong: option.case_cong)
  have w: "registered (rt_host t) (wait k ?p) \<noteq> None" "\<not> is_ready (rt_ack t) (futs (wait k ?p))"
    using spec [OF assms(1), of k] Suc.prems p by (auto simp: silent_def)
  have "\<exists>st'. ack_loop t wait (k + 1) (n + 1) (wait k ?p) = (LoopLeft, n + 1 + (3 - (k + 1)), st')"
    by (rule Suc.hyps(1)) (use Suc.hyps(2) w in auto)
  then show ?case using Suc.hyps(2) s w(2) by (auto simp: ack_loop.simps [of t wait k n st])
qed

text \<open>A registered connection that never acknowledges: after three packets the task ends without
  calling either callback. The branch that reports \<^verbatim>\<open>AckTimedOut\<close> is inside the loop but guarded by the
  negation of the loop's condition.\<close>

lemma unacknowledged_no_callback:
  assumes "\<forall>k. silent t (wait k)" "registered (rt_host t) st \<noteq> None" "\<not> is_ready (rt_ack t) (futs st)"
  shows "\<exists>st'. CreateRetryTask_solo t wait st = Ok ([], 3, st')"
  using ack_loop_silent [OF assms, where k = 0 and n = 0] by (auto simp: CreateRetryTask_solo_def)

text \<open>An asynchronous request on the main connection of a registered node.\<close>

definition demo_req :: "unit rtask" where
  "demo_req = \<lparr>rt_host = None, rt_eid = 0, rt_ack = 0, rt_exec = 0, rt_req = (async_request ''f'' [] 0 [])\<lparr>r_opt := ''dev'', r_actid := 0\<rparr>\<rparr>"

definition node3 :: "unit remote" where
  "node3 = snd (CreateRExecAsyncWithCallback ''f'' [] 0 [] node1)"

lemma node3_start: "CreateRExecAsyncWithCallback ''f'' [] 0 [] node1 = ((None, Some demo_req), node3)"
  by (simp add: node3_def CreateRExecAsyncWithCallback_def async_start_def demo_req_def) (simp add: node_simps)

lemma unacknowledged_no_callback_witness:
  "\<exists>st'. CreateRetryTask_solo demo_req (\<lambda>k st. st) node3 = Ok ([], 3, st')"
proof (rule unacknowledged_no_callback)
  show "\<forall>k. silent demo_req (\<lambda>st. st)" by (simp add: silent_def)
  show "registered (rt_host demo_req) node3 \<noteq> None" "\<not> is_ready (rt_ack demo_req) (futs node3)"
    by (simp_all add: node3_def CreateRExecAsyncWithCallback_def async_start_def demo_req_def is_ready_def) (simp_all add: node_simps)
qed

text \<open>The acknowledgement arrives during the second wait.\<close>

definition ack_msg :: "unit rmsg" where
  "ack_msg = \<lparr>m_cmd = Field ''REXEC-ACK'', m_opt = Missing, m_actid = Field 0, m_actname = Missing, m_args = None\<rparr>"

definition ack_second :: "nat \<Rightarrow> unit remote \<Rightarrow> unit remote" where
  "ack_second k st = (if k = 1 then snd (on_REXEC_ACK ack_msg st) else st)"

theorem solo_retry_outcome_witness:
  "\<exists>st'. CreateRetryTask_solo demo_req ack_second node3 = Ok ([SuccessCb], 2, st') \<and> is_ready 0 (futs st')"
proof -
  let ?ok = "\<lambda>x. case x of Ok (cs, n, _) \<Rightarrow> cs = [SuccessCb] \<and> n = 2 | _ \<Rightarrow> False"
  have "?ok (CreateRetryTask_solo demo_req ack_second node3)" by code_simp
  then obtain st' where "CreateRetryTask_solo demo_req ack_second node3 = Ok ([SuccessCb], 2, st')"
    by (auto split: outcome.splits)
  with solo_retry_outcome [OF this] show ?thesis by (simp add: demo_req_def)
qed

section \<open>Requests to all connections\<close>

text \<open>The reports of the tasks of one request, in the order in which they come.\<close>

fun report :: "nat \<Rightarrow> RemoteExecutionErrorCode option \<Rightarrow> 'j remote \<Rightarrow> 'j remote" where
  "report a None st = report_success a st"
| "report a (Some code) st = report_failure a code st"

definition failures :: "RemoteExecutionErrorCode option list \<Rightarrow> nat" where
  "failures rs = length (filter (\<lambda>r. r \<noteq> None) rs)"

text \<open>What the caller should see of \<open>n + 1\<close> tasks: the first success, or the last failure once all
  have failed.\<close>

definition callbacks :: "nat \<Rightarrow> RemoteExecutionErrorCode option list \<Rightarrow> rcallback list" where
  "callbacks n rs =
     (if None \<in> set rs then [SuccessCb] else if n < length rs then [FailureCb (the (last rs))] else [])"

lemma failures_bound: "failures rs \<le> length rs" "None \<in> set rs \<Longrightarrow> failures rs < length rs" "None \<notin> set rs \<Longrightarrow> failures rs = length rs"
proof -
  show "failures rs \<le> length rs" by (simp add: failures_def)
  show "failures rs < length rs" if "None \<in> set rs" using that by (auto simp: failures_def intro: length_filter_less)
  show "failures rs = length rs" if "None \<notin> set rs"
  proof -
    have "filter (\<lambda>r. r \<noteq> None) rs = rs" using that by (intro filter_True) (metis)
    then show ?thesis by (simp add: failures_def)
  qed
qed

lemma reports_invariant:
  assumes "a < length (aggs st)" "aggs st ! a = new_agg n p" "length rs \<le> n + 1"
  shows "length (aggs (fold (report a) rs st)) = length (aggs st) \<and> aggs (fold (report a) rs st) ! a =
    \<lparr>countCommon = n, failureCount = failures rs, calledOnce = (None \<in> set rs), cbLog = callbacks n rs, prCommon = p\<rparr>"
  using assms(3)
proof (induction rs rule: rev_induct)
  case Nil
  then show ?case using assms(2) by (simp add: new_agg_def failures_def callbacks_def)
next
  case (snoc r rs)
  have "failures rs \<le> n" using failures_bound(1) [of rs] snoc.prems by simp
  moreover have "None \<in> set rs \<Longrightarrow> failures rs < n" using failures_bound(2) [of rs] snoc.prems by simp
  moreover note failures_bound(3) [of rs]
  ultimately show ?case using snoc assms(1)
    by (cases r) (auto simp: report_failure_def report_success_def upd_agg_def failures_def callbacks_def)
qed

text \<open>The tasks of an asynchronous request to all connections, one for each of the \<open>n\<close> hosts and one for
  the main connection, call the caller's callbacks at most once altogether, in whatever order they
  report: the success callback on the first success, the failure callback when the last of
  all \<open>n + 1\<close> tasks has failed too, and nothing before.\<close>

lemma each_connection_one_callback:
  assumes "a < length (aggs st)" "aggs st ! a = new_agg n p" "length rs \<le> n + 1"
  shows "cbLog (aggs (fold (report a) rs st) ! a) = callbacks n rs"
  using reports_invariant [OF assms] by simp

lemma each_connection_one_callback_witness:
  "cbLog (aggs (fold (report 0) [Some HeartbeatFailure, None, None] (node1\<lparr>aggs := [new_agg 2 0]\<rparr>)) ! 0) = [SuccessCb] \<and>
   cbLog (aggs (fold (report 0) [Some HeartbeatFailure, Some AckTimedOut, Some HeartbeatFailure] (node1\<lparr>aggs := [new_agg 2 0]\<rparr>)) ! 0) =
     [FailureCb HeartbeatFailure]"
  using each_connection_one_callback [of 0 "node1\<lparr>aggs := [new_agg 2 0]\<rparr>" 2 0 "[Some HeartbeatFailure, None, None]"]
    each_connection_one_callback [of 0 "node1\<lparr>aggs := [new_agg 2 0]\<rparr>" 2 0 "[Some HeartbeatFailure, Some AckTimedOut, Some HeartbeatFailure]"]
  by (simp add: callbacks_def)

text \<open>The counter is made for the tasks: a request to all connections starts one task for each host
  and one for the main connection, or reports its failure at once.\<close>

lemma to_each_connection_tasks:
  "length (fst (CreateRExecAsyncWithCallbackToEachConnection eName condstr condvec eArgs st)) = length (cloudFogInfo st) + 1"
proof -
  have "length (fst (foldl (\<lambda>(ts, s) host. case CreateRExecAsyncWithCallbackNT a host req s of (t, s1) \<Rightarrow> (ts @ [t], s1)) (ts, s) hs)) =
    length ts + length hs" for a req hs ts and s :: "'a remote"
    by (induction hs arbitrary: ts s) (auto split: prod.splits)
  from this [of "length (aggs st)"] show ?thesis
    by (simp add: CreateRExecAsyncWithCallbackToEachConnection_def Let_def del: foldl_append map_map)
qed

text \<open>The synchronous request to a host uses the main connection's pending set: with a registered
  host and no main connection it dereferences a null pointer.\<close>

lemma sync_host_without_main:
  assumes "mainFogInfo st = None" "map_of (cloudFogInfo st) h = Some c" "isRegistered (conn st c)"
  shows "CreateRetryTaskSync_host a h req wait waitExec st = Fault NullDeref"
  using assms by (simp add: CreateRetryTaskSync_host_def sync_start_def new_fut_def new_promise_def registered_def find_conn_def
      Let_def store_ack_def store_result_def)

end
