(* ===== verification/Wheel.thy ===== *)
theory Wheel
  imports Prelude
begin

text \<open>
  The tickless hierarchical timing wheel (\<^verbatim>\<open>src/time/timeout.c\<close>, \<^verbatim>\<open>include/time/timeout.h\<close>), on 64-bit
  words as in the code. A timeout object is named by a number; the store \<open>tos\<close> holds its fields.
  A list head is named by its place: the queue of expired timeouts or a slot of a wheel; the
  intrusive lists are lists of names. There is one wheel set, so the back pointer of a timeout
  is a flag. The bitmaps \<open>wpending\<close> are the code's: bit \<open>s\<close> of wheel \<open>w\<close> for slot \<open>s\<close>.
\<close>

unbundle bit_operations_syntax

section \<open>Data\<close>

definition WHEEL_BIT :: nat where "WHEEL_BIT = 6"
definition WHEEL_NUM :: nat where "WHEEL_NUM = 4"
definition WHEEL_LEN :: u64 where "WHEEL_LEN = push_bit WHEEL_BIT 1"
definition WHEEL_MAX :: u64 where "WHEEL_MAX = WHEEL_LEN - 1"
definition WHEEL_MASK :: u64 where "WHEEL_MASK = WHEEL_LEN - 1"
definition TIMEOUT_MAX :: u64 where "TIMEOUT_MAX = push_bit (WHEEL_BIT * WHEEL_NUM) 1 - 1"
definition TIMEOUT_mHZ :: u64 where "TIMEOUT_mHZ = 1000"
definition TIMEOUT_INT :: u32 where "TIMEOUT_INT = 1"
definition TIMEOUT_ABS :: u32 where "TIMEOUT_ABS = 2"

datatype loc = Expired_queue | Slot nat nat

record timeout =
  to_flags :: u32
  to_expires :: u64
  to_pending :: "loc option"
  to_callback :: "tid option"
  to_interval :: u64
  to_owned :: bool

record timeouts =
  tos :: "nat \<Rightarrow> timeout"
  queue :: "loc \<Rightarrow> nat list"
  wpending :: "nat \<Rightarrow> u64"
  curtime :: u64
  hertz :: u64

section \<open>Bits\<close>

text \<open>The compiler's count of trailing and leading zeros; undefined for zero.\<close>

definition ctz :: "u64 \<Rightarrow> nat" where
  "ctz n = length (takeWhile (\<lambda>i. \<not> bit n i) [0..<64])"

definition clz :: "u64 \<Rightarrow> nat" where
  "clz n = length (takeWhile (\<lambda>i. \<not> bit n (63 - i)) [0..<64])"

definition fls :: "u64 \<Rightarrow> nat" where
  "fls n = 64 - clz n"

definition rotl :: "u64 \<Rightarrow> nat \<Rightarrow> u64" where
  "rotl v c = (let c = c mod 64 in if c = 0 then v else push_bit c v OR drop_bit (64 - c) v)"

definition rotr :: "u64 \<Rightarrow> nat \<Rightarrow> u64" where
  "rotr v c = (let c = c mod 64 in if c = 0 then v else drop_bit c v OR push_bit (64 - c) v)"

section \<open>Timeouts\<close>

definition upd_to :: "nat \<Rightarrow> (timeout \<Rightarrow> timeout) \<Rightarrow> timeouts \<Rightarrow> timeouts" where
  "upd_to t f T = T\<lparr>tos := (tos T)(t := f (tos T t))\<rparr>"

definition timeouts_init :: "(nat \<Rightarrow> timeout) \<Rightarrow> u64 \<Rightarrow> timeouts" where
  "timeouts_init heap hz =
     \<lparr>tos = heap, queue = (\<lambda>l. []), wpending = (\<lambda>w. 0), curtime = 0, hertz = (if hz \<noteq> 0 then hz else TIMEOUT_mHZ)\<rparr>"

text \<open>\<^verbatim>\<open>malloc\<close> may fail; the error number is the environment's.\<close>

definition timeouts_open :: "bool \<Rightarrow> int \<Rightarrow> (nat \<Rightarrow> timeout) \<Rightarrow> u64 \<Rightarrow> int + timeouts" where
  "timeouts_open alloc errno heap hz = (if alloc then Inr (timeouts_init heap hz) else Inl errno)"

definition all_slots :: "loc list" where
  "all_slots = concat (map (\<lambda>w. map (Slot w) [0..<64]) [0..<WHEEL_NUM])"

definition timeouts_reset :: "timeouts \<Rightarrow> timeouts" where
  "timeouts_reset T =
     (let reset = concat (map (queue T) (all_slots @ [Expired_queue])) in
      fold (\<lambda>t. upd_to t (\<lambda>x. x\<lparr>to_pending := None, to_owned := False\<rparr>)) reset (T\<lparr>queue := \<lambda>l. []\<rparr>))"

definition timeouts_close :: "timeouts \<Rightarrow> nat \<Rightarrow> timeout" where
  "timeouts_close T = tos (timeouts_reset T)"

definition timeouts_hz :: "timeouts \<Rightarrow> u64" where
  "timeouts_hz T = hertz T"

definition timeouts_del :: "nat \<Rightarrow> timeouts \<Rightarrow> timeouts" where
  "timeouts_del t T =
     (case to_pending (tos T t) of
        None \<Rightarrow> T
      | Some l \<Rightarrow>
          (let T1 = T\<lparr>queue := (queue T)(l := remove1 t (queue T l))\<rparr>;
               T2 = (case l of
                       Expired_queue \<Rightarrow> T1
                     | Slot w s \<Rightarrow>
                         if queue T1 l = []
                         then T1\<lparr>wpending := (wpending T1)(w := wpending T1 w AND NOT (push_bit s 1))\<rparr> else T1)
           in upd_to t (\<lambda>x. x\<lparr>to_pending := None, to_owned := False\<rparr>) T2))"

definition timeout_rem :: "nat \<Rightarrow> timeouts \<Rightarrow> u64" where
  "timeout_rem t T = to_expires (tos T t) - curtime T"

definition timeout_wheel :: "u64 \<Rightarrow> nat" where
  "timeout_wheel t = (fls (min t TIMEOUT_MAX) - 1) div WHEEL_BIT"

definition timeout_slot :: "nat \<Rightarrow> u64 \<Rightarrow> nat" where
  "timeout_slot w expires = unat (WHEEL_MASK AND (drop_bit (w * WHEEL_BIT) expires - (if w = 0 then 0 else 1)))"

definition timeouts_sched :: "nat \<Rightarrow> u64 \<Rightarrow> timeouts \<Rightarrow> timeouts" where
  "timeouts_sched t expires T =
     (let T1 = upd_to t (\<lambda>x. x\<lparr>to_expires := expires, to_owned := True\<rparr>) (timeouts_del t T) in
      if expires > curtime T1
      then (let w = timeout_wheel (timeout_rem t T1);
                s = timeout_slot w expires;
                T2 = upd_to t (\<lambda>x. x\<lparr>to_pending := Some (Slot w s)\<rparr>) T1
            in T2\<lparr>queue := (queue T2)(Slot w s := queue T2 (Slot w s) @ [t]),
                  wpending := (wpending T2)(w := wpending T2 w OR push_bit s 1)\<rparr>)
      else (let T2 = upd_to t (\<lambda>x. x\<lparr>to_pending := Some Expired_queue\<rparr>) T1
            in T2\<lparr>queue := (queue T2)(Expired_queue := queue T2 Expired_queue @ [t])\<rparr>))"

text \<open>A repeating timeout that missed its next firing goes to the next multiple of its interval.\<close>

definition timeouts_readd :: "nat \<Rightarrow> timeouts \<Rightarrow> timeouts" where
  "timeouts_readd t T =
     (let i = to_interval (tos T t); e = to_expires (tos T t) + i;
          e1 = (if e \<le> curtime T then curtime T + (i - (curtime T - e) mod i) else e)
      in timeouts_sched t e1 (upd_to t (\<lambda>x. x\<lparr>to_expires := e1\<rparr>) T))"

definition timeouts_add :: "nat \<Rightarrow> u64 \<Rightarrow> timeouts \<Rightarrow> timeouts" where
  "timeouts_add t v T =
     (let T1 = (if to_flags (tos T t) AND TIMEOUT_INT \<noteq> 0 then upd_to t (\<lambda>x. x\<lparr>to_interval := max 1 v\<rparr>) T else T) in
      if to_flags (tos T1 t) AND TIMEOUT_ABS \<noteq> 0 then timeouts_sched t v T1 else timeouts_sched t (curtime T1 + v) T1)"

section \<open>Update\<close>

text \<open>The slots of wheel \<open>w\<close> between the old and the new time.\<close>

definition update_slots :: "nat \<Rightarrow> u64 \<Rightarrow> u64 \<Rightarrow> u64 \<Rightarrow> u64" where
  "update_slots w elapsed old now =
     (if drop_bit (w * WHEEL_BIT) elapsed > WHEEL_MAX then NOT 0
      else
        (let e = unat (WHEEL_MASK AND drop_bit (w * WHEEL_BIT) elapsed);
             oslot = unat (WHEEL_MASK AND drop_bit (w * WHEEL_BIT) old);
             nslot = unat (WHEEL_MASK AND drop_bit (w * WHEEL_BIT) now)
         in rotl (push_bit e 1 - 1) oslot OR rotr (rotl (push_bit e 1 - 1) nslot) e OR push_bit nslot 1))"

text \<open>Emptying those slots that are occupied, lowest first.\<close>

function collect :: "u64 \<Rightarrow> nat \<Rightarrow> nat list \<Rightarrow> timeouts \<Rightarrow> nat list \<times> timeouts" where
  "collect p w todo T =
     (if p AND wpending T w = 0 then (todo, T)
      else
        (let s = ctz (p AND wpending T w) in
         collect p w (todo @ queue T (Slot w s))
           (T\<lparr>queue := (queue T)(Slot w s := []), wpending := (wpending T)(w := wpending T w AND NOT (push_bit s 1))\<rparr>)))"
  by pat_completeness auto

text \<open>A cleared bit makes the bitmap smaller.\<close>

lemma bit_bound: "bit (v :: u64) i \<Longrightarrow> i < 64"
  using bit_imp_le_length [of v i] by simp

lemma word_nonzero_bit:
  assumes "(n :: u64) \<noteq> 0"
  obtains i where "i < 64" "bit n i"
proof -
  have "\<exists>i. bit n i"
  proof (rule ccontr)
    assume "\<not> (\<exists>i. bit n i)"
    then have "n = 0" by (intro bit_word_eqI) simp
    then show False using assms by simp
  qed
  then show ?thesis using that bit_bound by blast
qed

lemma ctz_bit:
  assumes "n \<noteq> 0"
  shows "ctz n < 64" "bit n (ctz n)"
proof -
  let ?P = "\<lambda>i. \<not> bit n i"
  obtain i where i: "i < 64" "bit n i" using assms by (rule word_nonzero_bit)
  have "\<not> (\<forall>x \<in> set [0..<64]. ?P x)" using i by auto
  then have "takeWhile ?P [0..<64] \<noteq> [0..<64]" by (metis takeWhile_eq_all_conv)
  then have ne: "length (takeWhile ?P [0..<64]) < length [0..<64]"
    by (metis length_takeWhile_le nat_less_le takeWhile_eq_take take_all_iff order_refl)
  then show "ctz n < 64" by (simp add: ctz_def)
  from nth_length_takeWhile [OF ne] show "bit n (ctz n)" using ne by (simp add: ctz_def)
qed

lemma bit_single: "bit (2 ^ s :: u64) i \<longleftrightarrow> i = s \<and> s < 64"
  by (auto simp: bit_exp_iff possible_bit_word)

lemma clear_bit_less:
  fixes v :: u64
  assumes "bit v s"
  shows "unat (v AND NOT (push_bit s 1)) < unat v"
proof -
  have "bit (v AND NOT (push_bit s 1)) s = False" using assms bit_bound [OF assms]
    by (simp add: bit_and_iff bit_not_iff bit_single)
  then have "v AND NOT (push_bit s 1) \<noteq> v" using assms by metis
  moreover have "v AND NOT (push_bit s 1) \<le> v" by (rule word_and_le2)
  ultimately show ?thesis by (metis order_less_le word_less_nat_alt)
qed

termination collect
proof (relation "measure (\<lambda>(p, w, todo, T). unat (wpending T w))")
  fix p w todo T s
  assume ne: "p AND wpending T w \<noteq> 0" and s: "s = ctz (p AND wpending T w)"
  have "bit (wpending T w) s" using ctz_bit(2) [OF ne] by (simp add: s bit_and_iff)
  from clear_bit_less [OF this]
  show "((p, w, todo @ queue T (Slot w s), T\<lparr>queue := (queue T)(Slot w s := []),
      wpending := (wpending T)(w := wpending T w AND NOT (push_bit s 1))\<rparr>), p, w, todo, T)
    \<in> measure (\<lambda>(p, w, todo, T). unat (wpending T w))" by simp
qed simp

declare collect.simps [simp del]

text \<open>The loop over the wheels; the next one is visited only if the slot range contained slot 0.
  (\<^verbatim>\<open>WHEEL_LEN << (wheel * WHEEL_BIT)\<close> is at most \<open>2 ^ 24\<close> and fits its 32 bits.)\<close>

function update_wheels :: "nat \<Rightarrow> u64 \<Rightarrow> u64 \<Rightarrow> u64 \<Rightarrow> nat list \<Rightarrow> timeouts \<Rightarrow> nat list \<times> timeouts" where
  "update_wheels w elapsed old now todo T =
     (if w < WHEEL_NUM
      then (let p = update_slots w elapsed old now in
            case collect p w todo T of (todo1, T1) \<Rightarrow>
              if \<not> bit p 0 then (todo1, T1)
              else update_wheels (w + 1) (max elapsed (push_bit (w * WHEEL_BIT) WHEEL_LEN)) old now todo1 T1)
      else (todo, T))"
  by pat_completeness auto
termination by (relation "measure (\<lambda>(w, _). WHEEL_NUM - w)") auto

declare update_wheels.simps [simp del]

definition resched :: "nat \<Rightarrow> timeouts \<Rightarrow> timeouts" where
  "resched t T =
     (let T1 = upd_to t (\<lambda>x. x\<lparr>to_pending := None\<rparr>) T in timeouts_sched t (to_expires (tos T1 t)) T1)"

definition timeouts_update :: "u64 \<Rightarrow> timeouts \<Rightarrow> timeouts" where
  "timeouts_update now T =
     (case update_wheels 0 (now - curtime T) (curtime T) now [] T of
        (todo, T1) \<Rightarrow> fold resched todo (T1\<lparr>curtime := now\<rparr>))"

definition timeouts_step :: "u64 \<Rightarrow> timeouts \<Rightarrow> timeouts" where
  "timeouts_step elapsed T = timeouts_update (curtime T + elapsed) T"

section \<open>Queries\<close>

definition timeouts_pending :: "timeouts \<Rightarrow> bool" where
  "timeouts_pending T \<longleftrightarrow> foldl (\<lambda>p w. p OR wpending T w) 0 [0..<WHEEL_NUM] \<noteq> 0"

definition timeouts_expired :: "timeouts \<Rightarrow> bool" where
  "timeouts_expired T \<longleftrightarrow> queue T Expired_queue \<noteq> []"

text \<open>One round of \<^verbatim>\<open>timeouts_int\<close>, on the pair of the minimum so far and the mask.\<close>

definition int_round :: "timeouts \<Rightarrow> u64 \<times> u64 \<Rightarrow> nat \<Rightarrow> u64 \<times> u64" where
  "int_round T r w =
     (case r of (timeout, relmask) \<Rightarrow>
        (if wpending T w \<noteq> 0
         then (let slot = unat (WHEEL_MASK AND drop_bit (w * WHEEL_BIT) (curtime T));
                   t = push_bit (w * WHEEL_BIT) (of_nat (ctz (rotr (wpending T w) slot) + (if w = 0 then 0 else 1)))
                         - (relmask AND curtime T)
               in min t timeout)
         else timeout,
         push_bit WHEEL_BIT relmask OR WHEEL_MASK))"

definition timeouts_int :: "timeouts \<Rightarrow> u64" where
  "timeouts_int T = fst (foldl (int_round T) (NOT 0, 0) [0..<WHEEL_NUM])"

definition timeouts_timeout :: "timeouts \<Rightarrow> u64" where
  "timeouts_timeout T = (if queue T Expired_queue \<noteq> [] then 0 else timeouts_int T)"

definition timeouts_get :: "timeouts \<Rightarrow> nat option \<times> timeouts" where
  "timeouts_get T =
     (case queue T Expired_queue of
        [] \<Rightarrow> (None, T)
      | t # ts \<Rightarrow>
          (let T1 = upd_to t (\<lambda>x. x\<lparr>to_pending := None, to_owned := False\<rparr>) (T\<lparr>queue := (queue T)(Expired_queue := ts)\<rparr>) in
           (Some t,
            if to_flags (tos T1 t) AND TIMEOUT_INT \<noteq> 0 \<and> to_interval (tos T1 t) > 0 then timeouts_readd t T1 else T1)))"

text \<open>The first timeout of least expiry, by looking at all slots.\<close>

definition timeouts_min :: "timeouts \<Rightarrow> nat option" where
  "timeouts_min T =
     fold (\<lambda>t m. case m of None \<Rightarrow> Some t | Some u \<Rightarrow> if to_expires (tos T t) < to_expires (tos T u) then Some t else Some u)
       (concat (map (queue T) all_slots)) None"

definition timeouts_check :: "timeouts \<Rightarrow> bool" where
  "timeouts_check T =
     (case timeouts_min T of
        Some t \<Rightarrow>
          to_expires (tos T t) > curtime T \<and>
          timeouts_int T \<le> to_expires (tos T t) - curtime T \<and>
          timeouts_timeout T \<le> to_expires (tos T t) - curtime T
      | None \<Rightarrow>
          if queue T Expired_queue \<noteq> [] then timeouts_timeout T = 0 else timeouts_timeout T = NOT 0)"

text \<open>Single timeouts. Initialising clears every field, also the link of a timeout that is on a
  list.\<close>

definition timeout_init :: "u32 \<Rightarrow> timeout" where
  "timeout_init flags =
     \<lparr>to_flags = flags, to_expires = 0, to_pending = None, to_callback = None, to_interval = 0, to_owned = False\<rparr>"

definition jamscript_timeout_pending :: "nat \<Rightarrow> timeouts \<Rightarrow> bool" where
  "jamscript_timeout_pending t T \<longleftrightarrow> to_pending (tos T t) \<noteq> None \<and> to_pending (tos T t) \<noteq> Some Expired_queue"

definition timeout_expired :: "nat \<Rightarrow> timeouts \<Rightarrow> bool" where
  "timeout_expired t T \<longleftrightarrow> to_pending (tos T t) = Some Expired_queue"

definition jamscript_timeout_del :: "nat \<Rightarrow> timeouts \<Rightarrow> timeouts" where
  "jamscript_timeout_del t T = timeouts_del t T"

section \<open>Iteration\<close>

text \<open>The iterator is a coroutine: \<open>it_pc\<close> says where it was left, \<open>it_to\<close> is the saved successor.\<close>

definition TIMEOUTS_PENDING :: u32 where "TIMEOUTS_PENDING = 16"
definition TIMEOUTS_EXPIRED :: u32 where "TIMEOUTS_EXPIRED = 32"
definition TIMEOUTS_CLEAR :: u32 where "TIMEOUTS_CLEAR = 64"

datatype it_point = ItStart | ItClear | ItExpired | ItWheel | ItDone

record timeouts_it =
  it_flags :: u32
  it_pc :: it_point
  it_i :: nat
  it_j :: nat
  it_to :: "nat option"

definition TIMEOUTS_IT_INIT :: "u32 \<Rightarrow> timeouts_it" where
  "TIMEOUTS_IT_INIT flags = \<lparr>it_flags = flags, it_pc = ItStart, it_i = 0, it_j = 0, it_to = None\<rparr>"

definition succ_in :: "nat \<Rightarrow> nat list \<Rightarrow> nat option" where
  "succ_in t xs = (case dropWhile (\<lambda>x. x \<noteq> t) xs of _ # u # _ \<Rightarrow> Some u | _ \<Rightarrow> None)"

text \<open>The next occupied slot from number \<open>k\<close> on.\<close>

definition it_slots :: "nat \<Rightarrow> timeouts \<Rightarrow> timeouts_it \<Rightarrow> nat option \<times> timeouts_it" where
  "it_slots k T it =
     (case filter (\<lambda>n. queue T (Slot (n div 64) (n mod 64)) \<noteq> []) [k..<WHEEL_NUM * 64] of
        [] \<Rightarrow> (None, it\<lparr>it_pc := ItDone\<rparr>)
      | n # _ \<Rightarrow>
          (let q = queue T (Slot (n div 64) (n mod 64)) in
           (Some (hd q), it\<lparr>it_pc := ItWheel, it_i := n div 64, it_j := n mod 64, it_to := succ_in (hd q) q\<rparr>)))"

definition it_wheels :: "timeouts \<Rightarrow> timeouts_it \<Rightarrow> nat option \<times> timeouts_it" where
  "it_wheels T it = (if it_flags it AND TIMEOUTS_PENDING \<noteq> 0 then it_slots 0 T it else (None, it\<lparr>it_pc := ItDone\<rparr>))"

definition it_clear :: "timeouts \<Rightarrow> timeouts_it \<Rightarrow> nat option \<times> timeouts \<times> timeouts_it" where
  "it_clear T it =
     (case timeouts_get T of
        (Some t, T1) \<Rightarrow> (Some t, T1, it\<lparr>it_pc := ItClear\<rparr>)
      | (None, T1) \<Rightarrow> (case it_wheels T1 it of (r, it1) \<Rightarrow> (r, T1, it1)))"

definition it_expired :: "nat option \<Rightarrow> timeouts \<Rightarrow> timeouts_it \<Rightarrow> nat option \<times> timeouts_it" where
  "it_expired to T it =
     (case to of
        Some t \<Rightarrow> (Some t, it\<lparr>it_pc := ItExpired, it_to := succ_in t (queue T Expired_queue)\<rparr>)
      | None \<Rightarrow> it_wheels T it)"

definition timeouts_next :: "timeouts \<Rightarrow> timeouts_it \<Rightarrow> nat option \<times> timeouts \<times> timeouts_it" where
  "timeouts_next T it =
     (let keep = (\<lambda>(r, it1). (r, T, it1)) in
      case it_pc it of
        ItStart \<Rightarrow>
          if it_flags it AND TIMEOUTS_EXPIRED \<noteq> 0
          then (if it_flags it AND TIMEOUTS_CLEAR \<noteq> 0 then it_clear T it
                else keep (it_expired (case queue T Expired_queue of [] \<Rightarrow> None | t # _ \<Rightarrow> Some t) T it))
          else keep (it_wheels T it)
      | ItClear \<Rightarrow> it_clear T it
      | ItExpired \<Rightarrow> keep (it_expired (it_to it) T it)
      | ItWheel \<Rightarrow>
          (case it_to it of
             Some t \<Rightarrow> keep (Some t, it\<lparr>it_to := succ_in t (queue T (Slot (it_i it) (it_j it)))\<rparr>)
           | None \<Rightarrow> keep (it_slots (it_i it * 64 + it_j it + 1) T it))
      | ItDone \<Rightarrow> (None, T, it))"

end
