(* ===== verification/WheelBits.thy ===== *)
theory WheelBits
  imports Wheel
begin

text \<open>
  The arithmetic of the timing wheel: what the shifts, masks and rotations compute, that the slot
  range of an update covers every block of time that was passed, and where a timeout belongs.
\<close>

section \<open>Shifts and masks\<close>

lemmas wheel_consts = WHEEL_BIT_def WHEEL_NUM_def WHEEL_LEN_def WHEEL_MAX_def WHEEL_MASK_def TIMEOUT_MAX_def

lemma mask6: "WHEEL_MASK = mask 6"
  by (simp add: wheel_consts mask_eq_exp_minus_1)

lemma max63: "unat WHEEL_MAX = 63"
  by (simp add: wheel_consts)

lemma unat_drop: "unat (drop_bit n (x :: u64)) = unat x div 2 ^ n"
  using unat_drop_bit_eq [of n x] unfolding drop_bit_eq_div [of n "unat x"] .

lemma unat_mask6: "unat (WHEEL_MASK AND x) = unat x mod 64"
proof -
  have "WHEEL_MASK AND x = take_bit 6 x" by (simp only: mask6 and.commute [of "mask 6"] take_bit_eq_mask)
  moreover have "unat (take_bit 6 x) = unat x mod 64" 
    using unsigned_take_bit_eq [of 6 x, where 'a = nat] unfolding take_bit_eq_mod [of 6 "unat x"] by simp
  ultimately show ?thesis by simp
qed

lemma pow64: "(2::nat) ^ (w * 6) = 64 ^ w"
  by (subst mult.commute) (simp add: power_mult)

lemma slot_of: "unat (WHEEL_MASK AND drop_bit (w * WHEEL_BIT) x) = unat x div 64 ^ w mod 64"
  by (simp add: unat_mask6 unat_drop WHEEL_BIT_def pow64 del: drop_bit_eq_div)

lemma bit_rotl:
  assumes "i < 64" "c < 64"
  shows "bit (rotl v c) i \<longleftrightarrow> bit v ((i + 64 - c) mod 64)"
proof (cases "c \<le> i")
  case True
  then have "(i + 64 - c) mod 64 = i - c" using assms(1) by (simp add: mod_if)
  then show ?thesis using True assms bit_bound [of v "i + (64 - c)"]
    by (auto simp: rotl_def bit_or_iff bit_push_bit_iff bit_drop_bit_eq add.commute)
next
  case False
  then have "(i + 64 - c) mod 64 = i + (64 - c)" using assms by simp
  then show ?thesis using False assms by (auto simp: rotl_def bit_or_iff bit_push_bit_iff bit_drop_bit_eq add.commute)
qed

lemma bit_rotr:
  assumes "i < 64" "c < 64"
  shows "bit (rotr v c) i \<longleftrightarrow> bit v ((i + c) mod 64)"
proof (cases "i + c < 64")
  case True
  then show ?thesis using assms by (auto simp: rotr_def bit_or_iff bit_push_bit_iff bit_drop_bit_eq add.commute)
next
  case False
  then have "(i + c) mod 64 = i - (64 - c)" using assms by (simp add: mod_if)
  then show ?thesis using False assms bit_bound [of v "c + i"]
    by (auto simp: rotr_def bit_or_iff bit_push_bit_iff bit_drop_bit_eq)
qed

lemma bit_low: "e < 64 \<Longrightarrow> bit (push_bit e 1 - 1 :: u64) i \<longleftrightarrow> i < e"
  by (auto simp: bit_mask_iff simp flip: mask_eq_exp_minus_1)

section \<open>The slot range of an update\<close>

lemma bit_update_slots:
  assumes "i < 64"
  shows "bit (update_slots w el old now) i \<longleftrightarrow>
    63 < unat el div 64 ^ w \<or>
    (let e = unat el div 64 ^ w; o' = unat old div 64 ^ w mod 64; n = unat now div 64 ^ w mod 64 in
     (i + 64 - o') mod 64 < e \<or> ((i + e) mod 64 + 64 - n) mod 64 < e \<or> i = n)"
proof -
  have max: "drop_bit (w * WHEEL_BIT) el > WHEEL_MAX \<longleftrightarrow> 63 < unat el div 64 ^ w"
    by (simp add: word_less_nat_alt unat_drop WHEEL_BIT_def pow64 max63 del: drop_bit_eq_div)
  show ?thesis
  proof (cases "63 < unat el div 64 ^ w")
    case True
    then show ?thesis using assms max by (simp add: update_slots_def bit_not_iff)
  next
    case False
    let ?e = "unat el div 64 ^ w" and ?o = "unat old div 64 ^ w mod 64" and ?n = "unat now div 64 ^ w mod 64"
    have e: "?e < 64" "?e mod 64 = ?e" using False by simp_all
    have p: "update_slots w el old now = rotl (push_bit ?e 1 - 1) ?o OR rotr (rotl (push_bit ?e 1 - 1) ?n) ?e OR push_bit ?n 1"
      using False max e(2) by (simp add: update_slots_def Let_def slot_of)
    have "bit (rotl (push_bit ?e 1 - 1) ?o) i \<longleftrightarrow> (i + 64 - ?o) mod 64 < ?e"
      using assms e(1) bit_low [OF e(1)] by (simp add: bit_rotl)
    moreover have "bit (rotr (rotl (push_bit ?e 1 - 1) ?n) ?e) i \<longleftrightarrow> ((i + ?e) mod 64 + 64 - ?n) mod 64 < ?e"
      using assms e(1) bit_low [OF e(1)] by (simp add: bit_rotr bit_rotl)
    moreover have "bit (push_bit ?n 1 :: u64) i \<longleftrightarrow> i = ?n" by (simp add: bit_single)
    ultimately show ?thesis using False unfolding p by (simp add: bit_or_iff Let_def)
  qed
qed

text \<open>Blocks of \<open>64 ^ w\<close> units of time.\<close>

lemma block_mono: "(c::nat) \<le> n \<Longrightarrow> c div 64 ^ w \<le> n div 64 ^ w"
  by (rule div_le_mono)

lemma block_diff:
  assumes "(c::nat) \<le> n" "0 < k"
  shows "n div k \<le> c div k + (n - c) div k + 1"
proof -
  have "c mod k + (n - c) mod k < k + k" using mod_less_divisor [OF assms(2), of c] mod_less_divisor [OF assms(2), of "n - c"] by linarith
  then have "(c mod k + (n - c) mod k) div k \<le> 1"
    by (metis less_Suc_eq_le less_mult_imp_div_less mult_2 numeral_2_eq_2 One_nat_def)
  then show ?thesis using div_add1_eq [of c "n - c" k] assms(1) by simp
qed

lemma add_mod64: "r < 64 \<Longrightarrow> d < 64 \<Longrightarrow> (r + d) mod 64 = (if r + d < 64 then r + d else r + d - (64::nat))"
  by (simp add: mod_if)

lemma mod_shift:
  assumes "(d::nat) < 64"
  shows "((c + d) mod 64 + 64 - c mod 64) mod 64 = d"
proof -
  define r where "r = c mod 64"
  have r: "r < 64" by (simp add: r_def)
  have "(c + d) mod 64 = (r + d) mod 64" by (simp add: r_def mod_add_left_eq)
  also have "\<dots> = (if r + d < 64 then r + d else r + d - 64)" by (rule add_mod64 [OF r assms])
  finally have e: "(c + d) mod 64 + 64 - r = (if r + d < 64 then d + 64 else d)" using r by simp
  show ?thesis unfolding r_def [symmetric] e using assms by simp
qed

lemma mod_back:
  assumes "0 < e" "(e::nat) \<le> 63"
  shows "((b mod 64 + e) mod 64 + 64 - (b + 1) mod 64) mod 64 = e - 1"
proof -
  define r where "r = b mod 64"
  have r: "r < 64" by (simp add: r_def)
  have n: "(b + 1) mod 64 = (if r = 63 then 0 else r + 1)" by (simp add: r_def mod_Suc)
  have "(r + e) mod 64 = (if r + e < 64 then r + e else r + e - 64)" by (rule add_mod64) (use r assms in auto)
  then have "(r + e) mod 64 + 64 - (b + 1) mod 64 = (if r = 63 then 63 + e else if r + e < 64 then 64 + (e - 1) else e - 1)"
    using n r assms by auto
  moreover have "(63 + e) mod 64 = e - 1" "(64 + (e - 1)) mod 64 = e - 1" "(e - 1) mod 64 = e - 1"
    using assms mod_add_self1 [of 64 "e - 1"] by auto
  ultimately show ?thesis unfolding r_def [symmetric] by auto
qed

text \<open>Every block from the old to the new time is covered, the first one if the range is not empty.\<close>

lemma slots_cover:
  assumes cn: "old \<le> now" and el: "unat now - unat old \<le> unat el"
    and b: "unat old div 64 ^ w \<le> b" "b \<le> unat now div 64 ^ w"
    and first: "unat old div 64 ^ w < b \<or> 64 ^ w \<le> unat el"
  shows "bit (update_slots w el old now) (b mod 64)"
proof (cases "63 < unat el div 64 ^ w")
  case True
  then show ?thesis by (simp add: bit_update_slots)
next
  case False
  let ?C = "unat old div 64 ^ w" and ?N = "unat now div 64 ^ w" and ?e = "unat el div 64 ^ w"
  have le: "unat old \<le> unat now" using cn by (simp add: word_le_nat_alt)
  have "(unat now - unat old) div 64 ^ w \<le> ?e" using el by (rule div_le_mono)
  then have NC: "?N \<le> ?C + ?e + 1" using block_diff [OF le, of "64 ^ w"] by simp
  have pos: "?C < b \<or> 0 < ?e" using first by (auto simp: div_greater_zero_iff)
  obtain d where d: "b = ?C + d" using b(1) le_Suc_ex by blast
  show ?thesis
  proof (cases "d < ?e")
    case True
    have "(b mod 64 + 64 - ?C mod 64) mod 64 = d" using d True False by (simp add: mod_shift)
    then show ?thesis using True False by (simp add: bit_update_slots Let_def)
  next
    case False
    then consider "b = ?N" | "b + 1 = ?N" "d = ?e" using d b(2) NC by linarith
    then show ?thesis
    proof cases
      case 1
      then show ?thesis by (simp add: bit_update_slots Let_def)
    next
      case 2
      then have "0 < ?e" using pos d by linarith
      have "((b mod 64 + ?e) mod 64 + 64 - ?N mod 64) mod 64 = ?e - 1"
        using mod_back [of ?e b] \<open>0 < ?e\<close> \<open>\<not> 63 < ?e\<close> unfolding 2(1) by linarith
      then show ?thesis using \<open>0 < ?e\<close> \<open>\<not> 63 < ?e\<close> by (simp add: bit_update_slots Let_def)
    qed
  qed
qed

text \<open>If a block of the next wheel has been passed, the range contains slot 0.\<close>

lemma slot0_reached:
  assumes cn: "old \<le> now" and el: "unat now - unat old \<le> unat el"
    and pass: "unat old div 64 ^ Suc w < unat now div 64 ^ Suc w"
  shows "bit (update_slots w el old now) 0"
proof -
  let ?C = "unat old div 64 ^ w" and ?N = "unat now div 64 ^ w"
  have div: "unat x div 64 ^ Suc w = unat x div 64 ^ w div 64" for x :: u64
    by (simp add: div_mult2_eq mult.commute [of 64])
  have "?C div 64 < ?N div 64" using pass by (simp only: div)
  then have lt: "?C < 64 * (?N div 64)" by (metis div_less_iff_less_mult mult.commute zero_less_numeral)
  have "bit (update_slots w el old now) (64 * (?N div 64) mod 64)"
    by (rule slots_cover [OF cn el]) (use lt in auto)
  then show ?thesis by simp
qed

section \<open>Where a timeout belongs\<close>

lemma clz_bit:
  assumes "n \<noteq> 0"
  shows "clz n < 64" "bit n (63 - clz n)" "\<And>i. 63 - clz n < i \<Longrightarrow> \<not> bit n i"
proof -
  let ?P = "\<lambda>i. \<not> bit n (63 - i)"
  obtain i where i: "i < 64" "bit n i" using assms by (rule word_nonzero_bit)
  have "\<not> (\<forall>x \<in> set [0..<64]. ?P x)" using i by (auto intro!: bexI [of _ "63 - i"])
  then have "takeWhile ?P [0..<64] \<noteq> [0..<64]" by (metis takeWhile_eq_all_conv)
  then have ne: "length (takeWhile ?P [0..<64]) < length [0..<64]"
    by (metis length_takeWhile_le nat_less_le takeWhile_eq_take take_all_iff order_refl)
  then show lt: "clz n < 64" by (simp add: clz_def)
  from nth_length_takeWhile [OF ne] show "bit n (63 - clz n)" using ne by (simp add: clz_def)
  show "\<not> bit n j" if "63 - clz n < j" for j
  proof
    assume j: "bit n j"
    then have "j < 64" by (rule bit_bound)
    then have "63 - j < clz n" using that lt by linarith
    then have "?P ([0..<64] ! (63 - j))"
      using takeWhile_nth [of "63 - j" ?P "[0..<64]"] set_takeWhileD [OF nth_mem, of "63 - j" ?P "[0..<64]"] by (simp add: clz_def)
    then show False using \<open>j < 64\<close> j by simp
  qed
qed

lemma fls_bounds:
  assumes "n \<noteq> 0"
  shows "2 ^ (fls n - 1) \<le> unat n" "unat n < 2 ^ fls n" "0 < fls n"
proof -
  let ?k = "63 - clz n"
  have f: "fls n = Suc ?k" using clz_bit(1) [OF assms] by (simp add: fls_def)
  have b: "bit (unat n) ?k" using clz_bit(2) [OF assms] by (simp add: bit_unsigned_iff)
  then show "2 ^ (fls n - 1) \<le> unat n" 
    using div_greater_zero_iff [of "unat n" "2 ^ ?k"] by (simp add: f bit_iff_odd) (metis even_zero neq0_conv)
  have "\<not> bit (unat n) i" if "Suc ?k \<le> i" for i
    using clz_bit(3) [OF assms] that by (simp add: bit_unsigned_iff)
  then have "take_bit (Suc ?k) (unat n) = unat n" 
    by (intro bit_eqI) (metis bit_take_bit_iff linorder_not_le)
  then show "unat n < 2 ^ fls n" unfolding f by (metis take_bit_nat_less_exp)
  show "0 < fls n" by (simp add: f)
qed

text \<open>A timeout on wheel \<open>w\<close> is kept one block ahead: its block has not been reached.\<close>

definition place :: "nat \<Rightarrow> nat \<Rightarrow> u64 \<Rightarrow> u64 \<Rightarrow> bool" where
  "place w s e c \<longleftrightarrow> w < 4 \<and> s = (unat e div 64 ^ w - (if w = 0 then 0 else 1)) mod 64 \<and>
     unat c div 64 ^ w < unat e div 64 ^ w"

lemma place_slot: "place w s e c \<Longrightarrow> s < 64"
  by (auto simp: place_def)

lemma place_later: "place w s e c \<Longrightarrow> c < e"
  by (metis place_def div_le_mono linorder_not_le word_le_nat_alt not_less)

lemma timeout_place:
  assumes "c < e"
  shows "place (timeout_wheel (e - c)) (timeout_slot (timeout_wheel (e - c)) e) e c"
proof -
  let ?m = "min (e - c) TIMEOUT_MAX" and ?w = "timeout_wheel (e - c)"
  have max: "unat TIMEOUT_MAX = 2 ^ 24 - 1" by (simp add: wheel_consts)
  have rem: "unat (e - c) = unat e - unat c" "unat c < unat e"
    using assms by (simp_all add: unat_sub word_less_nat_alt order_less_imp_le)
  have m: "unat ?m = min (unat e - unat c) (2 ^ 24 - 1)" using max rem(1) by (simp add: min_def word_le_nat_alt)
  have "0 < unat ?m" using m rem(2) by simp
  then have ne: "?m \<noteq> 0" by auto
  note f = fls_bounds [OF ne]
  have w: "?w = (fls ?m - 1) div 6" by (simp add: timeout_wheel_def WHEEL_BIT_def)
  have "2 ^ (fls ?m - 1) < (2::nat) ^ 24" using f(1) m by simp
  then have "fls ?m - 1 < 24" by (rule power_less_imp_less_exp [rotated]) simp
  then have w4: "?w < 4" using w by simp
  have "(64::nat) ^ ?w \<le> 2 ^ (fls ?m - 1)" unfolding w pow64 [symmetric] by (simp add: div_times_less_eq_dividend)
  also have "\<dots> \<le> unat e - unat c" using f(1) m by simp
  finally have ge: "unat c + 64 ^ ?w \<le> unat e" using rem(2) by simp
  have "unat c div 64 ^ ?w + 1 = (unat c + 64 ^ ?w) div 64 ^ ?w"
    by (simp add: div_add_self2)
  also have "\<dots> \<le> unat e div 64 ^ ?w" using ge by (rule div_le_mono)
  finally have E: "unat c div 64 ^ ?w < unat e div 64 ^ ?w" by simp
  have d: "unat (drop_bit (?w * WHEEL_BIT) e) = unat e div 64 ^ ?w" by (simp add: unat_drop WHEEL_BIT_def pow64 del: drop_bit_eq_div)
  then have "unat (drop_bit (?w * WHEEL_BIT) e - 1) = unat e div 64 ^ ?w - 1"
    using E by (subst unat_sub) (simp_all add: word_le_nat_alt)
  then have "timeout_slot ?w e = (unat e div 64 ^ ?w - (if ?w = 0 then 0 else 1)) mod 64"
    using d by (simp add: timeout_slot_def unat_mask6)
  with w4 E show ?thesis by (simp add: place_def)
qed

text \<open>The slots an update from \<open>c\<close> to \<open>n\<close> must empty; a timeout in another slot stays where it belongs.\<close>

definition touched :: "nat \<Rightarrow> nat \<Rightarrow> u64 \<Rightarrow> u64 \<Rightarrow> bool" where
  "touched w s c n \<longleftrightarrow> (\<exists>b. s = b mod 64 \<and> b \<le> unat n div 64 ^ w \<and>
     (if w = 0 then unat c div 64 ^ w < b else unat c div 64 ^ w \<le> b \<and> unat c div 64 ^ w < unat n div 64 ^ w))"

lemma place_step:
  assumes "place w s e c" "c \<le> n" "\<not> touched w s c n"
  shows "place w s e n"
proof (rule ccontr)
  assume "\<not> place w s e n"
  then have le: "unat e div 64 ^ w \<le> unat n div 64 ^ w" using assms(1) by (auto simp: place_def)
  have "touched w s c n" unfolding touched_def
    by (rule exI [of _ "unat e div 64 ^ w - (if w = 0 then 0 else 1)"]) (use assms(1) le in \<open>auto simp: place_def\<close>)
  then show False using assms(3) by contradiction
qed

end
