(* ===== verification/WheelSafe.thy ===== *)
theory WheelSafe
  imports WheelBits
begin

text \<open>
  The invariant of the timing wheel, kept by every operation, and the abstract timer it refines:
  a map of waiting timeouts to their expiry times and a set of due ones.
\<close>

section \<open>Invariant\<close>

text \<open>The links of the lists and of the timeouts agree, up to the timeouts in \<open>D\<close>, which have been
  taken off their lists, and the bitmaps say which slots are occupied.\<close>

definition linked :: "nat set \<Rightarrow> timeouts \<Rightarrow> bool" where
  "linked D T \<longleftrightarrow> (\<forall>l. distinct (queue T l)) \<and>
     (\<forall>t l. t \<in> set (queue T l) \<longleftrightarrow> to_pending (tos T t) = Some l \<and> t \<notin> D) \<and>
     (\<forall>w s. queue T (Slot w s) \<noteq> [] \<longleftrightarrow> w < 4 \<and> bit (wpending T w) s)"

text \<open>Every waiting timeout is in a slot where it belongs, every due one has expired.\<close>

definition placed :: "nat set \<Rightarrow> timeouts \<Rightarrow> bool" where
  "placed D T \<longleftrightarrow> (\<forall>t w s. to_pending (tos T t) = Some (Slot w s) \<longrightarrow> t \<notin> D \<longrightarrow> place w s (to_expires (tos T t)) (curtime T)) \<and>
     (\<forall>t. to_pending (tos T t) = Some Expired_queue \<longrightarrow> t \<notin> D \<longrightarrow> to_expires (tos T t) \<le> curtime T)"

definition wheel_inv :: "timeouts \<Rightarrow> bool" where
  "wheel_inv T \<longleftrightarrow> linked {} T \<and> placed {} T"

lemma bit_set64: "s < 64 \<Longrightarrow> bit (v OR push_bit s 1 :: u64) i \<longleftrightarrow> bit v i \<or> i = s"
  by (auto simp: bit_or_iff bit_single)

lemma bit_clear64: "bit (v AND NOT (push_bit s 1) :: u64) i \<longleftrightarrow> bit v i \<and> i \<noteq> s"
  using bit_bound [of v i] by (auto simp: bit_and_iff bit_not_iff bit_single)

lemma linked_slot:
  assumes "linked D T" "queue T (Slot w s) \<noteq> []"
  shows "w < 4" "s < 64"
  using assms bit_bound unfolding linked_def by blast+

section \<open>Removing and inserting\<close>

text \<open>Taking a timeout off its list.\<close>

lemma timeouts_del_inv:
  assumes l: "linked D T" and p: "placed D T" and t: "t \<notin> D"
  shows "linked D (timeouts_del t T)" "placed D (timeouts_del t T)" "to_pending (tos (timeouts_del t T) t) = None"
    "curtime (timeouts_del t T) = curtime T" "\<And>u. u \<noteq> t \<Longrightarrow> tos (timeouts_del t T) u = tos T u"
    "to_expires (tos (timeouts_del t T) t) = to_expires (tos T t)"
    "to_flags (tos (timeouts_del t T) t) = to_flags (tos T t)" "to_interval (tos (timeouts_del t T) t) = to_interval (tos T t)"
proof -
  let ?T = "timeouts_del t T"
  show pend: "to_pending (tos ?T t) = None" and cur: "curtime ?T = curtime T"
    and oth: "\<And>u. u \<noteq> t \<Longrightarrow> tos ?T u = tos T u" and "to_expires (tos ?T t) = to_expires (tos T t)"
    and "to_flags (tos ?T t) = to_flags (tos T t)" "to_interval (tos ?T t) = to_interval (tos T t)"
    by (auto simp: timeouts_del_def upd_to_def Let_def split: option.splits loc.splits)
  have pd: "to_pending (tos ?T u) = (if u = t then None else to_pending (tos T u))" for u using pend oth by simp
  show "placed D ?T" using p pd oth cur unfolding placed_def by (metis option.distinct(1))
  show "linked D ?T"
  proof (cases "to_pending (tos T t)")
    case None
    then show ?thesis using l by (simp add: timeouts_del_def)
  next
    case (Some m)
    have q: "queue ?T k = (if k = m then remove1 t (queue T m) else queue T k)" for k
      using Some by (auto simp: timeouts_del_def upd_to_def Let_def split: loc.splits)
    have b: "bit (wpending ?T w) s \<longleftrightarrow> bit (wpending T w) s \<and> \<not> (m = Slot w s \<and> remove1 t (queue T m) = [])" for w s
      using Some by (cases m) (auto simp: timeouts_del_def upd_to_def Let_def bit_clear64 simp del: push_bit_of_1)
    have d: "distinct (queue T k)" and iff: "u \<in> set (queue T k) \<longleftrightarrow> to_pending (tos T u) = Some k \<and> u \<notin> D"
      and occ: "queue T (Slot w s) \<noteq> [] \<longleftrightarrow> w < 4 \<and> bit (wpending T w) s" for k u w s
      using l unfolding linked_def by blast+
    have "distinct (queue ?T k)" for k using d q by (simp add: distinct_remove1)
    moreover have "u \<in> set (queue ?T k) \<longleftrightarrow> to_pending (tos ?T u) = Some k \<and> u \<notin> D" for u k
      using iff d Some unfolding q pd by auto
    moreover have "queue ?T (Slot w s) \<noteq> [] \<longleftrightarrow> w < 4 \<and> bit (wpending ?T w) s" for w s
    proof (cases "m = Slot w s")
      case True
      have "t \<in> set (queue T m)" using iff Some t by simp
      then have "queue T (Slot w s) \<noteq> []" using True by auto
      then have "w < 4 \<and> bit (wpending T w) s" using occ by blast
      then show ?thesis using True b q by simp
    qed (use occ b q in auto)
    ultimately show ?thesis unfolding linked_def by blast
  qed
qed

text \<open>Entering a timeout that is on no list.\<close>

lemma insert_inv:
  assumes l: "linked D T" and p: "placed D T" and t: "t \<notin> D" "to_pending (tos T t) = None"
    and ok: "case m of Expired_queue \<Rightarrow> e \<le> curtime T | Slot w s \<Rightarrow> place w s e (curtime T)"
    and T': "curtime T' = curtime T" "queue T' = (queue T)(m := queue T m @ [t])"
      "wpending T' = (case m of Expired_queue \<Rightarrow> wpending T | Slot w s \<Rightarrow> (wpending T)(w := wpending T w OR push_bit s 1))"
      "\<And>u. u \<noteq> t \<Longrightarrow> tos T' u = tos T u" "to_pending (tos T' t) = Some m" "to_expires (tos T' t) = e"
  shows "linked D T' \<and> placed D T'"
proof
  have pd: "to_pending (tos T' u) = (if u = t then Some m else to_pending (tos T u))" for u using T'(4,5) by simp
  have ex: "to_expires (tos T' u) = (if u = t then e else to_expires (tos T u))" for u using T'(4,6) by simp
  show "placed D T'" using p ok unfolding placed_def pd ex T'(1) by (auto split: if_splits)
  have d: "distinct (queue T k)" and iff: "u \<in> set (queue T k) \<longleftrightarrow> to_pending (tos T u) = Some k \<and> u \<notin> D"
    and occ: "queue T (Slot w s) \<noteq> [] \<longleftrightarrow> w < 4 \<and> bit (wpending T w) s" for k u w s
    using l unfolding linked_def by blast+
  have "distinct (queue T' k)" for k using d iff t(2) by (simp add: T'(2))
  moreover have "u \<in> set (queue T' k) \<longleftrightarrow> to_pending (tos T' u) = Some k \<and> u \<notin> D" for u k
    using iff t unfolding T'(2) pd by auto
  moreover have "queue T' (Slot w s) \<noteq> [] \<longleftrightarrow> w < 4 \<and> bit (wpending T' w) s" for w s
  proof (cases m)
    case Expired_queue
    then show ?thesis using occ by (simp add: T'(2,3))
  next
    case (Slot w' s')
    have pl: "place w' s' e (curtime T)" using ok Slot by simp
    have "s' < 64" by (rule place_slot [OF pl])
    have "w' < 4" using pl by (simp add: place_def)
    have "bit (wpending T' w) s \<longleftrightarrow> bit (wpending T w) s \<or> (w = w' \<and> s = s')"
      unfolding T'(3) Slot loc.case fun_upd_apply using bit_set64 [OF \<open>s' < 64\<close>, of "wpending T w'" s] by presburger
    moreover have "queue T' (Slot w s) \<noteq> [] \<longleftrightarrow> queue T (Slot w s) \<noteq> [] \<or> (w = w' \<and> s = s')"
      by (cases "w = w' \<and> s = s'") (auto simp: T'(2) Slot)
    ultimately show ?thesis using occ [of w s] \<open>w' < 4\<close> by blast
  qed
  ultimately show "linked D T'" unfolding linked_def by blast
qed

lemma timeouts_sched_inv:
  assumes l: "linked D T" and p: "placed D T" and t: "t \<notin> D"
  shows "linked D (timeouts_sched t e T)" "placed D (timeouts_sched t e T)" "curtime (timeouts_sched t e T) = curtime T"
    "\<And>u. u \<noteq> t \<Longrightarrow> tos (timeouts_sched t e T) u = tos T u" "to_expires (tos (timeouts_sched t e T) t) = e"
    "to_pending (tos (timeouts_sched t e T) t) = Some Expired_queue \<longleftrightarrow> e \<le> curtime T"
    "to_pending (tos (timeouts_sched t e T) t) \<noteq> None"
    "to_flags (tos (timeouts_sched t e T) t) = to_flags (tos T t)" "to_interval (tos (timeouts_sched t e T) t) = to_interval (tos T t)"
proof -
  note del = timeouts_del_inv [OF l p t]
  let ?T1 = "upd_to t (\<lambda>x. x\<lparr>to_expires := e, to_owned := True\<rparr>) (timeouts_del t T)" and ?T = "timeouts_sched t e T"
  define m where "m = (if e > curtime T then Slot (timeout_wheel (e - curtime T)) (timeout_slot (timeout_wheel (e - curtime T)) e) else Expired_queue)"
  have T1: "linked D ?T1" "to_pending (tos ?T1 t) = None"
    using del(1,3) by (auto simp: linked_def upd_to_def)
  have p1: "placed D ?T1" using del(2,3) by (auto simp: placed_def upd_to_def)
  have c1: "curtime ?T1 = curtime T" using del(4) by (simp add: upd_to_def)
  have f: "curtime ?T = curtime ?T1" "queue ?T = (queue ?T1)(m := queue ?T1 m @ [t])"
      "wpending ?T = (case m of Expired_queue \<Rightarrow> wpending ?T1 | Slot w s \<Rightarrow> (wpending ?T1)(w := wpending ?T1 w OR push_bit s 1))"
      "to_pending (tos ?T t) = Some m" "to_expires (tos ?T t) = e"
      "to_flags (tos ?T t) = to_flags (tos T t)" "to_interval (tos ?T t) = to_interval (tos T t)"
    using del(4,7,8) by (simp_all add: timeouts_sched_def Let_def m_def upd_to_def timeout_rem_def fun_eq_iff)
  have o1: "tos ?T u = tos ?T1 u" "tos ?T1 u = tos T u" if "u \<noteq> t" for u
    using that del(5) by (simp_all add: timeouts_sched_def Let_def upd_to_def)
  have ok: "case m of Expired_queue \<Rightarrow> e \<le> curtime ?T1 | Slot w s \<Rightarrow> place w s e (curtime ?T1)"
    using timeout_place [of "curtime T" e] by (auto simp: m_def c1 not_less)
  show "linked D ?T" "placed D ?T"
    using insert_inv [OF T1(1) p1 t T1(2) ok f(1-3) o1(1) f(4,5)] by simp_all
  show "curtime ?T = curtime T" using f(1) c1 by simp
  show "\<And>u. u \<noteq> t \<Longrightarrow> tos ?T u = tos T u" using o1 by simp
  show "to_expires (tos ?T t) = e" by (rule f(5))
  show "to_pending (tos ?T t) = Some Expired_queue \<longleftrightarrow> e \<le> curtime T" using f(4) by (auto simp: m_def)
  show "to_pending (tos ?T t) \<noteq> None" using f(4) by simp
  show "to_flags (tos ?T t) = to_flags (tos T t)" "to_interval (tos ?T t) = to_interval (tos T t)" by (rule f)+
qed

section \<open>Update\<close>

text \<open>What holds between the rounds of the loops: \<open>todo\<close> is off the lists, the rest is as it was.\<close>

definition moving :: "timeouts \<Rightarrow> nat list \<Rightarrow> timeouts \<Rightarrow> bool" where
  "moving T0 todo T \<longleftrightarrow> linked (set todo) T \<and> distinct todo \<and> tos T = tos T0 \<and> curtime T = curtime T0 \<and>
     (\<forall>t \<in> set todo. \<exists>w s. to_pending (tos T0 t) = Some (Slot w s)) \<and>
     (\<forall>l. queue T l = [] \<or> queue T l = queue T0 l) \<and> queue T Expired_queue = queue T0 Expired_queue"

lemma moving_slot:
  assumes m: "moving T0 todo T"
  shows "moving T0 (todo @ queue T (Slot w s))
    (T\<lparr>queue := (queue T)(Slot w s := []), wpending := (wpending T)(w := wpending T w AND NOT (push_bit s 1))\<rparr>)"
    (is "moving T0 ?todo ?T")
proof -
  have d: "distinct (queue T k)" and iff: "u \<in> set (queue T k) \<longleftrightarrow> to_pending (tos T u) = Some k \<and> u \<notin> set todo"
    and occ: "queue T (Slot v r) \<noteq> [] \<longleftrightarrow> v < 4 \<and> bit (wpending T v) r" for k u v r
    using m unfolding moving_def linked_def by blast+
  have "distinct ?todo" using m d iff by (auto simp: moving_def)
  moreover have "linked (set ?todo) ?T"
  proof -
    have "u \<in> set (queue ?T k) \<longleftrightarrow> to_pending (tos ?T u) = Some k \<and> u \<notin> set ?todo" for u k
      using iff [of u k] iff [of u "Slot w s"] by auto
    moreover have "queue ?T (Slot v r) \<noteq> [] \<longleftrightarrow> v < 4 \<and> bit (wpending ?T v) r" for v r
      using occ [of v r] bit_clear64 [of "wpending T w" s r] by (simp del: push_bit_of_1) blast
    ultimately show ?thesis using d unfolding linked_def by simp
  qed
  moreover have "\<forall>t \<in> set ?todo. \<exists>w s. to_pending (tos T0 t) = Some (Slot w s)"
    using m iff [of _ "Slot w s"] by (auto simp: moving_def)
  ultimately show ?thesis using m by (simp add: moving_def)
qed

lemma collect_moving:
  assumes "moving T0 todo T" "w < 4" "collect p w todo T = (todo', T')"
  shows "moving T0 todo' T' \<and> (\<forall>l. queue T l = [] \<longrightarrow> queue T' l = []) \<and> (\<forall>s. bit p s \<longrightarrow> queue T' (Slot w s) = [])"
  using assms
proof (induction p w todo T rule: collect.induct)
  case (1 p w todo T)
  show ?case
  proof (cases "p AND wpending T w = 0")
    case True
    have "\<not> bit (wpending T w) s" if "bit p s" for s
      using arg_cong [OF True, of "\<lambda>v. bit v s"] that by (simp add: bit_and_iff)
    then have "queue T (Slot w s) = []" if "bit p s" for s
      using "1.prems"(1) that unfolding moving_def linked_def by blast
    then show ?thesis using "1.prems" True by (auto simp: collect.simps [of p w todo T])
  next
    case False
    let ?s = "ctz (p AND wpending T w)"
    let ?T = "T\<lparr>queue := (queue T)(Slot w ?s := []), wpending := (wpending T)(w := wpending T w AND NOT (push_bit ?s 1))\<rparr>"
    have c: "collect p w (todo @ queue T (Slot w ?s)) ?T = (todo', T')"
      using "1.prems"(3) False unfolding collect.simps [of p w todo T] Let_def by (simp only: if_False)
    note IH = "1.IH" [OF False refl moving_slot [OF "1.prems"(1)] "1.prems"(2) c]
    then show ?thesis by (auto split: if_splits)
  qed
qed

lemma no_pass_mono: "unat c div 64 ^ v \<ge> unat n div 64 ^ v \<Longrightarrow> v \<le> v' \<Longrightarrow> unat c div 64 ^ v' \<ge> unat n div 64 ^ v'"
  for c n :: u64
proof -
  assume a: "unat c div 64 ^ v \<ge> unat n div 64 ^ v" and "v \<le> v'"
  then obtain k where k: "v' = v + k" using le_Suc_ex by blast
  have "unat x div 64 ^ v' = unat x div 64 ^ v div 64 ^ k" for x :: u64 by (simp add: k power_add div_mult2_eq)
  then show ?thesis using a by (simp add: div_le_mono)
qed

lemma wheel_len_shift: "w < 4 \<Longrightarrow> unat (push_bit (w * WHEEL_BIT) WHEEL_LEN) = 64 ^ Suc w"
proof -
  assume "w < 4"
  then consider "w = 0" | "w = 1" | "w = 2" | "w = 3" by linarith
  then show ?thesis by cases (simp_all add: WHEEL_BIT_def WHEEL_LEN_def)
qed

text \<open>The wheels from \<open>w\<close> on are emptied wherever time has passed.\<close>

lemma update_wheels_moving:
  assumes "moving T0 todo T" "update_wheels w el old now todo T = (todo', T')" "old \<le> now" "unat now - unat old \<le> unat el"
    "w = 0 \<or> 64 ^ w \<le> unat el"
  shows "moving T0 todo' T' \<and> (\<forall>l. queue T l = [] \<longrightarrow> queue T' l = []) \<and>
    (\<forall>v s. w \<le> v \<longrightarrow> v < 4 \<longrightarrow> touched v s old now \<longrightarrow> queue T' (Slot v s) = [])"
  using assms
proof (induction w el old now todo T rule: update_wheels.induct)
  case (1 w el old now todo T)
  show ?case
  proof (cases "w < 4")
    case False
    then show ?thesis using "1.prems" by (auto simp: update_wheels.simps [of w] WHEEL_NUM_def)
  next
    case True
    let ?p = "update_slots w el old now"
    obtain todo1 T1 where c: "collect ?p w todo T = (todo1, T1)" by (cases "collect ?p w todo T")
    note C = collect_moving [OF "1.prems"(1) True c]
    have cover: "queue T1 (Slot w s) = []" if t: "touched w s old now" for s
    proof -
      obtain b where b: "s = b mod 64" "b \<le> unat now div 64 ^ w" "unat old div 64 ^ w \<le> b" "w = 0 \<longrightarrow> unat old div 64 ^ w < b"
        using t unfolding touched_def by (cases "w = 0") (auto intro: less_imp_le)
      have "bit ?p s" unfolding b(1)
        by (rule slots_cover [OF "1.prems"(3,4) b(3,2)]) (use b(4) "1.prems"(5) in auto)
      then show ?thesis using C by blast
    qed
    show ?thesis
    proof (cases "bit ?p 0")
      case False
      then have r: "(todo', T') = (todo1, T1)"
        using "1.prems"(2) True c by (simp add: update_wheels.simps [of w] WHEEL_NUM_def)
      have "\<not> touched v s old now" if "w < v" for v s
      proof -
        have "unat now div 64 ^ Suc w \<le> unat old div 64 ^ Suc w"
          using slot0_reached [OF "1.prems"(3,4)] False by (meson not_less)
        then have "unat now div 64 ^ v \<le> unat old div 64 ^ v" using no_pass_mono that by (meson Suc_leI)
        then show ?thesis using that by (auto simp: touched_def)
      qed
      then show ?thesis using C cover r by (metis Pair_inject le_neq_implies_less)
    next
      case b0: True
      let ?el = "max el (push_bit (w * WHEEL_BIT) WHEEL_LEN)"
      have len: "unat (push_bit (w * WHEEL_BIT) WHEEL_LEN) = 64 ^ Suc w" by (rule wheel_len_shift [OF True])
      have el: "unat ?el = max (unat el) (64 ^ Suc w)" using len by (simp add: max_def word_le_nat_alt)
      have u: "update_wheels (w + 1) ?el old now todo1 T1 = (todo', T')"
        using "1.prems"(2) True c b0 by (simp add: update_wheels.simps [of w] WHEEL_NUM_def)
      have "moving T0 todo' T' \<and> (\<forall>l. queue T1 l = [] \<longrightarrow> queue T' l = []) \<and>
          (\<forall>v s. w + 1 \<le> v \<longrightarrow> v < 4 \<longrightarrow> touched v s old now \<longrightarrow> queue T' (Slot v s) = [])"
        by (rule "1.IH" [of ?p]) (use True c b0 C u "1.prems"(3,4) el in \<open>auto simp: WHEEL_NUM_def max_def\<close>)
      note R = this
      have "queue T' (Slot v s) = []" if "w \<le> v" "v < 4" "touched v s old now" for v s
      proof (cases "w = v")
        case True
        then show ?thesis using cover R that(3) by blast
      next
        case False
        then show ?thesis using R that by simp
      qed
      then show ?thesis using R C by blast
    qed
  qed
qed

text \<open>Putting the timeouts that were taken off back, at the new time.\<close>

lemma resched_inv:
  assumes l: "linked (set (t # ts)) T" and p: "placed (set (t # ts)) T" and d: "distinct (t # ts)"
  shows "linked (set ts) (resched t T)" "placed (set ts) (resched t T)" "curtime (resched t T) = curtime T"
    "\<And>u. u \<noteq> t \<Longrightarrow> tos (resched t T) u = tos T u" "to_expires (tos (resched t T) t) = to_expires (tos T t)"
    "to_pending (tos (resched t T) t) = Some Expired_queue \<longleftrightarrow> to_expires (tos T t) \<le> curtime T"
    "to_pending (tos (resched t T) t) \<noteq> None"
proof -
  let ?T = "upd_to t (\<lambda>x. x\<lparr>to_pending := None\<rparr>) T"
  have e: "to_expires (tos ?T t) = to_expires (tos T t)" "curtime ?T = curtime T" "\<And>u. u \<noteq> t \<Longrightarrow> tos ?T u = tos T u"
    by (simp_all add: upd_to_def)
  have "linked (set ts) ?T" using l by (auto simp: linked_def upd_to_def)
  moreover have "placed (set ts) ?T" using p by (auto simp: placed_def upd_to_def)
  moreover have "t \<notin> set ts" using d by simp
  note S = timeouts_sched_inv [OF calculation this, where e = "to_expires (tos T t)"]
  have r: "resched t T = timeouts_sched t (to_expires (tos T t)) ?T" by (simp add: resched_def Let_def upd_to_def)
  show "linked (set ts) (resched t T)" "placed (set ts) (resched t T)" "curtime (resched t T) = curtime T"
    "\<And>u. u \<noteq> t \<Longrightarrow> tos (resched t T) u = tos T u" "to_expires (tos (resched t T) t) = to_expires (tos T t)"
    "to_pending (tos (resched t T) t) = Some Expired_queue \<longleftrightarrow> to_expires (tos T t) \<le> curtime T"
    "to_pending (tos (resched t T) t) \<noteq> None"
    using S e by (simp_all add: r)
qed

lemma resched_all:
  assumes "linked (set ts) T" "placed (set ts) T" "distinct ts"
  shows "linked {} (fold resched ts T) \<and> placed {} (fold resched ts T) \<and> curtime (fold resched ts T) = curtime T \<and>
    (\<forall>u. u \<notin> set ts \<longrightarrow> tos (fold resched ts T) u = tos T u) \<and>
    (\<forall>u \<in> set ts. to_expires (tos (fold resched ts T) u) = to_expires (tos T u) \<and> to_pending (tos (fold resched ts T) u) \<noteq> None \<and>
       (to_pending (tos (fold resched ts T) u) = Some Expired_queue \<longleftrightarrow> to_expires (tos T u) \<le> curtime T))"
  using assms
proof (induction ts arbitrary: T)
  case Nil
  then show ?case by simp
next
  case (Cons t ts)
  note R = resched_inv [OF Cons.prems]
  note IH = Cons.IH [OF R(1,2)]
  have t: "t \<notin> set ts" "distinct ts" using Cons.prems(3) by simp_all
  have u: "u \<noteq> t" if "u \<in> set ts" for u using t(1) that by auto
  show ?case using IH [OF t(2)] R(3-7) t(1) u by (simp add: R(3))
qed

text \<open>The result of an update: nobody is lost, and exactly those whose time has come are due.\<close>

lemma timeouts_update_inv:
  assumes i: "wheel_inv T" and n: "curtime T \<le> now"
  shows "wheel_inv (timeouts_update now T)" "curtime (timeouts_update now T) = now"
    "\<And>t. to_expires (tos (timeouts_update now T) t) = to_expires (tos T t)"
    "\<And>t. to_pending (tos (timeouts_update now T) t) = None \<longleftrightarrow> to_pending (tos T t) = None"
    "\<And>t. to_pending (tos (timeouts_update now T) t) = Some Expired_queue \<longleftrightarrow>
       to_pending (tos T t) \<noteq> None \<and> to_expires (tos T t) \<le> now"
proof -
  have l: "linked {} T" and p: "placed {} T" using i by (simp_all add: wheel_inv_def)
  obtain todo T1 where u: "update_wheels 0 (now - curtime T) (curtime T) now [] T = (todo, T1)"
    by (cases "update_wheels 0 (now - curtime T) (curtime T) now [] T")
  have "moving T [] T" using l by (simp add: moving_def)
  moreover have "unat now - unat (curtime T) \<le> unat (now - curtime T)" using n by (simp add: unat_sub)
  ultimately have m: "moving T todo T1" and e: "\<And>v s. v < 4 \<Longrightarrow> touched v s (curtime T) now \<Longrightarrow> queue T1 (Slot v s) = []"
    using update_wheels_moving [OF _ u n] by auto
  let ?T = "T1\<lparr>curtime := now\<rparr>"
  have iff: "\<And>t l. t \<in> set (queue T1 l) \<longleftrightarrow> to_pending (tos T t) = Some l \<and> t \<notin> set todo" and tos: "tos T1 = tos T" and d: "distinct todo"
    and l1: "linked (set todo) ?T" and on: "\<And>t. t \<in> set todo \<Longrightarrow> to_pending (tos T t) \<noteq> None"
    using m by (auto simp: moving_def linked_def)
  have "place w s (to_expires (tos T t)) now" if t: "to_pending (tos T t) = Some (Slot w s)" "t \<notin> set todo" for t w s
  proof -
    have pl: "place w s (to_expires (tos T t)) (curtime T)" using p t(1) by (simp add: placed_def)
    have "queue T1 (Slot w s) \<noteq> []" using iff t by force
    then have "\<not> touched w s (curtime T) now" using e pl by (auto simp: place_def)
    then show ?thesis by (rule place_step [OF pl n])
  qed
  moreover have "to_expires (tos T t) \<le> now" if "to_pending (tos T t) = Some Expired_queue" for t
    using p that n by (auto simp: placed_def)
  ultimately have p1: "placed (set todo) ?T" by (simp add: placed_def tos)
  note R = resched_all [OF l1 p1 d]
  have up: "timeouts_update now T = fold resched todo ?T" by (simp add: timeouts_update_def u)
  show "wheel_inv (timeouts_update now T)" "curtime (timeouts_update now T) = now" using R by (simp_all add: up wheel_inv_def)
  show "to_expires (tos (timeouts_update now T) t) = to_expires (tos T t)" for t using R by (cases "t \<in> set todo") (simp_all add: up tos)
  show "to_pending (tos (timeouts_update now T) t) = None \<longleftrightarrow> to_pending (tos T t) = None" for t
    using R on [of t] by (cases "t \<in> set todo") (auto simp: up tos)
  show "to_pending (tos (timeouts_update now T) t) = Some Expired_queue \<longleftrightarrow> to_pending (tos T t) \<noteq> None \<and> to_expires (tos T t) \<le> now" for t
  proof (cases "t \<in> set todo")
    case True
    then show ?thesis using R on by (simp add: up tos)
  next
    case False
    have "tos (timeouts_update now T) t = tos T t" using R False by (simp add: up tos)
    moreover have "now < to_expires (tos T t)" if "to_pending (tos T t) = Some (Slot w s)" for w s
      by (rule place_later [of w s]) (use p1 that False in \<open>simp add: placed_def tos\<close>)
    moreover have "to_pending (tos T t) = Some Expired_queue \<Longrightarrow> to_expires (tos T t) \<le> now"
      using p n by (auto simp: placed_def)
    ultimately show ?thesis by (metis loc.exhaust not_None_eq not_le)
  qed
qed

section \<open>The abstract timer\<close>

record timer_spec =
  waiting :: "nat \<Rightarrow> u64 option"
  due :: "nat set"
  spec_now :: u64

definition timer_abs :: "timeouts \<Rightarrow> timer_spec" where
  "timer_abs T = \<lparr>waiting = (\<lambda>t. case to_pending (tos T t) of Some (Slot _ _) \<Rightarrow> Some (to_expires (tos T t)) | _ \<Rightarrow> None),
     due = {t. to_pending (tos T t) = Some Expired_queue}, spec_now = curtime T\<rparr>"

definition spec_del :: "nat \<Rightarrow> timer_spec \<Rightarrow> timer_spec" where
  "spec_del t S = S\<lparr>waiting := (waiting S)(t := None), due := due S - {t}\<rparr>"

definition spec_set :: "nat \<Rightarrow> u64 \<Rightarrow> timer_spec \<Rightarrow> timer_spec" where
  "spec_set t e S =
     (if e > spec_now S then S\<lparr>waiting := (waiting S)(t := Some e), due := due S - {t}\<rparr>
      else S\<lparr>waiting := (waiting S)(t := None), due := insert t (due S)\<rparr>)"

definition spec_update :: "u64 \<Rightarrow> timer_spec \<Rightarrow> timer_spec" where
  "spec_update now S =
     \<lparr>waiting = (\<lambda>t. case waiting S t of Some e \<Rightarrow> if e \<le> now then None else Some e | None \<Rightarrow> None),
      due = due S \<union> {t. \<exists>e. waiting S t = Some e \<and> e \<le> now}, spec_now = now\<rparr>"

lemma abs_eqI:
  assumes "\<And>t. to_pending (tos T t) = Some Expired_queue \<longleftrightarrow> t \<in> due S" "curtime T = spec_now S"
    "\<And>t. (case to_pending (tos T t) of Some (Slot _ _) \<Rightarrow> Some (to_expires (tos T t)) | _ \<Rightarrow> None) = waiting S t"
  shows "timer_abs T = S"
  using assms by (auto simp: timer_abs_def)

lemma abs_del:
  assumes "wheel_inv T"
  shows "timer_abs (timeouts_del t T) = spec_del t (timer_abs T)" "wheel_inv (timeouts_del t T)"
proof -
  have i: "linked {} T" "placed {} T" using assms by (simp_all add: wheel_inv_def)
  note D = timeouts_del_inv [OF i, where t = t]
  show "wheel_inv (timeouts_del t T)" using D by (simp add: wheel_inv_def)
  have e: "tos (timeouts_del t T) u = tos T u" if "u \<noteq> t" for u using D(5) that by simp
  show "timer_abs (timeouts_del t T) = spec_del t (timer_abs T)"
  proof (rule abs_eqI)
    show "to_pending (tos (timeouts_del t T) u) = Some Expired_queue \<longleftrightarrow> u \<in> due (spec_del t (timer_abs T))" for u
      using D(3) e [of u] by (cases "u = t") (simp_all add: spec_del_def timer_abs_def)
    show "curtime (timeouts_del t T) = spec_now (spec_del t (timer_abs T))" using D(4) by (simp add: spec_del_def timer_abs_def)
    show "(case to_pending (tos (timeouts_del t T) u) of Some (Slot _ _) \<Rightarrow> Some (to_expires (tos (timeouts_del t T) u)) | _ \<Rightarrow> None) =
        waiting (spec_del t (timer_abs T)) u" for u
      using D(3) e [of u] by (cases "u = t") (auto simp: spec_del_def timer_abs_def split: option.splits loc.splits)
  qed
qed

lemma abs_sched:
  assumes "wheel_inv T"
  shows "timer_abs (timeouts_sched t e T) = spec_set t e (timer_abs T)" "wheel_inv (timeouts_sched t e T)"
proof -
  have i: "linked {} T" "placed {} T" using assms by (simp_all add: wheel_inv_def)
  note D = timeouts_sched_inv [OF i, where t = t and e = e]
  show inv: "wheel_inv (timeouts_sched t e T)" using D by (simp add: wheel_inv_def)
  let ?T = "timeouts_sched t e T"
  have o': "tos ?T u = tos T u" if "u \<noteq> t" for u using D(4) that by simp
  have due: "to_pending (tos ?T t) = Some Expired_queue \<longleftrightarrow> \<not> curtime T < e" using D(6) by (simp add: not_less)
  obtain m where m: "to_pending (tos ?T t) = Some m" using D(7) by auto
  show "timer_abs ?T = spec_set t e (timer_abs T)"
  proof (rule abs_eqI)
    show "to_pending (tos ?T u) = Some Expired_queue \<longleftrightarrow> u \<in> timer_spec.due (spec_set t e (timer_abs T))" for u
      using due o' [of u] by (cases "u = t") (simp_all add: spec_set_def timer_abs_def)
    show "curtime ?T = spec_now (spec_set t e (timer_abs T))" using D(3) by (simp add: spec_set_def timer_abs_def)
    show "(case to_pending (tos ?T u) of Some (Slot _ _) \<Rightarrow> Some (to_expires (tos ?T u)) | _ \<Rightarrow> None) = waiting (spec_set t e (timer_abs T)) u" for u
      using due D(5) m o' [of u] by (cases "u = t"; cases m) (auto simp: spec_set_def timer_abs_def split: option.splits loc.splits)
  qed
qed

lemma abs_update:
  assumes "wheel_inv T" "curtime T \<le> now"
  shows "timer_abs (timeouts_update now T) = spec_update now (timer_abs T)"
proof (rule abs_eqI)
  note U = timeouts_update_inv [OF assms]
  have p: "placed {} T" using assms(1) by (simp add: wheel_inv_def)
  have ex: "to_expires (tos T t) \<le> now" if "to_pending (tos T t) = Some Expired_queue" for t
    using p that assms(2) by (auto simp: placed_def)
  show "to_pending (tos (timeouts_update now T) t) = Some Expired_queue \<longleftrightarrow> t \<in> due (spec_update now (timer_abs T))" for t
    using U(5) [of t] ex [of t] by (auto simp: spec_update_def timer_abs_def split: option.splits loc.splits)
  show "curtime (timeouts_update now T) = spec_now (spec_update now (timer_abs T))" using U(2) by (simp add: spec_update_def)
  show "(case to_pending (tos (timeouts_update now T) t) of Some (Slot _ _) \<Rightarrow> Some (to_expires (tos (timeouts_update now T) t)) | _ \<Rightarrow> None) =
      waiting (spec_update now (timer_abs T)) t" for t
    using U(3-5) [of t] ex [of t] by (auto simp: spec_update_def timer_abs_def split: option.splits loc.splits)
qed

text \<open>Changes of a field that plays no role on the lists.\<close>

lemma abs_field:
  assumes "wheel_inv T" "\<And>x. to_pending (f x) = to_pending x" "\<And>x. to_expires (f x) = to_expires x"
  shows "wheel_inv (upd_to t f T)" "timer_abs (upd_to t f T) = timer_abs T"
proof -
  have p: "to_pending (tos (upd_to t f T) u) = to_pending (tos T u)" "to_expires (tos (upd_to t f T) u) = to_expires (tos T u)" for u
    using assms(2,3) by (simp_all add: upd_to_def)
  have q: "queue (upd_to t f T) = queue T" "wpending (upd_to t f T) = wpending T" "curtime (upd_to t f T) = curtime T"
    by (simp_all add: upd_to_def)
  show "wheel_inv (upd_to t f T)" using assms(1) by (simp add: wheel_inv_def linked_def placed_def p q)
  show "timer_abs (upd_to t f T) = timer_abs T" unfolding timer_abs_def p q by (rule refl)
qed

text \<open>A timeout's absolute time: given, or relative to the wheel's time.\<close>

definition add_time :: "nat \<Rightarrow> u64 \<Rightarrow> timeouts \<Rightarrow> u64" where
  "add_time t v T = (if to_flags (tos T t) AND TIMEOUT_ABS \<noteq> 0 then v else curtime T + v)"

lemma abs_add:
  assumes "wheel_inv T"
  shows "timer_abs (timeouts_add t v T) = spec_set t (add_time t v T) (timer_abs T)" "wheel_inv (timeouts_add t v T)"
proof -
  let ?T1 = "if to_flags (tos T t) AND TIMEOUT_INT \<noteq> 0 then upd_to t (\<lambda>x. x\<lparr>to_interval := max 1 v\<rparr>) T else T"
  have T1: "wheel_inv ?T1" "timer_abs ?T1 = timer_abs T"
    using assms abs_field [OF assms, of "\<lambda>x. x\<lparr>to_interval := max 1 v\<rparr>" t] by simp_all
  have a: "timeouts_add t v T = timeouts_sched t (add_time t v T) ?T1"
    by (simp add: timeouts_add_def add_time_def Let_def upd_to_def)
  show "timer_abs (timeouts_add t v T) = spec_set t (add_time t v T) (timer_abs T)" "wheel_inv (timeouts_add t v T)"
    using abs_sched [OF T1(1), of t "add_time t v T"] T1(2) by (simp_all only: a)
qed

end
