(* ===== verification/WheelSpec.thy ===== *)
theory WheelSpec
  imports WheelSafe
begin

text \<open>
  The timing wheel as its users see it: it refines the abstract timer, and its own consistency
  check holds in every state its operations can reach.
\<close>

section \<open>Taking due timeouts\<close>

definition repeating :: "nat \<Rightarrow> timeouts \<Rightarrow> bool" where
  "repeating t T \<longleftrightarrow> to_flags (tos T t) AND TIMEOUT_INT \<noteq> 0 \<and> to_interval (tos T t) > 0"

definition next_time :: "nat \<Rightarrow> timeouts \<Rightarrow> u64" where
  "next_time t T =
     (let i = to_interval (tos T t); e = to_expires (tos T t) + i
      in if e \<le> curtime T then curtime T + (i - (curtime T - e) mod i) else e)"

lemma abs_unlinked:
  assumes "wheel_inv T" "to_pending (tos T t) = None" "\<And>x. to_pending (f x) = to_pending x"
  shows "wheel_inv (upd_to t f T)" "timer_abs (upd_to t f T) = timer_abs T"
proof -
  have p: "to_pending (tos (upd_to t f T) u) = to_pending (tos T u)" "u \<noteq> t \<Longrightarrow> tos (upd_to t f T) u = tos T u" for u
    using assms(3) by (simp_all add: upd_to_def)
  have q: "queue (upd_to t f T) = queue T" "wpending (upd_to t f T) = wpending T" "curtime (upd_to t f T) = curtime T"
    by (simp_all add: upd_to_def)
  have e: "to_expires (tos (upd_to t f T) u) = to_expires (tos T u)" if "to_pending (tos T u) = Some l" for u l
    using that assms(2) p(2) [of u] by fastforce
  have "linked {} (upd_to t f T)" using assms(1) by (simp add: wheel_inv_def linked_def p(1) q)
  moreover have "placed {} (upd_to t f T)" using assms(1) e by (simp add: wheel_inv_def placed_def p(1) q)
  ultimately show "wheel_inv (upd_to t f T)" by (simp add: wheel_inv_def)
  show "timer_abs (upd_to t f T) = timer_abs T"
    by (rule abs_eqI) (use e in \<open>auto simp: timer_abs_def p(1) q split: option.splits loc.splits\<close>)
qed

lemma timeouts_get_eq:
  assumes "wheel_inv T" "queue T Expired_queue = t # ts"
  shows "timeouts_get T = (Some t, if repeating t T then timeouts_readd t (timeouts_del t T) else timeouts_del t T)"
    "to_pending (tos T t) = Some Expired_queue"
proof -
  have iff: "t \<in> set (queue T Expired_queue) \<longleftrightarrow> to_pending (tos T t) = Some Expired_queue"
    using assms(1) unfolding wheel_inv_def linked_def by blast
  then show p: "to_pending (tos T t) = Some Expired_queue" using assms(2) by simp
  show "timeouts_get T = (Some t, if repeating t T then timeouts_readd t (timeouts_del t T) else timeouts_del t T)"
    using assms(2) p by (simp add: timeouts_get_def timeouts_del_def Let_def repeating_def upd_to_def)
qed

lemma abs_readd:
  assumes "wheel_inv T" "to_pending (tos T t) = None"
  shows "timer_abs (timeouts_readd t T) = spec_set t (next_time t T) (timer_abs T)" "wheel_inv (timeouts_readd t T)"
proof -
  let ?T = "upd_to t (\<lambda>x. x\<lparr>to_expires := next_time t T\<rparr>) T"
  have u: "wheel_inv ?T" "timer_abs ?T = timer_abs T" using abs_unlinked [OF assms] by simp_all
  have "timeouts_readd t T = timeouts_sched t (next_time t T) ?T" by (simp add: timeouts_readd_def next_time_def Let_def)
  then show "timer_abs (timeouts_readd t T) = spec_set t (next_time t T) (timer_abs T)" "wheel_inv (timeouts_readd t T)"
    using abs_sched [OF u(1)] u(2) by simp_all
qed

lemma abs_get:
  assumes i: "wheel_inv T"
  shows "case timeouts_get T of
      (None, T') \<Rightarrow> due (timer_abs T) = {} \<and> T' = T
    | (Some t, T') \<Rightarrow> t \<in> due (timer_abs T) \<and>
        timer_abs T' = (if repeating t T then spec_set t (next_time t T) (timer_abs T) else spec_del t (timer_abs T))"
    (is ?A) and "wheel_inv (snd (timeouts_get T))" (is ?B)
proof -
  have both: "?A \<and> ?B"
  proof (cases "queue T Expired_queue")
    case Nil
    have "\<And>t. t \<in> set (queue T Expired_queue) \<longleftrightarrow> to_pending (tos T t) = Some Expired_queue"
      using i unfolding wheel_inv_def linked_def by blast
    then show ?thesis using Nil i by (simp add: timeouts_get_def timer_abs_def)
  next
    case (Cons t ts)
    note g = timeouts_get_eq [OF i Cons] and d = abs_del [OF i, of t]
    have l: "linked {} T" "placed {} T" using i by (simp_all add: wheel_inv_def)
    note D = timeouts_del_inv [OF l, where t = t]
    have n: "next_time t (timeouts_del t T) = next_time t T" using D(4,6,8) by (simp add: next_time_def Let_def)
    have "spec_set t e (spec_del t S) = spec_set t e S" for e S by (auto simp: spec_set_def spec_del_def)
    then have r: "timer_abs (timeouts_readd t (timeouts_del t T)) = spec_set t (next_time t T) (timer_abs T)" "wheel_inv (timeouts_readd t (timeouts_del t T))"
      using abs_readd [OF d(2)] D(3) d(1) n by simp_all
    have "t \<in> due (timer_abs T)" using g(2) by (simp add: timer_abs_def)
    then show ?thesis using g(1) r d by simp
  qed
  show ?A by (rule conjunct1 [OF both])
  show ?B by (rule conjunct2 [OF both])
qed

section \<open>Reachable wheels\<close>

text \<open>The operations, with a clock that does not go back; a timeout is initialised only when it is on
  no list.\<close>

inductive wheel_step :: "timeouts \<Rightarrow> timeouts \<Rightarrow> bool" where
  wadd: "wheel_step T (timeouts_add t v T)"
| wdel: "wheel_step T (timeouts_del t T)"
| wupdate: "curtime T \<le> now \<Longrightarrow> wheel_step T (timeouts_update now T)"
| wget: "wheel_step T (snd (timeouts_get T))"
| winit: "to_pending (tos T t) = None \<Longrightarrow> wheel_step T (upd_to t (\<lambda>_. (timeout_init flags)\<lparr>to_callback := c\<rparr>) T)"

definition wheel_start :: "timeouts \<Rightarrow> bool" where
  "wheel_start T \<longleftrightarrow> (\<exists>heap hz. (\<forall>t. to_pending (heap t) = None) \<and> T = timeouts_init heap hz)"

lemma wheel_inv_init_timeout:
  assumes "wheel_inv T" "to_pending (tos T t) = None" "to_pending x = None"
  shows "wheel_inv (upd_to t (\<lambda>_. x) T)"
proof -
  have p: "to_pending (tos (upd_to t (\<lambda>_. x) T) u) = to_pending (tos T u)" for u using assms(2,3) by (simp add: upd_to_def)
  have q: "queue (upd_to t (\<lambda>_. x) T) = queue T" "wpending (upd_to t (\<lambda>_. x) T) = wpending T" "curtime (upd_to t (\<lambda>_. x) T) = curtime T"
    by (simp_all add: upd_to_def)
  have e: "to_expires (tos (upd_to t (\<lambda>_. x) T) u) = to_expires (tos T u)" if "to_pending (tos T u) = Some l" for u l
    using that assms(2) by (cases "u = t") (simp_all add: upd_to_def)
  show ?thesis using assms(1) e by (simp add: wheel_inv_def linked_def placed_def p q)
qed

interpretation wheels: invariant_system wheel_start wheel_step wheel_inv
proof
  show "wheel_inv T" if "wheel_start T" for T
    using that by (auto simp: wheel_start_def timeouts_init_def wheel_inv_def linked_def placed_def)
  show "wheel_inv T'" if "wheel_step T T'" "wheel_inv T" for T T'
    using that by induction
      (auto intro: abs_add(2) abs_del(2) timeouts_update_inv(1) abs_get(2) wheel_inv_init_timeout simp: timeout_init_def)
qed

text \<open>C4. The timing wheel refines the abstract timer in every state it can reach: adding, deleting,
  updating and taking do to the set of waiting timeouts and of due ones what the specification
  says. In particular an update makes exactly the timeouts due whose expiry is not later than the
  new time: none is missed and none fires early, whatever wheel it was on.\<close>

theorem wheel_refines_timer:
  assumes "wheel_start T0" "wheel_step\<^sup>*\<^sup>* T0 T"
  shows "timer_abs (timeouts_add t v T) = spec_set t (add_time t v T) (timer_abs T) \<and>
    timer_abs (timeouts_del t T) = spec_del t (timer_abs T) \<and>
    (curtime T \<le> now \<longrightarrow> timer_abs (timeouts_update now T) = spec_update now (timer_abs T)) \<and>
    (case timeouts_get T of
       (None, T') \<Rightarrow> due (timer_abs T) = {} \<and> T' = T
     | (Some u, T') \<Rightarrow> u \<in> due (timer_abs T) \<and>
         timer_abs T' = (if repeating u T then spec_set u (next_time u T) (timer_abs T) else spec_del u (timer_abs T)))"
proof -
  have i: "wheel_inv T" by (rule wheels.reachable_inv [OF assms])
  show ?thesis using abs_add(1) [OF i] abs_del(1) [OF i] abs_update [OF i] abs_get(1) [OF i] by blast
qed

text \<open>A wheel with one timeout, due in 5000 units, on the third wheel.\<close>

definition wheel0 :: timeouts where
  "wheel0 = timeouts_init (\<lambda>t. timeout_init TIMEOUT_ABS) 0"

definition wheel1 :: timeouts where
  "wheel1 = timeouts_add 7 5000 wheel0"

lemma wheel1_reach: "wheel_start wheel0" "wheel_step\<^sup>*\<^sup>* wheel0 wheel1"
proof -
  show "wheel_start wheel0" 
    unfolding wheel_start_def wheel0_def by (intro exI conjI) (auto simp: timeout_init_def)
  show "wheel_step\<^sup>*\<^sup>* wheel0 wheel1" unfolding wheel1_def by (rule r_into_rtranclp) (rule wheel_step.wadd)
qed

theorem wheel_refines_timer_witness:
  "to_pending (tos wheel1 7) = Some (Slot 2 0) \<and> waiting (timer_abs (timeouts_update 4999 wheel1)) 7 = Some 5000 \<and>
   due (timer_abs (timeouts_update 5000 wheel1)) = {7}"
proof -
  have s: "to_pending (tos wheel1 7) = Some (Slot 2 0)" by code_simp
  have o': "to_pending (tos wheel1 t) = None" if "t \<noteq> 7" for t
    using that by (simp add: wheel1_def wheel0_def timeouts_add_def timeouts_sched_def timeouts_del_def timeouts_init_def
        timeout_init_def upd_to_def Let_def)
  have e: "to_expires (tos wheel1 7) = 5000" "curtime wheel1 = 0" by code_simp+
  have a: "timer_abs wheel1 = \<lparr>waiting = [7 \<mapsto> 5000], due = {}, spec_now = 0\<rparr>"
  proof (rule abs_eqI)
    show "to_pending (tos wheel1 t) = Some Expired_queue \<longleftrightarrow> t \<in> due \<lparr>waiting = [7 \<mapsto> 5000], due = {}, spec_now = 0\<rparr>" for t
      using s o' [of t] by (cases "t = 7") simp_all
    show "(case to_pending (tos wheel1 t) of Some (Slot _ _) \<Rightarrow> Some (to_expires (tos wheel1 t)) | _ \<Rightarrow> None) =
        waiting \<lparr>waiting = [7 \<mapsto> 5000], due = {}, spec_now = 0\<rparr> t" for t
      using s o' [of t] e by (cases "t = 7") simp_all
  qed (simp add: e)
  have u: "timer_abs (timeouts_update n wheel1) = spec_update n (timer_abs wheel1)" for n
    using wheel_refines_timer [OF wheel1_reach, where now = n] e(2) by simp
  show ?thesis unfolding u a using s by (auto simp: spec_update_def split: if_splits)
qed

section \<open>The time to the next timeout\<close>

lemma ctz_le:
  assumes "bit n i"
  shows "ctz n \<le> i"
proof (rule ccontr)
  assume "\<not> ctz n \<le> i"
  then have lt: "i < length (takeWhile (\<lambda>i. \<not> bit n i) [0..<64])" by (simp add: ctz_def)
  have "i < 64" by (rule bit_bound [OF assms])
  then have "\<not> bit n i" using set_takeWhileD [OF nth_mem [OF lt]] takeWhile_nth [OF lt] by simp
  then show False using assms by contradiction
qed

lemma relmask_step: "push_bit 6 (mask n :: u64) OR mask 6 = mask (n + 6)"
  by (rule bit_word_eqI) (auto simp: bit_or_iff bit_push_bit_iff bit_mask_iff)

text \<open>The value the loop computes for one wheel.\<close>

definition wheel_int :: "timeouts \<Rightarrow> nat \<Rightarrow> u64" where
  "wheel_int T w =
     push_bit (w * WHEEL_BIT) (of_nat (ctz (rotr (wpending T w) (unat (WHEEL_MASK AND drop_bit (w * WHEEL_BIT) (curtime T)))) + (if w = 0 then 0 else 1)))
       - (mask (w * 6) AND curtime T)"

lemma timeouts_int_rounds:
  "snd (foldl (int_round T) (NOT 0, 0) [0..<k]) = mask (k * 6) \<and>
   (\<forall>w < k. wpending T w \<noteq> 0 \<longrightarrow> fst (foldl (int_round T) (NOT 0, 0) [0..<k]) \<le> wheel_int T w) \<and>
   ((\<forall>w < k. wpending T w = 0) \<longrightarrow> fst (foldl (int_round T) (NOT 0, 0) [0..<k]) = NOT 0)"
proof (induction k)
  case 0
  then show ?case by simp
next
  case (Suc k)
  obtain m r where mr: "foldl (int_round T) (NOT 0, 0) [0..<k] = (m, r)" by fastforce
  have r: "r = mask (k * 6)" using Suc mr by simp
  have step: "foldl (int_round T) (NOT 0, 0) [0..<Suc k] = (if wpending T k \<noteq> 0 then min (wheel_int T k) m else m, push_bit 6 r OR mask 6)"
  proof -
    have "foldl (int_round T) (NOT 0, 0) [0..<Suc k] = int_round T (m, r) k" using mr by simp
    then show ?thesis unfolding int_round_def wheel_int_def r mask6 WHEEL_BIT_def Let_def by simp
  qed
  have "snd (foldl (int_round T) (NOT 0, 0) [0..<Suc k]) = mask (Suc k * 6)"
    unfolding step r snd_conv relmask_step by (simp add: add.commute)
  moreover have "fst (foldl (int_round T) (NOT 0, 0) [0..<Suc k]) \<le> wheel_int T w" if "w < Suc k" "wpending T w \<noteq> 0" for w
    unfolding step using Suc mr that by (cases "w = k") (auto simp: min_le_iff_disj)
  moreover have "fst (foldl (int_round T) (NOT 0, 0) [0..<Suc k]) = NOT 0" if "\<forall>w < Suc k. wpending T w = 0"
    unfolding step using Suc mr that by auto
  ultimately show ?case by blast
qed

lemma mod64_le: "(C::nat) \<le> q \<Longrightarrow> (q mod 64 + 64 - C mod 64) mod 64 \<le> q - C"
proof -
  assume "C \<le> q"
  then obtain d where d: "q = C + d" using le_Suc_ex by blast
  have "(C mod 64 + d) mod 64 = q mod 64" unfolding d by (simp add: mod_add_left_eq)
  have "q mod 64 = (C + d mod 64) mod 64" unfolding d by (simp add: mod_add_right_eq)
  then have "(q mod 64 + 64 - C mod 64) mod 64 = d mod 64" using mod_shift [of "d mod 64" C] by simp
  then show ?thesis unfolding d by simp
qed

lemma rotr_slot:
  assumes "s < 64" "c < 64"
  shows "bit (rotr v c) ((s + 64 - c) mod 64) \<longleftrightarrow> bit v s"
proof -
  have "((s + 64 - c) mod 64 + c) mod 64 = (s + 64 - c + c) mod 64" by (rule mod_add_left_eq)
  also have "\<dots> = s" using assms by simp
  finally show ?thesis using assms by (simp add: bit_rotr)
qed

lemma shift_nat:
  assumes "k * 64 ^ w < 2 ^ 64"
  shows "unat (push_bit (w * 6) (of_nat k) :: u64) = k * 64 ^ w"
proof -
  have "(push_bit (w * 6) (of_nat k) :: u64) = of_nat (push_bit (w * 6) k)" by (rule push_bit_of_nat)
  also have "push_bit (w * 6) k = k * 64 ^ w" unfolding push_bit_eq_mult pow64 ..
  finally show ?thesis using of_nat_inverse [OF refl, of "k * 64 ^ w", where 'a = 64] assms by simp
qed

text \<open>It never exceeds the time that is left to any timeout of that wheel.\<close>

lemma wheel_int_le:
  assumes pl: "place w s e (curtime T)" and b: "bit (wpending T w) s"
  shows "wheel_int T w \<le> e - curtime T"
proof -
  let ?B = "64 ^ w :: nat" and ?c = "unat (curtime T)" and ?e = "unat e" and ?u = "if w = 0 then 0 else 1 :: nat"
  let ?o = "?c div ?B mod 64"
  let ?k = "ctz (rotr (wpending T w) ?o) + ?u"
  have w: "w < 4" and s: "s = (?e div ?B - ?u) mod 64" and lt: "?c div ?B < ?e div ?B" using pl by (simp_all add: place_def)
  have s64: "s < 64" by (simp add: s)
  have B: "?B \<le> 64 ^ 3" using w by (intro power_increasing) simp_all
  have "ctz (rotr (wpending T w) ?o) \<le> (s + 64 - ?o) mod 64"
    by (rule ctz_le) (use rotr_slot [OF s64, of ?o] b in simp)
  also have "\<dots> \<le> ?e div ?B - ?u - ?c div ?B" unfolding s by (rule mod64_le) (use lt in auto)
  finally have k: "?k \<le> ?e div ?B - ?c div ?B" using lt by auto
  have k64: "?k \<le> 64" using \<open>ctz (rotr (wpending T w) ?o) \<le> (s + 64 - ?o) mod 64\<close> mod_less_divisor [of 64 "s + 64 - ?o"] by auto
  have sh: "unat (push_bit (w * WHEEL_BIT) (of_nat ?k) :: u64) = ?k * ?B"
  proof -
    have "?k * ?B \<le> 64 * 64 ^ 3" using k64 B by (rule mult_le_mono)
    then have "?k * ?B < 2 ^ 64" by simp
    then show ?thesis unfolding WHEEL_BIT_def by (rule shift_nat)
  qed
  have mk: "unat (mask (w * 6) AND curtime T) = ?c mod ?B"
    by (simp only: and.commute [of "mask (w * 6)"] flip: take_bit_eq_mask)
       (simp only: unsigned_take_bit_eq take_bit_eq_mod [of "w * 6" "?c"] pow64)
  have km: "?c mod ?B \<le> ?k * ?B"
  proof (cases "w = 0")
    case False
    then have "?B \<le> ?k * ?B" by simp
    moreover have "?c mod ?B < ?B" by (rule mod_less_divisor) simp
    ultimately show ?thesis by linarith
  qed simp
  have "unat (wheel_int T w) = ?k * ?B - ?c mod ?B"
    unfolding wheel_int_def slot_of using sh mk km by (subst unat_sub) (simp_all add: word_le_nat_alt)
  also have "\<dots> \<le> (?e div ?B - ?c div ?B) * ?B - ?c mod ?B" using k by (intro diff_le_mono mult_le_mono1)
  also have "\<dots> \<le> ?e - ?c"
  proof -
    have "?e div ?B * ?B \<le> ?e" "?c div ?B * ?B + ?c mod ?B = ?c" using div_mult_mod_eq [of ?c ?B] by simp_all
    then show ?thesis unfolding diff_mult_distrib by linarith
  qed
  also have "\<dots> = unat (e - curtime T)" using place_later [OF pl] by (simp add: unat_sub word_less_nat_alt word_le_nat_alt)
  finally show ?thesis by (simp add: word_le_nat_alt)
qed

lemma timeouts_int_le:
  assumes i: "wheel_inv T" and t: "to_pending (tos T t) = Some (Slot w s)"
  shows "timeouts_int T \<le> to_expires (tos T t) - curtime T"
proof -
  have pl: "place w s (to_expires (tos T t)) (curtime T)" using i t by (simp add: wheel_inv_def placed_def)
  have "t \<in> set (queue T (Slot w s))" using i t by (simp add: wheel_inv_def linked_def)
  then have "queue T (Slot w s) \<noteq> []" by auto
  then have b: "w < 4" "bit (wpending T w) s" using i unfolding wheel_inv_def linked_def by blast+
  then have "wpending T w \<noteq> 0" by auto
  then have "timeouts_int T \<le> wheel_int T w"
    using timeouts_int_rounds [of T 4] b(1) by (simp add: timeouts_int_def WHEEL_NUM_def)
  also have "\<dots> \<le> to_expires (tos T t) - curtime T" by (rule wheel_int_le [OF pl b(2)])
  finally show ?thesis .
qed

lemma timeouts_min_on_wheel:
  assumes "wheel_inv T"
  shows "case timeouts_min T of None \<Rightarrow> \<forall>w < 4. wpending T w = 0 | Some t \<Rightarrow> \<exists>w s. to_pending (tos T t) = Some (Slot w s)"
proof -
  let ?f = "\<lambda>t m. case m of None \<Rightarrow> Some t | Some u \<Rightarrow> if to_expires (tos T t) < to_expires (tos T u) then Some t else Some u"
  let ?xs = "concat (map (queue T) all_slots)"
  have iff: "t \<in> set (queue T l) \<longleftrightarrow> to_pending (tos T t) = Some l" and occ: "queue T (Slot w s) \<noteq> [] \<longleftrightarrow> w < 4 \<and> bit (wpending T w) s" for t l w s
    using assms unfolding wheel_inv_def linked_def by blast+
  have slots: "set all_slots = {Slot w s | w s. w < 4 \<and> s < 64}" by (auto simp: all_slots_def WHEEL_NUM_def)
  have some: "fold ?f xs (Some u) \<in> Some ` set (u # xs)" for xs u
  proof (induction xs arbitrary: u)
    case (Cons x xs)
    show ?case using Cons.IH [of x] Cons.IH [of u] by (auto split: if_splits)
  qed simp
  show ?thesis
  proof (cases ?xs)
    case Nil
    have "wpending T w = 0" if "w < 4" for w
    proof (rule ccontr)
      assume "wpending T w \<noteq> 0"
      then obtain s where s: "s < 64" "bit (wpending T w) s" by (rule word_nonzero_bit)
      then have "queue T (Slot w s) \<noteq> []" "Slot w s \<in> set all_slots" using occ that slots by auto
      then show False using Nil by auto
    qed
    then show ?thesis by (simp add: timeouts_min_def Nil)
  next
    case (Cons u us)
    then obtain t where t: "timeouts_min T = Some t" "t \<in> set (u # us)"
      using some [of us u] by (auto simp: timeouts_min_def)
    then have "t \<in> set ?xs" using Cons by simp
    then have "\<exists>w s. to_pending (tos T t) = Some (Slot w s)" using slots iff by auto
    then show ?thesis using t(1) by simp
  qed
qed

text \<open>C7. The consistency check that comes with the timing wheel succeeds in every state its operations
  can reach: no timeout on a wheel has been missed, and the interval it computes from the bitmaps
  alone never exceeds the time that is left to any timeout.\<close>

theorem timeouts_check_holds:
  assumes "wheel_start T0" "wheel_step\<^sup>*\<^sup>* T0 T"
  shows "timeouts_check T"
proof -
  have i: "wheel_inv T" by (rule wheels.reachable_inv [OF assms])
  note m = timeouts_min_on_wheel [OF i]
  show ?thesis
  proof (cases "timeouts_min T")
    case None
    then have "timeouts_int T = NOT 0" using m timeouts_int_rounds [of T 4] by (simp add: timeouts_int_def WHEEL_NUM_def)
    then show ?thesis using None by (simp add: timeouts_check_def timeouts_timeout_def)
  next
    case (Some t)
    then obtain w s where t: "to_pending (tos T t) = Some (Slot w s)" using m by auto
    have "place w s (to_expires (tos T t)) (curtime T)" using i t by (simp add: wheel_inv_def placed_def)
    then have "curtime T < to_expires (tos T t)" by (rule place_later)
    moreover note timeouts_int_le [OF i t]
    ultimately show ?thesis using Some by (simp add: timeouts_check_def timeouts_timeout_def)
  qed
qed

theorem timeouts_check_holds_witness: "timeouts_check wheel1 \<and> timeouts_int wheel1 = 4096"
proof
  show "timeouts_check wheel1" by (rule timeouts_check_holds [OF wheel1_reach])
  show "timeouts_int wheel1 = 4096" by code_simp
qed

section \<open>Iteration\<close>

text \<open>What is left for the iterator, if nothing is changed between the calls: the rest of the list it is
  in and of the slots behind.\<close>

definition slots_from :: "nat \<Rightarrow> timeouts \<Rightarrow> nat list" where
  "slots_from k T = concat (map (\<lambda>n. queue T (Slot (n div 64) (n mod 64))) [k..<256])"

fun rest_of :: "nat option \<Rightarrow> nat list \<Rightarrow> nat list" where
  "rest_of None q = []"
| "rest_of (Some t) q = dropWhile (\<lambda>x. x \<noteq> t) q"

definition it_rest :: "timeouts \<Rightarrow> timeouts_it \<Rightarrow> nat list" where
  "it_rest T it =
     (let wheels = (if it_flags it AND TIMEOUTS_PENDING \<noteq> 0 then slots_from 0 T else []) in
      case it_pc it of
        ItStart \<Rightarrow> (if it_flags it AND TIMEOUTS_EXPIRED \<noteq> 0 then queue T Expired_queue else []) @ wheels
      | ItExpired \<Rightarrow> rest_of (it_to it) (queue T Expired_queue) @ wheels
      | ItWheel \<Rightarrow> rest_of (it_to it) (queue T (Slot (it_i it) (it_j it))) @ slots_from (it_i it * 64 + it_j it + 1) T
      | _ \<Rightarrow> [])"

lemma slots_from_step: "k < 256 \<Longrightarrow> slots_from k T = queue T (Slot (k div 64) (k mod 64)) @ slots_from (Suc k) T"
  by (simp add: slots_from_def upt_conv_Cons)

lemma dropWhile_at: "t \<notin> set ys \<Longrightarrow> dropWhile (\<lambda>x. x \<noteq> t) (ys @ t # zs) = t # zs"
  by (induction ys) auto

lemma rest_of_succ:
  assumes "distinct q" "t \<in> set q"
  shows "rest_of (Some t) q = t # rest_of (succ_in t q) q" "\<And>u. succ_in t q = Some u \<Longrightarrow> u \<in> set q"
proof -
  obtain ys zs where q: "q = ys @ t # zs" "t \<notin> set ys" using assms(2) by (meson split_list_first)
  have d: "dropWhile (\<lambda>x. x \<noteq> t) q = t # zs" using q dropWhile_at by simp
  have s: "succ_in t q = (case zs of [] \<Rightarrow> None | u # us \<Rightarrow> Some u)" by (simp add: succ_in_def d split: list.split)
  then show "\<And>u. succ_in t q = Some u \<Longrightarrow> u \<in> set q" using q by (auto split: list.splits)
  show "rest_of (Some t) q = t # rest_of (succ_in t q) q"
  proof (cases zs)
    case Nil
    then show ?thesis using d s by simp
  next
    case (Cons u us)
    have "u \<notin> set (ys @ [t])" using assms(1) q Cons by auto
    then have "dropWhile (\<lambda>x. x \<noteq> u) q = u # us" using q Cons dropWhile_at [of u "ys @ [t]" us] by simp
    then show ?thesis using d s Cons by simp
  qed
qed

text \<open>The saved successor is on the list the iterator is in.\<close>

definition it_ok :: "timeouts \<Rightarrow> timeouts_it \<Rightarrow> bool" where
  "it_ok T it \<longleftrightarrow> it_flags it AND TIMEOUTS_CLEAR = 0 \<and>
     (case it_pc it of
        ItClear \<Rightarrow> False
      | ItExpired \<Rightarrow> \<forall>t. it_to it = Some t \<longrightarrow> t \<in> set (queue T Expired_queue)
      | ItWheel \<Rightarrow> \<forall>t. it_to it = Some t \<longrightarrow> t \<in> set (queue T (Slot (it_i it) (it_j it)))
      | _ \<Rightarrow> True)"

definition yields :: "timeouts \<Rightarrow> nat list \<Rightarrow> nat option \<times> timeouts_it \<Rightarrow> bool" where
  "yields T left r \<longleftrightarrow>
     (case r of
        (None, it) \<Rightarrow> left = [] \<and> it_pc it = ItDone
      | (Some t, it) \<Rightarrow> left = t # it_rest T it \<and> it_ok T it)"

lemma it_slots_yields:
  assumes d: "\<And>l. distinct (queue T l)" and f: "it_flags it AND TIMEOUTS_CLEAR = 0"
  shows "yields T (slots_from k T) (it_slots k T it)"
proof (induction "256 - k" arbitrary: k)
  case 0
  then show ?case by (simp add: slots_from_def it_slots_def WHEEL_NUM_def yields_def)
next
  case (Suc m)
  then have k: "k < 256" by simp
  let ?q = "queue T (Slot (k div 64) (k mod 64))"
  show ?case
  proof (cases ?q)
    case Nil
    have "it_slots k T it = it_slots (Suc k) T it" using k Nil by (simp add: it_slots_def WHEEL_NUM_def upt_conv_Cons)
    moreover have "slots_from k T = slots_from (Suc k) T" using slots_from_step [OF k] Nil by simp
    ultimately show ?thesis using Suc.hyps(1) [of "Suc k"] Suc.hyps(2) by simp
  next
    case (Cons t ts)
    have s: "it_slots k T it = (Some t, it\<lparr>it_pc := ItWheel, it_i := k div 64, it_j := k mod 64, it_to := succ_in t ?q\<rparr>)"
      using k Cons by (simp add: it_slots_def WHEEL_NUM_def upt_conv_Cons)
    have r: "?q = t # rest_of (succ_in t ?q) ?q" "\<And>u. succ_in t ?q = Some u \<Longrightarrow> u \<in> set ?q"
      using rest_of_succ [OF d, of t "Slot (k div 64) (k mod 64)"] Cons by simp_all
    have "slots_from k T = t # (rest_of (succ_in t ?q) ?q @ slots_from (Suc k) T)"
      using slots_from_step [OF k] r(1) by simp
    then show ?thesis unfolding s yields_def using r(2) f by (simp add: it_rest_def it_ok_def)
  qed
qed

lemma it_wheels_yields:
  assumes "\<And>l. distinct (queue T l)" "it_flags it AND TIMEOUTS_CLEAR = 0"
  shows "yields T (if it_flags it AND TIMEOUTS_PENDING \<noteq> 0 then slots_from 0 T else []) (it_wheels T it)"
  using it_slots_yields [OF assms, of 0] by (simp add: it_wheels_def yields_def)

lemma it_expired_yields:
  assumes d: "\<And>l. distinct (queue T l)" and f: "it_flags it AND TIMEOUTS_CLEAR = 0"
    and to: "\<And>t. to = Some t \<Longrightarrow> t \<in> set (queue T Expired_queue)"
  shows "yields T (rest_of to (queue T Expired_queue) @ (if it_flags it AND TIMEOUTS_PENDING \<noteq> 0 then slots_from 0 T else [])) (it_expired to T it)"
proof (cases to)
  case None
  then show ?thesis using it_wheels_yields [OF d f] by (simp add: it_expired_def)
next
  case (Some t)
  note r = rest_of_succ [OF d to [OF Some]]
  show ?thesis using Some r f by (simp add: it_expired_def yields_def it_rest_def it_ok_def)
qed

text \<open>An iterator that does not clear, over a wheel that does not change between the calls, returns
  every timeout it has been asked for once, in the order of the lists.\<close>

lemma timeouts_next_yields:
  assumes i: "wheel_inv T" and ok: "it_ok T it"
  shows "\<exists>r it'. timeouts_next T it = (r, T, it') \<and> yields T (it_rest T it) (r, it')"
proof -
  have d: "distinct (queue T l)" for l using i by (simp add: wheel_inv_def linked_def)
  have f: "it_flags it AND TIMEOUTS_CLEAR = 0" using ok by (simp add: it_ok_def)
  have keep: "\<exists>r' it'. (case x of (r, it1) \<Rightarrow> (r, T, it1)) = (r', T, it') \<and> yields T xs (r', it')" if "yields T xs x" for xs x
    using that by (cases x) simp
  show ?thesis
  proof (cases "it_pc it")
    case ItStart
    let ?to = "case queue T Expired_queue of [] \<Rightarrow> None | t # _ \<Rightarrow> Some t"
    have to: "\<And>t. ?to = Some t \<Longrightarrow> t \<in> set (queue T Expired_queue)" "rest_of ?to (queue T Expired_queue) = queue T Expired_queue"
      by (auto split: list.splits)
    note e = keep [OF it_expired_yields [OF d f, of ?to, OF to(1)], unfolded to(2)]
    show ?thesis using e keep [OF it_wheels_yields [OF d f]] ItStart f by (simp add: timeouts_next_def it_rest_def Let_def)
  next
    case ItClear
    then show ?thesis using ok by (simp add: it_ok_def)
  next
    case ItExpired
    then have to: "\<And>t. it_to it = Some t \<Longrightarrow> t \<in> set (queue T Expired_queue)" using ok by (simp add: it_ok_def)
    show ?thesis using keep [OF it_expired_yields [OF d f to]] ItExpired by (simp add: timeouts_next_def it_rest_def Let_def)
  next
    case ItWheel
    show ?thesis
    proof (cases "it_to it")
      case None
      show ?thesis using keep [OF it_slots_yields [OF d f]] ItWheel None by (simp add: timeouts_next_def it_rest_def Let_def)
    next
      case (Some t)
      then have "t \<in> set (queue T (Slot (it_i it) (it_j it)))" using ok ItWheel by (simp add: it_ok_def)
      note r = rest_of_succ [OF d this]
      show ?thesis using Some ItWheel r f by (simp add: timeouts_next_def it_rest_def Let_def yields_def it_ok_def)
    qed
  next
    case ItDone
    then show ?thesis by (simp add: timeouts_next_def it_rest_def yields_def Let_def)
  qed
qed

end
