(* ===== verification/TimerSystem.thy ===== *)
theory TimerSystem
  imports CondVar WheelSpec
begin

text \<open>
  The timer of the scheduler (\<^verbatim>\<open>src/time/time.cc\<close>, \<^verbatim>\<open>include/time/time.hpp\<close>) on top of the timing wheel
  and the condition variables. The timeout object of a task carries the task's name. Each operation
  is one critical section of the timer's lock; a wait is split at its switch. The clock reading is
  an argument.
\<close>

section \<open>Operations\<close>

text \<open>Nanoseconds since the start of the scheduler, as the unsigned number the wheel takes.\<close>

definition wheel_time :: "TimePoint \<Rightarrow> 'a sched_scheme \<Rightarrow> u64" where
  "wheel_time now w = of_int (now - schedulerStartTime w)"

definition new_Timer :: "(nat \<Rightarrow> timeout) \<Rightarrow> timeouts" where
  "new_Timer objs = timeouts_init objs 0"

definition UpdateTimeout :: "TimePoint \<Rightarrow> 'a sched_scheme \<Rightarrow> timeouts \<Rightarrow> timeouts" where
  "UpdateTimeout now w T = timeouts_update (wheel_time now w) T"

text \<open>The loop that takes and calls the due timeouts.\<close>

partial_function (option) drain :: "timeouts \<Rightarrow> 'a sched_scheme \<Rightarrow> (timeouts \<times> 'a sched_scheme) outcome option" where
  "drain T w =
     (case timeouts_get T of
        (None, T1) \<Rightarrow> Some (Ok (T1, w))
      | (Some t, T1) \<Rightarrow>
          (case to_callback (tos T t) of
             None \<Rightarrow> Some (Fault NullDeref)
           | Some u \<Rightarrow>
               (case TimeoutCallback u w of
                  Ok w1 \<Rightarrow> drain T1 w1
                | Blocked \<Rightarrow> Some Blocked
                | Fault e \<Rightarrow> Some (Fault e))))"

definition NotifyAllTimeouts :: "TimePoint \<Rightarrow> timeouts \<Rightarrow> 'a sched_scheme \<Rightarrow> (timeouts \<times> 'a sched_scheme) outcome option" where
  "NotifyAllTimeouts now T w = drain (UpdateTimeout now w T) w"

text \<open>Initialising a timeout that is on a list destroys its links.\<close>

definition arm :: "tid \<Rightarrow> u32 \<Rightarrow> u64 \<Rightarrow> timeouts \<Rightarrow> timeouts outcome" where
  "arm t flags v T =
     (if to_pending (tos T t) \<noteq> None then Fault BrokenList
      else Ok (timeouts_add t v (upd_to t (\<lambda>_. (timeout_init flags)\<lparr>to_callback := Some t\<rparr>) T)))"

text \<open>\<^verbatim>\<open>SetTimeout\<close> without a lock (a sleep) up to its switch, and the variants with a lock (a timed wait) before
  and after it.\<close>

definition SetTimeout_sleep :: "tid \<Rightarrow> Duration \<Rightarrow> u32 \<Rightarrow> TimePoint \<Rightarrow> timeouts \<Rightarrow> 'a sched_scheme \<Rightarrow> (timeouts \<times> 'a sched_scheme) outcome" where
  "SetTimeout_sleep t dt flags now T w =
     obind (arm t flags (of_int dt) (UpdateTimeout now w T))
       (\<lambda>T1. Ok (T1, upd_task t (cvStatus_update (\<lambda>_. CvZero)) w))"

definition SetTimeout_begin :: "tid \<Rightarrow> Duration \<Rightarrow> u32 \<Rightarrow> TimePoint \<Rightarrow> timeouts \<Rightarrow> 'a sched_scheme \<Rightarrow> timeouts outcome" where
  "SetTimeout_begin t dt flags now T w = arm t flags (of_int dt) (UpdateTimeout now w T)"

definition SetTimeout_end :: "tid \<Rightarrow> timeouts \<Rightarrow> timeouts" where
  "SetTimeout_end t T = (if timeout_expired t T then T else jamscript_timeout_del t T)"

text \<open>The clock is read twice: at \<open>now0\<close> for the time of the timeout, at \<open>now\<close>, under the lock, for the wheel.\<close>

definition SetTimeoutFor :: "tid \<Rightarrow> Duration \<Rightarrow> TimePoint \<Rightarrow> TimePoint \<Rightarrow> timeouts \<Rightarrow> 'a sched_scheme \<Rightarrow> (timeouts \<times> 'a sched_scheme) outcome" where
  "SetTimeoutFor t dt now0 now T w = SetTimeout_sleep t (now0 - schedulerStartTime w + dt) TIMEOUT_ABS now T w"

definition SetTimeoutUntil :: "tid \<Rightarrow> TimePoint \<Rightarrow> TimePoint \<Rightarrow> timeouts \<Rightarrow> 'a sched_scheme \<Rightarrow> (timeouts \<times> 'a sched_scheme) outcome" where
  "SetTimeoutUntil t tp now T w = SetTimeout_sleep t (tp - schedulerStartTime w) TIMEOUT_ABS now T w"

definition SetTimeoutFor_lock :: "tid \<Rightarrow> Duration \<Rightarrow> TimePoint \<Rightarrow> TimePoint \<Rightarrow> timeouts \<Rightarrow> 'a sched_scheme \<Rightarrow> timeouts outcome" where
  "SetTimeoutFor_lock t dt now0 now T w = SetTimeout_begin t (now0 - schedulerStartTime w + dt) TIMEOUT_ABS now T w"

definition SetTimeoutUntil_lock :: "tid \<Rightarrow> TimePoint \<Rightarrow> TimePoint \<Rightarrow> timeouts \<Rightarrow> 'a sched_scheme \<Rightarrow> timeouts outcome" where
  "SetTimeoutUntil_lock t tp now T w = SetTimeout_begin t (tp - schedulerStartTime w) TIMEOUT_ABS now T w"

text \<open>The sleeps of both schedulers go to the timer of the main one.\<close>

definition rib_SleepFor :: "tid \<Rightarrow> Duration \<Rightarrow> TimePoint \<Rightarrow> TimePoint \<Rightarrow> timeouts \<Rightarrow> 'a sched_scheme \<Rightarrow> (timeouts \<times> 'a sched_scheme) outcome" where
  "rib_SleepFor t dt now0 now T w = SetTimeoutFor t dt now0 now T w"

definition rib_SleepUntil :: "tid \<Rightarrow> TimePoint \<Rightarrow> TimePoint \<Rightarrow> timeouts \<Rightarrow> 'a sched_scheme \<Rightarrow> (timeouts \<times> 'a sched_scheme) outcome" where
  "rib_SleepUntil t tp now T w = SetTimeoutUntil t tp now T w"

definition thief_SleepFor :: "tid \<Rightarrow> Duration \<Rightarrow> TimePoint \<Rightarrow> TimePoint \<Rightarrow> timeouts \<Rightarrow> 'a sched_scheme \<Rightarrow> (timeouts \<times> 'a sched_scheme) outcome" where
  "thief_SleepFor t dt now0 now T w = rib_SleepFor t dt now0 now T w"

definition thief_SleepUntil :: "tid \<Rightarrow> TimePoint \<Rightarrow> TimePoint \<Rightarrow> timeouts \<Rightarrow> 'a sched_scheme \<Rightarrow> (timeouts \<times> 'a sched_scheme) outcome" where
  "thief_SleepUntil t tp now T w = rib_SleepUntil t tp now T w"

text \<open>The destructor: everything is made due, and the tasks of the timeouts are deleted.\<close>

partial_function (option) delete_due :: "timeouts \<Rightarrow> tid list \<Rightarrow> (timeouts \<times> tid list) option" where
  "delete_due T gone =
     (case timeouts_get T of
        (None, T1) \<Rightarrow> Some (T1, gone)
      | (Some t, T1) \<Rightarrow> delete_due T1 (gone @ [the (to_callback (tos T t))]))"

definition destroy_Timer :: "timeouts \<Rightarrow> (tid list) option" where
  "destroy_Timer T = map_option snd (delete_due (timeouts_update (- 1) T) [])"

section \<open>The loop ends\<close>

text \<open>A timeout of the timer is not repeating and has a callback.\<close>

definition one_shot :: "timeouts \<Rightarrow> bool" where
  "one_shot T \<longleftrightarrow> (\<forall>t. to_pending (tos T t) \<noteq> None \<longrightarrow> to_flags (tos T t) = TIMEOUT_ABS \<and> to_callback (tos T t) = Some t)"

lemma get_one_shot:
  assumes i: "wheel_inv T" and o: "one_shot T" and q: "queue T Expired_queue = t # ts"
  shows "timeouts_get T = (Some t, timeouts_del t T)" "to_callback (tos T t) = Some t" "queue (timeouts_del t T) Expired_queue = ts"
    "wheel_inv (timeouts_del t T)" "one_shot (timeouts_del t T)"
proof -
  note g = timeouts_get_eq [OF i q]
  have f: "to_flags (tos T t) = TIMEOUT_ABS" "to_callback (tos T t) = Some t" using o g(2) by (simp_all add: one_shot_def)
  show "to_callback (tos T t) = Some t" by (rule f(2))
  have "\<not> repeating t T" using f(1) by (simp add: repeating_def TIMEOUT_ABS_def TIMEOUT_INT_def)
  then show "timeouts_get T = (Some t, timeouts_del t T)" using g(1) by simp
  show "queue (timeouts_del t T) Expired_queue = ts" using g(2) q by (simp add: timeouts_del_def upd_to_def Let_def)
  show "wheel_inv (timeouts_del t T)" by (rule abs_del(2) [OF i])
  have l: "linked {} T" "placed {} T" using i by (simp_all add: wheel_inv_def)
  note D = timeouts_del_inv [OF l, where t = t]
  show "one_shot (timeouts_del t T)" using o D(3,5) unfolding one_shot_def by (metis empty_iff)
qed

lemma drain_exact:
  assumes "wheel_inv T" "one_shot T"
  shows "drain T w = Some (obind (each TimeoutCallback (queue T Expired_queue) w) (\<lambda>w'. Ok (fold timeouts_del (queue T Expired_queue) T, w')))"
  using assms
proof (induction "queue T Expired_queue" arbitrary: T w)
  case Nil
  then show ?case by (simp add: drain.simps timeouts_get_def)
next
  case (Cons t ts)
  note g = get_one_shot [OF Cons.prems Cons.hyps(2) [symmetric]]
  show ?case
  proof (cases "TimeoutCallback t w")
    case (Ok w1)
    have "drain T w = drain (timeouts_del t T) w1" using g(1,2) Ok by (simp add: drain.simps [of T])
    also have "\<dots> = Some (obind (each TimeoutCallback ts w1) (\<lambda>w'. Ok (fold timeouts_del ts (timeouts_del t T), w')))"
      using Cons.hyps(1) [OF g(3) [symmetric] g(4,5), of w1] g(3) by simp
    finally show ?thesis using Ok Cons.hyps(2) [symmetric] by simp
  qed (use g(1,2) Cons.hyps(2) [symmetric] in \<open>simp_all add: drain.simps [of T]\<close>)
qed

section \<open>Reachable timers\<close>

definition same_fields :: "timeouts \<Rightarrow> timeouts \<Rightarrow> bool" where
  "same_fields T T' \<longleftrightarrow> (\<forall>t. to_flags (tos T' t) = to_flags (tos T t) \<and> to_callback (tos T' t) = to_callback (tos T t))"

lemma del_fields: "same_fields T (timeouts_del t T)"
  by (auto simp: same_fields_def timeouts_del_def upd_to_def Let_def split: option.splits loc.splits)

lemma sched_fields: "same_fields T (timeouts_sched t e T)"
  using del_fields [of T t] by (auto simp: same_fields_def timeouts_sched_def upd_to_def Let_def)

lemma resched_fields: "same_fields T (resched t T)"
  using sched_fields [of "upd_to t (\<lambda>x. x\<lparr>to_pending := None\<rparr>) T" t] by (auto simp: same_fields_def resched_def upd_to_def Let_def)

lemma fold_fields: "(\<And>t T. same_fields T (f t T)) \<Longrightarrow> same_fields T (fold f ts T)"
proof (induction ts arbitrary: T)
  case (Cons t ts)
  then show ?case using Cons.prems [of T t] by (auto simp: same_fields_def)
qed (simp add: same_fields_def)

lemma update_fields:
  assumes i: "wheel_inv T" and n: "curtime T \<le> now"
  shows "same_fields T (timeouts_update now T)"
proof -
  obtain todo T1 where u: "update_wheels 0 (now - curtime T) (curtime T) now [] T = (todo, T1)"
    by (cases "update_wheels 0 (now - curtime T) (curtime T) now [] T")
  have "moving T [] T" using i by (simp add: moving_def wheel_inv_def)
  moreover have "unat now - unat (curtime T) \<le> unat (now - curtime T)" using n by (simp add: unat_sub)
  ultimately have "moving T todo T1" using update_wheels_moving [OF _ u n] by auto
  then have "same_fields T (T1\<lparr>curtime := now\<rparr>)" by (simp add: moving_def same_fields_def)
  then show ?thesis using fold_fields [of resched "T1\<lparr>curtime := now\<rparr>" todo] resched_fields
    by (simp add: timeouts_update_def u same_fields_def)
qed

definition timer_inv :: "timeouts \<Rightarrow> bool" where
  "timer_inv T \<longleftrightarrow> wheel_inv T \<and> one_shot T"

lemma timer_inv_update:
  assumes "timer_inv T" "curtime T \<le> now"
  shows "timer_inv (timeouts_update now T)"
proof -
  have i: "wheel_inv T" "one_shot T" using assms(1) by (simp_all add: timer_inv_def)
  note U = timeouts_update_inv [OF i(1) assms(2)]
  have "one_shot (timeouts_update now T)"
    using i(2) U(4) update_fields [OF i(1) assms(2)] by (simp add: one_shot_def same_fields_def)
  then show ?thesis using U(1) by (simp add: timer_inv_def)
qed

lemma timer_inv_arm:
  assumes "timer_inv T" "arm t TIMEOUT_ABS v T = Ok T'"
  shows "timer_inv T'"
proof -
  let ?T = "upd_to t (\<lambda>_. (timeout_init TIMEOUT_ABS)\<lparr>to_callback := Some t\<rparr>) T"
  have i: "wheel_inv T" "one_shot T" using assms(1) by (simp_all add: timer_inv_def)
  have n: "to_pending (tos T t) = None" and T': "T' = timeouts_add t v ?T" using assms(2) by (auto simp: arm_def split: if_splits)
  have "wheel_inv ?T" by (rule wheel_inv_init_timeout [OF i(1) n]) (simp add: timeout_init_def)
  then have w: "wheel_inv T'" unfolding T' by (rule abs_add(2))
  have f: "tos ?T t = (timeout_init TIMEOUT_ABS)\<lparr>to_callback := Some t\<rparr>" "\<And>u. u \<noteq> t \<Longrightarrow> tos ?T u = tos T u" by (simp_all add: upd_to_def)
  have a: "T' = timeouts_sched t v ?T"
    unfolding T' timeouts_add_def using f(1) by (simp add: timeout_init_def TIMEOUT_ABS_def TIMEOUT_INT_def)
  have l: "linked {} ?T" "placed {} ?T" using \<open>wheel_inv ?T\<close> by (simp_all add: wheel_inv_def)
  have o: "tos T' u = tos T u" if "u \<noteq> t" for u
    using timeouts_sched_inv(4) [OF l, where t = t and e = v and u = u] f(2) that by (simp add: a)
  have "to_flags (tos T' t) = TIMEOUT_ABS" "to_callback (tos T' t) = Some t"
    using sched_fields [of ?T t v] f(1) by (simp_all add: same_fields_def a timeout_init_def)
  then have "one_shot T'" using i(2) o unfolding one_shot_def by metis
  then show ?thesis using w by (simp add: timer_inv_def)
qed

lemma timer_inv_del: "timer_inv T \<Longrightarrow> timer_inv (timeouts_del t T)"
proof -
  assume "timer_inv T"
  then have i: "wheel_inv T" "one_shot T" by (simp_all add: timer_inv_def)
  then have l: "linked {} T" "placed {} T" by (simp_all add: wheel_inv_def)
  note D = timeouts_del_inv [OF l, where t = t]
  have "one_shot (timeouts_del t T)" using i(2) D(3,5) unfolding one_shot_def by (metis empty_iff)
  then show ?thesis using abs_del(2) [OF i(1)] by (simp add: timer_inv_def)
qed

lemma timer_inv_dels: "timer_inv T \<Longrightarrow> timer_inv (fold timeouts_del ts T)"
  by (induction ts arbitrary: T) (auto intro: timer_inv_del)

text \<open>Deleting everything that is due.\<close>

lemma abs_del_due:
  assumes "wheel_inv T"
  shows "timer_abs (fold timeouts_del (queue T Expired_queue) T) = (timer_abs T)\<lparr>due := {}\<rparr>"
proof -
  have many: "timer_abs (fold timeouts_del ts T) = (timer_abs T)\<lparr>waiting := (\<lambda>t. if t \<in> set ts then None else waiting (timer_abs T) t),
      due := due (timer_abs T) - set ts\<rparr>" if "wheel_inv T" for ts T
    using that
  proof (induction ts arbitrary: T)
    case (Cons t ts)
    have "timer_abs (fold timeouts_del (t # ts) T) = (timer_abs (timeouts_del t T))\<lparr>
        waiting := (\<lambda>u. if u \<in> set ts then None else waiting (timer_abs (timeouts_del t T)) u),
        due := due (timer_abs (timeouts_del t T)) - set ts\<rparr>"
      using Cons.IH [OF abs_del(2) [OF Cons.prems], of t] by simp
    then show ?case unfolding abs_del(1) [OF Cons.prems] by (intro timer_spec.equality) (auto simp: spec_del_def)
  qed (simp add: timer_abs_def)
  have iff: "t \<in> set (queue T Expired_queue) \<longleftrightarrow> to_pending (tos T t) = Some Expired_queue" for t
    using assms unfolding wheel_inv_def linked_def by blast
  show ?thesis unfolding many [OF assms] 
    using iff by (intro timer_spec.equality) (auto simp: timer_abs_def)
qed

inductive timer_step :: "timeouts \<Rightarrow> timeouts \<Rightarrow> bool" where
  sleep: "curtime T \<le> wheel_time now (w :: sched) \<Longrightarrow> SetTimeout_sleep t dt TIMEOUT_ABS now T w = Ok (T', w') \<Longrightarrow> timer_step T T'"
| wait: "curtime T \<le> wheel_time now (w :: sched) \<Longrightarrow> SetTimeout_begin t dt TIMEOUT_ABS now T w = Ok T' \<Longrightarrow> timer_step T T'"
| wake: "timer_step T (SetTimeout_end t T)"
| tick: "curtime T \<le> wheel_time now (w :: sched) \<Longrightarrow> NotifyAllTimeouts now T w = Some (Ok (T', w')) \<Longrightarrow> timer_step T T'"

definition timer_start :: "timeouts \<Rightarrow> bool" where
  "timer_start T \<longleftrightarrow> (\<exists>objs. (\<forall>t. to_pending (objs t) = None) \<and> T = new_Timer objs)"

lemma NotifyAll_drain:
  assumes "timer_inv T" "curtime T \<le> wheel_time now w"
  shows "NotifyAllTimeouts now T w = Some (obind (each TimeoutCallback (queue (UpdateTimeout now w T) Expired_queue) w)
      (\<lambda>w'. Ok (fold timeouts_del (queue (UpdateTimeout now w T) Expired_queue) (UpdateTimeout now w T), w')))"
proof -
  have "wheel_inv (UpdateTimeout now w T)" "one_shot (UpdateTimeout now w T)"
    using timer_inv_update [OF assms] by (simp_all add: timer_inv_def UpdateTimeout_def)
  then show ?thesis unfolding NotifyAllTimeouts_def by (rule drain_exact)
qed

interpretation timers: invariant_system timer_start timer_step timer_inv
proof
  show "timer_inv T" if "timer_start T" for T
    using that by (auto simp: timer_start_def new_Timer_def timeouts_init_def timer_inv_def wheel_inv_def linked_def placed_def one_shot_def)
  show "timer_inv T'" if "timer_step T T'" "timer_inv T" for T T'
    using that
  proof induction
    case (sleep T now w t dt T' w')
    then show ?case using timer_inv_arm [OF timer_inv_update [OF sleep(3,1)]] by (auto simp: SetTimeout_sleep_def UpdateTimeout_def)
  next
    case (wait T now w t dt T')
    then show ?case using timer_inv_arm [OF timer_inv_update [OF wait(3,1)]] by (auto simp: SetTimeout_begin_def UpdateTimeout_def)
  next
    case (wake T t)
    then show ?case using timer_inv_del by (simp add: SetTimeout_end_def jamscript_timeout_del_def)
  next
    case (tick T now w T' w')
    then show ?case using NotifyAll_drain [OF tick(3,1)] timer_inv_dels [OF timer_inv_update [OF tick(3,1)]]
      by (auto simp: UpdateTimeout_def)
  qed
qed

text \<open>C5. A round of the timer thread ends and is exact: in every reachable timer state
  \<^verbatim>\<open>NotifyAllTimeouts\<close> returns after calling the callback once for each timeout whose time has come, and
  for no other; afterwards nothing is due, and the timeouts that lie in the future still wait
  with their times.\<close>

theorem NotifyAllTimeouts_exact:
  assumes "timer_start T0" "timer_step\<^sup>*\<^sup>* T0 T" "curtime T \<le> wheel_time now w"
  shows "\<exists>ts T'. NotifyAllTimeouts now T w = Some (obind (each TimeoutCallback ts w) (\<lambda>w'. Ok (T', w'))) \<and>
    distinct ts \<and> set ts = {t. to_pending (tos T t) \<noteq> None \<and> to_expires (tos T t) \<le> wheel_time now w} \<and>
    timer_abs T' = (spec_update (wheel_time now w) (timer_abs T))\<lparr>due := {}\<rparr>"
proof -
  have i: "timer_inv T" by (rule timers.reachable_inv [OF assms(1,2)])
  then have wi: "wheel_inv T" by (simp add: timer_inv_def)
  let ?U = "UpdateTimeout now w T"
  note U = timeouts_update_inv [OF wi assms(3)]
  have ui: "wheel_inv ?U" using U(1) by (simp add: UpdateTimeout_def)
  then have d: "distinct (queue ?U Expired_queue)"
    and iff: "t \<in> set (queue ?U Expired_queue) \<longleftrightarrow> to_pending (tos ?U t) = Some Expired_queue" for t
    unfolding wheel_inv_def linked_def by blast+
  have "set (queue ?U Expired_queue) = {t. to_pending (tos T t) \<noteq> None \<and> to_expires (tos T t) \<le> wheel_time now w}"
    using iff U(5) by (auto simp: UpdateTimeout_def)
  moreover have "timer_abs (fold timeouts_del (queue ?U Expired_queue) ?U) = (spec_update (wheel_time now w) (timer_abs T))\<lparr>due := {}\<rparr>"
    using abs_del_due [OF ui] abs_update [OF wi assms(3)] by (simp add: UpdateTimeout_def)
  ultimately show ?thesis using NotifyAll_drain [OF i assms(3)] d by blast
qed

text \<open>A timer at work: task 1 waits until time 10, task 2 goes to sleep at time 20.\<close>

definition tick0 :: timeouts where
  "tick0 = new_Timer (\<lambda>t. timeout_init 0)"

definition tick1 :: timeouts where
  "tick1 = timeouts_add 1 10 (upd_to 1 (\<lambda>_. (timeout_init TIMEOUT_ABS)\<lparr>to_callback := Some 1\<rparr>) (timeouts_update 0 tick0))"

definition tick2 :: timeouts where
  "tick2 = timeouts_add 2 50 (upd_to 2 (\<lambda>_. (timeout_init TIMEOUT_ABS)\<lparr>to_callback := Some 2\<rparr>) (timeouts_update 20 tick1))"

lemma tick_reach: "timer_start tick0" "timer_step\<^sup>*\<^sup>* tick0 tick1" "timer_step\<^sup>*\<^sup>* tick0 tick2"
proof -
  let ?w = "demo_cv CvZero CvZero"
  have s: "schedulerStartTime ?w = 0" by (simp add: demo_cv_simps)
  show "timer_start tick0" unfolding timer_start_def tick0_def by (intro exI conjI allI) (auto simp: timeout_init_def)
  have "to_pending (tos (timeouts_update 0 tick0) 1) = None" by code_simp
  then have "SetTimeout_begin 1 10 TIMEOUT_ABS 0 tick0 ?w = Ok tick1"
    by (simp add: SetTimeout_begin_def UpdateTimeout_def wheel_time_def s arm_def tick1_def)
  moreover have "curtime tick0 \<le> wheel_time 0 ?w" by (simp add: tick0_def new_Timer_def timeouts_init_def)
  ultimately have 1: "timer_step tick0 tick1" using timer_step.wait by blast
  then show "timer_step\<^sup>*\<^sup>* tick0 tick1" by (rule r_into_rtranclp)
  have "to_pending (tos (timeouts_update 20 tick1) 2) = None" by code_simp
  then have "\<exists>w'. SetTimeout_sleep 2 50 TIMEOUT_ABS 20 tick1 ?w = Ok (tick2, w')"
    by (simp add: SetTimeout_sleep_def UpdateTimeout_def wheel_time_def s arm_def tick2_def)
  moreover have "curtime tick1 = 0" by code_simp
  ultimately have 2: "timer_step tick1 tick2" using timer_step.sleep [of tick1 20 ?w] by (auto simp: wheel_time_def s)
  from 1 2 show "timer_step\<^sup>*\<^sup>* tick0 tick2" by (meson rtranclp.rtrancl_into_rtrancl rtranclp.rtrancl_refl)
qed

theorem NotifyAllTimeouts_exact_witness:
  "\<exists>ts T'. NotifyAllTimeouts 30 tick1 (demo_cv CvZero CvZero) =
       Some (obind (each TimeoutCallback ts (demo_cv CvZero CvZero)) (\<lambda>w'. Ok (T', w'))) \<and> 1 \<in> set ts"
proof -
  have s: "schedulerStartTime (demo_cv CvZero CvZero) = 0" by (simp add: demo_cv_simps)
  have c: "curtime tick1 = 0" "to_pending (tos tick1 1) = Some (Slot 0 10)" "to_expires (tos tick1 1) = 10" by code_simp+
  have "curtime tick1 \<le> wheel_time 30 (demo_cv CvZero CvZero)" using c(1) by simp
  from NotifyAllTimeouts_exact [OF tick_reach(1,2) this] c(2,3) s show ?thesis by (fastforce simp: wheel_time_def)
qed

text \<open>A waiter that is notified while its timeout is already due keeps the timeout on the queue of due
  ones: the end of the wait deletes it only if it is not due. The object is then still linked
  when the task is deleted, and the task's next timed wait initialises it and breaks the list.\<close>

lemma due_timeout_outlives_wait:
  assumes "timer_start T0" "timer_step\<^sup>*\<^sup>* T0 T" "timeout_expired t T" "curtime T \<le> wheel_time now w"
  shows "t \<in> set (queue (SetTimeout_end t T) Expired_queue) \<and>
    SetTimeout_begin t dt TIMEOUT_ABS now (SetTimeout_end t T) w = Fault BrokenList"
proof -
  have "wheel_inv T" using timers.reachable_inv [OF assms(1,2)] by (simp add: timer_inv_def)
  moreover have p: "to_pending (tos T t) = Some Expired_queue" using assms(3) by (simp add: timeout_expired_def)
  ultimately have "t \<in> set (queue T Expired_queue)" "to_pending (tos (timeouts_update (wheel_time now w) T) t) \<noteq> None"
    using timeouts_update_inv(4) [OF _ assms(4), of t] unfolding wheel_inv_def linked_def by auto
  then show ?thesis using assms(3) by (simp add: SetTimeout_end_def SetTimeout_begin_def UpdateTimeout_def arm_def)
qed

lemma due_timeout_outlives_wait_witness:
  "timeout_expired 1 tick2 \<and> 1 \<in> set (queue (SetTimeout_end 1 tick2) Expired_queue) \<and>
   SetTimeout_begin 1 40 TIMEOUT_ABS 20 (SetTimeout_end 1 tick2) (demo_cv CvZero CvZero) = Fault BrokenList"
proof -
  have e: "timeout_expired 1 tick2" and c: "curtime tick2 = 20" by code_simp+
  have "schedulerStartTime (demo_cv CvZero CvZero) = 0" by (simp add: demo_cv_simps)
  then have "curtime tick2 \<le> wheel_time 20 (demo_cv CvZero CvZero)" using c by (simp add: wheel_time_def)
  from due_timeout_outlives_wait [OF tick_reach(1,3) e this, of 40] show ?thesis using e by blast
qed

end
