(* ===== verification/Sleep.thy ===== *)
theory Sleep
  imports TimerSystem
begin

text \<open>
  Sleeping tasks (\<^verbatim>\<open>ctask::SleepFor\<close> and \<^verbatim>\<open>ctask::SleepUntil\<close> in \<^verbatim>\<open>include/core/task/task.hpp\<close>) on top of the timer: when a task that went
  to sleep is woken, whatever the timer does for other tasks in the meantime.
\<close>

section \<open>Operations\<close>

text \<open>A sleep is split at its switch: \<open>begin\<close> arms the timeout and leaves, \<open>end\<close> is the assertion that the task makes
  when it is back. \<open>start\<close> is the clock reading at the call.\<close>

definition ctask_SleepFor_begin :: "tid \<Rightarrow> Duration \<Rightarrow> TimePoint \<Rightarrow> TimePoint \<Rightarrow> timeouts \<Rightarrow> 'a sched_scheme \<Rightarrow> (timeouts \<times> 'a sched_scheme) outcome" where
  "ctask_SleepFor_begin t dt now0 now T w =
    (case scheduler (heap w t) of RIBPtr \<Rightarrow> rib_SleepFor t dt now0 now T w | ThiefPtr i \<Rightarrow> thief_SleepFor t dt now0 now T w)"

definition ctask_SleepFor_end :: "TimePoint \<Rightarrow> Duration \<Rightarrow> TimePoint \<Rightarrow> unit outcome" where
  "ctask_SleepFor_end start dt now = (if start + dt \<le> now then Ok () else Fault AssertFailed)"

text \<open>\<^verbatim>\<open>convert\<close> translates a time point of another clock through the distance to that clock's \<open>now\<close>.\<close>

definition convert :: "TimePoint \<Rightarrow> TimePoint \<Rightarrow> TimePoint \<Rightarrow> TimePoint" where
  "convert steady_now clock_now tp = steady_now + (tp - clock_now)"

definition ctask_SleepUntil_begin ::
    "tid \<Rightarrow> TimePoint \<Rightarrow> TimePoint \<Rightarrow> TimePoint \<Rightarrow> timeouts \<Rightarrow> 'a sched_scheme \<Rightarrow> (timeouts \<times> 'a sched_scheme) outcome" where
  "ctask_SleepUntil_begin t tp clock_now now T w =
    (case scheduler (heap w t) of
       RIBPtr \<Rightarrow> rib_SleepUntil t (convert now clock_now tp) now T w
     | ThiefPtr i \<Rightarrow> thief_SleepUntil t (convert now clock_now tp) now T w)"

definition ctask_SleepUntil_end :: "TimePoint \<Rightarrow> TimePoint \<Rightarrow> unit outcome" where
  "ctask_SleepUntil_end tp now = (if tp \<le> now then Ok () else Fault AssertFailed)"

section \<open>The timer while a task sleeps\<close>

text \<open>The timeouts that a round at time \<open>now\<close> takes and calls.\<close>

definition taken :: "TimePoint \<Rightarrow> 'a sched_scheme \<Rightarrow> timeouts \<Rightarrow> tid set" where
  "taken now w T = set (queue (UpdateTimeout now w T) Expired_queue)"

text \<open>\<open>sleeping t T T'\<close>: from \<open>T\<close> to \<open>T'\<close> other tasks went to sleep, waited and woke up, and the timer thread made rounds, none of which
  took the timeout of \<open>t\<close>.\<close>

inductive sleeping :: "tid \<Rightarrow> timeouts \<Rightarrow> timeouts \<Rightarrow> bool" for t T where
  start: "sleeping t T T"
| sleep: "sleeping t T T1 \<Longrightarrow> curtime T1 \<le> wheel_time now (w :: sched) \<Longrightarrow> u \<noteq> t \<Longrightarrow>
    SetTimeout_sleep u dt TIMEOUT_ABS now T1 w = Ok (T2, w2) \<Longrightarrow> sleeping t T T2"
| wait: "sleeping t T T1 \<Longrightarrow> curtime T1 \<le> wheel_time now (w :: sched) \<Longrightarrow> u \<noteq> t \<Longrightarrow>
    SetTimeout_begin u dt TIMEOUT_ABS now T1 w = Ok T2 \<Longrightarrow> sleeping t T T2"
| wake: "sleeping t T T1 \<Longrightarrow> u \<noteq> t \<Longrightarrow> sleeping t T (SetTimeout_end u T1)"
| tick: "sleeping t T T1 \<Longrightarrow> curtime T1 \<le> wheel_time now (w :: sched) \<Longrightarrow> t \<notin> taken now w T1 \<Longrightarrow>
    NotifyAllTimeouts now T1 w = Some (Ok (T2, w2)) \<Longrightarrow> sleeping t T T2"

lemma sleeping_steps: "sleeping t T T' \<Longrightarrow> timer_step\<^sup>*\<^sup>* T T'"
  by (induction rule: sleeping.induct) (auto intro: rtranclp.rtrancl_into_rtrancl timer_step.intros)

text \<open>The timeout of a task is set for the time \<open>d\<close>.\<close>

definition set_for :: "u64 \<Rightarrow> tid \<Rightarrow> timeouts \<Rightarrow> bool" where
  "set_for d t T \<longleftrightarrow> to_pending (tos T t) \<noteq> None \<and> to_expires (tos T t) = d"

lemma arm_effect:
  assumes "timer_inv T" "arm u TIMEOUT_ABS d T = Ok T'"
  shows "set_for d u T'" "\<And>t. t \<noteq> u \<Longrightarrow> tos T' t = tos T t"
proof -
  let ?T = "upd_to u (\<lambda>_. (timeout_init TIMEOUT_ABS)\<lparr>to_callback := Some u\<rparr>) T"
  have n: "to_pending (tos T u) = None" and T': "T' = timeouts_add u d ?T" using assms(2) by (auto simp: arm_def split: if_splits)
  have "wheel_inv ?T"
    by (rule wheel_inv_init_timeout [OF _ n]) (use assms(1) in \<open>simp_all add: timer_inv_def timeout_init_def\<close>)
  then have l: "linked {} ?T" "placed {} ?T" by (simp_all add: wheel_inv_def)
  have a: "T' = timeouts_sched u d ?T"
    unfolding T' timeouts_add_def by (simp add: upd_to_def timeout_init_def TIMEOUT_ABS_def TIMEOUT_INT_def)
  note S = timeouts_sched_inv [OF l, where t = u and e = d]
  show "set_for d u T'" using S(5,7) by (simp add: a set_for_def)
  show "tos T' t = tos T t" if "t \<noteq> u" for t using S(4) that by (simp add: a upd_to_def)
qed

lemma set_for_update:
  assumes "timer_inv T" "curtime T \<le> now"
  shows "set_for d t (timeouts_update now T) = set_for d t T"
  using timeouts_update_inv(3,4) [OF _ assms(2)] assms(1) by (simp add: set_for_def timer_inv_def)

lemma set_for_del:
  assumes "timer_inv T" "u \<noteq> t"
  shows "set_for d t (timeouts_del u T) = set_for d t T"
proof -
  have "linked {} T" "placed {} T" using assms(1) by (simp_all add: timer_inv_def wheel_inv_def)
  from timeouts_del_inv(5) [OF this, of u t] assms(2) show ?thesis by (simp add: set_for_def)
qed

lemma set_for_dels:
  "timer_inv T \<Longrightarrow> t \<notin> set us \<Longrightarrow> set_for d t (fold timeouts_del us T) = set_for d t T"
  by (induction us arbitrary: T) (auto simp: set_for_del timer_inv_del)

lemma set_for_arm:
  assumes "timer_inv T" "curtime T \<le> now" "u \<noteq> t" "arm u TIMEOUT_ABS v (timeouts_update now T) = Ok T'"
  shows "set_for d t T' = set_for d t T"
  using arm_effect(2) [OF timer_inv_update [OF assms(1,2)] assms(4), of t] set_for_update [OF assms(1,2)] assms(3)
  by (simp add: set_for_def)

lemma sleeping_keeps:
  assumes "sleeping t T T'" "timer_inv T" "set_for d t T"
  shows "timer_inv T' \<and> set_for d t T'"
  using assms
proof (induction rule: sleeping.induct)
  case (sleep T1 now w u dt T2 w2)
  then have i: "timer_inv T1" "set_for d t T1" by auto
  from sleep.hyps(4) have a: "arm u TIMEOUT_ABS (of_int dt) (timeouts_update (wheel_time now w) T1) = Ok T2"
    by (auto simp: SetTimeout_sleep_def UpdateTimeout_def)
  show ?case using timer_inv_arm [OF timer_inv_update [OF i(1) sleep.hyps(2)] a] set_for_arm [OF i(1) sleep.hyps(2,3) a] i by simp
next
  case (wait T1 now w u dt T2)
  then have i: "timer_inv T1" "set_for d t T1" by auto
  from wait.hyps(4) have a: "arm u TIMEOUT_ABS (of_int dt) (timeouts_update (wheel_time now w) T1) = Ok T2"
    by (simp add: SetTimeout_begin_def UpdateTimeout_def)
  show ?case using timer_inv_arm [OF timer_inv_update [OF i(1) wait.hyps(2)] a] set_for_arm [OF i(1) wait.hyps(2,3) a] i by simp
next
  case (wake T1 u)
  then show ?case by (simp add: SetTimeout_end_def jamscript_timeout_del_def timer_inv_del set_for_del)
next
  case (tick T1 now w T2 w2)
  then have i: "timer_inv T1" "set_for d t T1" by auto
  from tick.hyps(4) have "T2 = fold timeouts_del (queue (UpdateTimeout now w T1) Expired_queue) (UpdateTimeout now w T1)"
    using NotifyAll_drain [OF i(1) tick.hyps(2)] by auto
  moreover have "timer_inv (UpdateTimeout now w T1)" "set_for d t (UpdateTimeout now w T1)"
    using timer_inv_update [OF i(1) tick.hyps(2)] set_for_update [OF i(1) tick.hyps(2)] i(2) by (simp_all add: UpdateTimeout_def)
  ultimately show ?case using tick.hyps(3) timer_inv_dels set_for_dels by (simp add: taken_def)
qed simp

lemma taken_iff:
  assumes "timer_inv T" "set_for d t T" "curtime T \<le> wheel_time now w"
  shows "t \<in> taken now w T \<longleftrightarrow> d \<le> wheel_time now w"
proof -
  have i: "wheel_inv T" using assms(1) by (simp add: timer_inv_def)
  note U = timeouts_update_inv [OF i assms(3)]
  have "t \<in> taken now w T \<longleftrightarrow> to_pending (tos (timeouts_update (wheel_time now w) T) t) = Some Expired_queue"
    using U(1) unfolding taken_def UpdateTimeout_def wheel_inv_def linked_def by blast
  then show ?thesis using U(5) assms(2) by (simp add: set_for_def)
qed

lemma of_int_le_iff_64:
  assumes "0 \<le> a" "a < 2 ^ 64" "0 \<le> b" "b < 2 ^ 64"
  shows "(of_int a :: u64) \<le> of_int b \<longleftrightarrow> a \<le> b"
  using assms by (simp add: word_le_def uint_word_of_int take_bit_int_eq_self)

text \<open>C6. A task that sleeps for some time is woken by exactly the first round of the timer thread whose clock has reached the
  end of the sleep, whatever other tasks did with the timer in between, however often the timer thread made rounds before,
  and on whatever wheel the timeout was: never early, and never missed. So the assertion that the task makes
  when it is back, at a clock that does not run backwards, cannot fail. The call reads the clock three times: at \<open>start\<close> for
  the assertion, at \<open>now0\<close> for the end of the sleep, at \<open>now\<close> for the wheel.\<close>

theorem sleep_wakes_on_time:
  assumes "timer_start T0" "timer_step\<^sup>*\<^sup>* T0 T" "curtime T \<le> wheel_time now w"
    and "ctask_SleepFor_begin t dt now0 now T w = Ok (T1, w1)" "sleeping t T1 T2"
    and "curtime T2 \<le> wheel_time now2 w2" "schedulerStartTime w2 = schedulerStartTime w"
    and "schedulerStartTime w \<le> now0" "0 \<le> dt" "now0 \<le> now2" "start \<le> now0"
    and "now0 + dt - schedulerStartTime w < 2 ^ 64" "now2 - schedulerStartTime w < 2 ^ 64"
  shows "\<exists>ts T3. NotifyAllTimeouts now2 T2 w2 = Some (obind (each TimeoutCallback ts w2) (\<lambda>w3. Ok (T3, w3)))
    \<and> distinct ts \<and> (t \<in> set ts \<longleftrightarrow> now0 + dt \<le> now2)
    \<and> (\<forall>now3 \<ge> now2. t \<in> set ts \<longrightarrow> ctask_SleepFor_end start dt now3 = Ok ())"
proof -
  let ?d = "of_int (now0 - schedulerStartTime w + dt) :: u64"
  have i: "timer_inv T" by (rule timers.reachable_inv [OF assms(1,2)])
  have a: "arm t TIMEOUT_ABS ?d (timeouts_update (wheel_time now w) T) = Ok T1"
    using assms(4) by (auto simp: ctask_SleepFor_begin_def thief_SleepFor_def rib_SleepFor_def SetTimeoutFor_def
        SetTimeout_sleep_def UpdateTimeout_def split: SchedulerPtr.splits)
  note iu = timer_inv_update [OF i assms(3)]
  have s: "timer_inv T2" "set_for ?d t T2"
    using sleeping_keeps [OF assms(5) timer_inv_arm [OF iu a] arm_effect(1) [OF iu a]] by simp_all
  have "?d \<le> wheel_time now2 w2 \<longleftrightarrow> now0 + dt \<le> now2"
    unfolding wheel_time_def assms(7) by (subst of_int_le_iff_64) (use assms(8-13) in auto)
  then have iff: "t \<in> taken now2 w2 T2 \<longleftrightarrow> now0 + dt \<le> now2" using taken_iff [OF s assms(6)] by simp
  have "wheel_inv (UpdateTimeout now2 w2 T2)"
    using timer_inv_update [OF s(1) assms(6)] by (simp add: timer_inv_def UpdateTimeout_def)
  then have "distinct (queue (UpdateTimeout now2 w2 T2) Expired_queue)" unfolding wheel_inv_def linked_def by blast
  with NotifyAll_drain [OF s(1) assms(6)] iff assms(11) show ?thesis unfolding taken_def by (fastforce simp: ctask_SleepFor_end_def)
qed

text \<open>Task 2 calls at time 18 and sleeps from time 19 to time 50, armed at time 20, while the timeout of task 1 is already due.\<close>

theorem sleep_wakes_on_time_witness:
  "\<exists>ts T3. NotifyAllTimeouts 50 tick2 (demo_cv CvZero CvZero) =
       Some (obind (each TimeoutCallback ts (demo_cv CvZero CvZero)) (\<lambda>w3. Ok (T3, w3)))
     \<and> 2 \<in> set ts \<and> ctask_SleepFor_end 18 31 51 = Ok ()"
proof -
  let ?w = "demo_cv CvZero CvZero"
  have s: "schedulerStartTime ?w = 0" by (simp add: demo_cv_simps)
  have c: "curtime tick1 = 0" "curtime tick2 = 20" "to_pending (tos (timeouts_update 20 tick1) 2) = None" by code_simp+
  have "SetTimeoutFor 2 31 19 20 tick1 ?w = Ok (tick2, upd_task 2 (cvStatus_update (\<lambda>_. CvZero)) ?w)"
    using c(3) by (simp add: SetTimeoutFor_def SetTimeout_sleep_def UpdateTimeout_def wheel_time_def s arm_def tick2_def)
  then have b: "ctask_SleepFor_begin 2 31 19 20 tick1 ?w = Ok (tick2, upd_task 2 (cvStatus_update (\<lambda>_. CvZero)) ?w)"
    by (simp add: ctask_SleepFor_begin_def thief_SleepFor_def rib_SleepFor_def split: SchedulerPtr.split)
  have "curtime tick1 \<le> wheel_time 20 ?w" "curtime tick2 \<le> wheel_time 50 ?w" using c by (simp_all add: wheel_time_def s)
  from sleep_wakes_on_time [OF tick_reach(1,2) this(1) b sleeping.start this(2), of 18] s show ?thesis
    by (auto simp: ctask_SleepFor_end_def)
qed

end
