(* ===== verification/Context.thy ===== *)
theory Context
  imports Prelude
begin

unbundle bit_operations_syntax

text \<open>
  Coroutine contexts (\<^verbatim>\<open>include/core/coroutine/context.h\<close>, \<^verbatim>\<open>src/core/coroutine/context.c\<close>): the
  stack layout that \<^verbatim>\<open>CreateContext\<close> prepares and the assembly routine \<^verbatim>\<open>SwapToContext\<close>, as a list of
  instructions that runs on a machine with registers and byte-addressed memory, for x86-64 and
  for aarch64. A switch away and a switch back together behave like a call that returns.
\<close>

section \<open>Byte memory\<close>

type_synonym memory = "u64 \<Rightarrow> u8"

definition mem_read :: "memory \<Rightarrow> u64 \<Rightarrow> nat \<Rightarrow> u8 list" where
  "mem_read m a n = map (\<lambda>i. m (a + of_nat i)) [0..<n]"

definition mem_write :: "u64 \<Rightarrow> u8 list \<Rightarrow> memory \<Rightarrow> memory" where
  "mem_write a bs m = (\<lambda>x. if unat (x - a) < length bs then bs ! unat (x - a) else m x)"

text \<open>Both processors store words with the least significant byte first.\<close>

definition load64 :: "memory \<Rightarrow> u64 \<Rightarrow> u64" where
  "load64 m a = foldr (\<lambda>i v. push_bit (8 * i) (ucast (m (a + of_nat i))) OR v) [0..<8] 0"

definition word_bytes :: "u64 \<Rightarrow> u8 list" where
  "word_bytes v = map (\<lambda>i. ucast (drop_bit (8 * i) v)) [0..<8]"

definition store64 :: "u64 \<Rightarrow> u64 \<Rightarrow> memory \<Rightarrow> memory" where
  "store64 a v m = mem_write a (word_bytes v) m"

lemma length_mem_read [simp]: "length (mem_read m a n) = n"
  by (simp add: mem_read_def)

lemma nth_mem_read [simp]: "i < n \<Longrightarrow> mem_read m a n ! i = m (a + of_nat i)"
  by (simp add: mem_read_def)

lemma mem_write_at:
  "i < length bs \<Longrightarrow> i < 2 ^ 64 \<Longrightarrow> mem_write a bs m (a + of_nat i) = bs ! i"
  by (simp add: mem_write_def unat_of_nat)

lemma mem_read_write:
  assumes "length bs = n" "n \<le> 2 ^ 64"
  shows "mem_read (mem_write a bs m) a n = bs"
proof (rule nth_equalityI)
  fix i assume "i < length (mem_read (mem_write a bs m) a n)"
  with assms show "mem_read (mem_write a bs m) a n ! i = bs ! i" by (simp add: mem_write_at)
qed (simp add: assms)

lemma mem_write_read_same:
  assumes "unat (x - a) < n"
  shows "mem_write a (mem_read m a n) m' x = m x"
  using assms by (simp add: mem_write_def)

lemma mem_write_outside: "length bs \<le> unat (x - a) \<Longrightarrow> mem_write a bs m x = m x"
  by (simp add: mem_write_def)

lemma length_word_bytes [simp]: "length (word_bytes v) = 8"
  by (simp add: word_bytes_def)

lemma store64_at: "i < 8 \<Longrightarrow> store64 a v m (a + of_nat i) = ucast (drop_bit (8 * i) v)"
  by (simp add: store64_def mem_write_at) (simp add: word_bytes_def)

lemma byte_cover: "n < 64 \<Longrightarrow> \<exists>i \<in> set [0..<8]. 8 * i \<le> n \<and> n - 8 * i < (8 :: nat)"
  by (rule bexI [of _ "n div 8"]) auto

lemma bit_foldr_or:
  "bit (foldr (\<lambda>i v. f i OR v) is 0) n \<longleftrightarrow> (\<exists>i \<in> set is. bit (f i :: u64) n)"
  by (induction "is") (auto simp: bit_or_iff)

lemma load64_store64 [simp]: "load64 (store64 a v m) a = v"
proof (rule bit_word_eqI)
  fix n assume "n < LENGTH(64)"
  then have n: "n < 64" by simp
  have "bit (load64 (store64 a v m) a) n
      \<longleftrightarrow> (\<exists>i \<in> set [0..<8]. 8 * i \<le> n \<and> n - 8 * i < 8 \<and> bit v n)"
    unfolding load64_def bit_foldr_or
    by (rule bex_cong [OF refl]) (use n in \<open>auto simp: store64_at bit_push_bit_iff bit_ucast_iff bit_drop_bit_eq\<close>)
  with byte_cover [OF n] show "bit (load64 (store64 a v m) a) n = bit v n" by blast
qed

lemma store64_outside: "8 \<le> unat (x - a) \<Longrightarrow> store64 a v m x = m x"
  by (simp add: store64_def mem_write_outside)

section \<open>Contexts and instructions\<close>

record JAMScriptUserContext =
  registers :: "u64 list"
  ss_sp :: u64
  ss_size :: u64

text \<open>The machine that one thread sees: its registers and program counter, the memory and the
  context objects by address. Memory operands relative to the stack pointer address the stack,
  those relative to the pointer arguments address the words of a context object.\<close>

record 'r mach =
  gpr :: "'r \<Rightarrow> u64"
  pc :: u64
  mem :: memory
  ctxs :: "u64 \<Rightarrow> JAMScriptUserContext"

datatype 'r instr =
    LoadStack nat 'r 'r
  | Lea nat 'r 'r
  | StoreCtx 'r nat 'r
  | LoadCtx nat 'r 'r
  | MovReg 'r 'r
  | JmpReg 'r

fun exec_instr :: "'r instr \<Rightarrow> 'r mach \<Rightarrow> 'r mach" where
  "exec_instr (LoadStack off b r) m = m\<lparr>gpr := (gpr m)(r := load64 (mem m) (gpr m b + of_nat off))\<rparr>"
| "exec_instr (Lea off b r) m = m\<lparr>gpr := (gpr m)(r := gpr m b + of_nat off)\<rparr>"
| "exec_instr (StoreCtx r off b) m =
     m\<lparr>ctxs := (ctxs m)(gpr m b := (ctxs m (gpr m b))
        \<lparr>registers := (registers (ctxs m (gpr m b)))[off div 8 := gpr m r]\<rparr>)\<rparr>"
| "exec_instr (LoadCtx off b r) m =
     m\<lparr>gpr := (gpr m)(r := registers (ctxs m (gpr m b)) ! (off div 8))\<rparr>"
| "exec_instr (MovReg a r) m = m\<lparr>gpr := (gpr m)(r := gpr m a)\<rparr>"
| "exec_instr (JmpReg r) m = m\<lparr>pc := gpr m r\<rparr>"

definition exec_code :: "'r instr list \<Rightarrow> 'r mach \<Rightarrow> 'r mach" where
  "exec_code is m = fold exec_instr is m"

subsection \<open>x86-64\<close>

datatype reg = RAX | RCX | RDX | RSI | RDI | R8 | R12 | R13 | R14 | R15 | RBX | RBP | RSP

definition SwapToContext :: "reg instr list" where
  "SwapToContext =
    [LoadStack 0 RSP R8, Lea 8 RSP RCX,
     StoreCtx R12 0 RDI, StoreCtx R13 8 RDI, StoreCtx R14 16 RDI, StoreCtx R15 24 RDI,
     StoreCtx R8 32 RDI, StoreCtx RCX 40 RDI, StoreCtx RBX 48 RDI, StoreCtx RBP 56 RDI,
     LoadCtx 0 RSI R12, LoadCtx 8 RSI R13, LoadCtx 16 RSI R14, LoadCtx 24 RSI R15,
     LoadCtx 32 RSI RAX, LoadCtx 40 RSI RCX, LoadCtx 48 RSI RBX, LoadCtx 56 RSI RBP,
     MovReg RCX RSP, MovReg RDX RDI, JmpReg RAX]"

text \<open>\<^verbatim>\<open>CreateContext\<close> rounds the top of the stack down to a multiple of 16, leaves room for a null
  return address below it, and makes the first switch enter \<open>func\<close>.\<close>

definition stack_top :: "u64 \<Rightarrow> u64 \<Rightarrow> u64" where
  "stack_top sp sz = push_bit 4 (drop_bit 4 (sz - push_bit 1 8 + sp))"

definition CreateContext :: "u64 \<Rightarrow> u64 \<Rightarrow> reg mach \<Rightarrow> reg mach" where
  "CreateContext ucp func m =
    (let c = ctxs m ucp; u_p = stack_top (ss_sp c) (ss_size c) in
     m\<lparr>ctxs := (ctxs m)(ucp := c\<lparr>registers := (registers c)[4 := func, 5 := u_p - 8]\<rparr>),
       mem := store64 (u_p - 8) 0 (mem m)\<rparr>)"

subsection \<open>aarch64\<close>

datatype a64reg = X nat | FP | LR | SP | D nat

definition SwapToContext_a64 :: "a64reg instr list" where
  "SwapToContext_a64 =
    [StoreCtx (X 16) 0 (X 0), StoreCtx (X 17) 8 (X 0), StoreCtx (X 19) 16 (X 0), StoreCtx (X 20) 24 (X 0),
     StoreCtx (X 21) 32 (X 0), StoreCtx (X 22) 40 (X 0), StoreCtx (X 23) 48 (X 0), StoreCtx (X 24) 56 (X 0),
     StoreCtx (X 25) 64 (X 0), StoreCtx (X 26) 72 (X 0), StoreCtx (X 27) 80 (X 0), StoreCtx (X 28) 88 (X 0),
     StoreCtx FP 96 (X 0), StoreCtx LR 104 (X 0), MovReg SP (X 3), StoreCtx (X 3) 112 (X 0),
     StoreCtx (D 8) 120 (X 0), StoreCtx (D 9) 128 (X 0), StoreCtx (D 10) 136 (X 0), StoreCtx (D 11) 144 (X 0),
     StoreCtx (D 12) 152 (X 0), StoreCtx (D 13) 160 (X 0), StoreCtx (D 14) 168 (X 0), StoreCtx (D 15) 176 (X 0),
     LoadCtx 0 (X 1) (X 16), LoadCtx 8 (X 1) (X 17), LoadCtx 16 (X 1) (X 19), LoadCtx 24 (X 1) (X 20),
     LoadCtx 32 (X 1) (X 21), LoadCtx 40 (X 1) (X 22), LoadCtx 48 (X 1) (X 23), LoadCtx 56 (X 1) (X 24),
     LoadCtx 64 (X 1) (X 25), LoadCtx 72 (X 1) (X 26), LoadCtx 80 (X 1) (X 27), LoadCtx 88 (X 1) (X 28),
     LoadCtx 96 (X 1) FP, LoadCtx 104 (X 1) LR, LoadCtx 112 (X 1) (X 3), MovReg (X 3) SP,
     LoadCtx 120 (X 1) (D 8), LoadCtx 128 (X 1) (D 9), LoadCtx 136 (X 1) (D 10), LoadCtx 144 (X 1) (D 11),
     LoadCtx 152 (X 1) (D 12), LoadCtx 160 (X 1) (D 13), LoadCtx 168 (X 1) (D 14), LoadCtx 176 (X 1) (D 15),
     MovReg (X 2) (X 0), JmpReg LR]"

text \<open>\<^verbatim>\<open>memset\<close> over the first \<open>n\<close> words of a context object: the array of 23 registers is followed by the
  address and by the size of the stack.\<close>

definition clear_words :: "nat \<Rightarrow> JAMScriptUserContext \<Rightarrow> JAMScriptUserContext" where
  "clear_words n c =
    (let c1 = c\<lparr>registers := map (\<lambda>i. if i < n then 0 else registers c ! i) [0..<length (registers c)]\<rparr>;
         c2 = (if 23 < n then c1\<lparr>ss_sp := 0\<rparr> else c1)
     in if 24 < n then c2\<lparr>ss_size := 0\<rparr> else c2)"

definition CreateContext_a64 :: "u64 \<Rightarrow> u64 \<Rightarrow> a64reg mach \<Rightarrow> a64reg mach" where
  "CreateContext_a64 ucp func m =
    (let c = clear_words 25 (ctxs m ucp); u_p = stack_top (ss_sp c) (ss_size c) in
     m\<lparr>ctxs := (ctxs m)(ucp := c\<lparr>registers := (registers c)[13 := func, 14 := u_p]\<rparr>)\<rparr>)"

section \<open>What a switch does\<close>

text \<open>The words a switch saves: the registers a callee must keep, the return address, and the stack
  pointer after the return.\<close>

definition saved_regs :: "reg mach \<Rightarrow> u64 list" where
  "saved_regs m = [gpr m R12, gpr m R13, gpr m R14, gpr m R15, load64 (mem m) (gpr m RSP), gpr m RSP + 8,
     gpr m RBX, gpr m RBP]"

definition ctxs_saved :: "reg mach \<Rightarrow> u64 \<Rightarrow> JAMScriptUserContext" where
  "ctxs_saved m = (ctxs m)(gpr m RDI := (ctxs m (gpr m RDI))\<lparr>registers := saved_regs m\<rparr>)"

lemma update_all8:
  assumes "length xs = 8"
  shows "xs[0 := a, Suc 0 := b, 2 := c, 3 := d, 4 := e, 5 := f, 6 := g, 7 := h] = [a, b, c, d, e, f, g, h]"
proof -
  from assms obtain x0 x1 x2 x3 x4 x5 x6 x7 where "xs = [x0, x1, x2, x3, x4, x5, x6, x7]"
    by (auto simp: numeral_eq_Suc length_Suc_conv)
  then show ?thesis by (simp add: numeral_eq_Suc)
qed

definition loaded_regs :: "u64 list \<Rightarrow> u64 \<Rightarrow> (reg \<Rightarrow> u64) \<Rightarrow> reg \<Rightarrow> u64" where
  "loaded_regs n arg old r = (case r of R12 \<Rightarrow> n ! 0 | R13 \<Rightarrow> n ! 1 | R14 \<Rightarrow> n ! 2 | R15 \<Rightarrow> n ! 3
     | RSP \<Rightarrow> n ! 5 | RBX \<Rightarrow> n ! 6 | RBP \<Rightarrow> n ! 7 | RDI \<Rightarrow> arg | _ \<Rightarrow> old r)"

lemma exec_SwapToContext:
  assumes "length (registers (ctxs m (gpr m RDI))) = 8"
  shows "ctxs (exec_code SwapToContext m) = ctxs_saved m"
    and "mem (exec_code SwapToContext m) = mem m"
    and "pc (exec_code SwapToContext m) = registers (ctxs_saved m (gpr m RSI)) ! 4"
    and "r \<in> {R12, R13, R14, R15, RSP, RBX, RBP, RDI} \<Longrightarrow>
      gpr (exec_code SwapToContext m) r = loaded_regs (registers (ctxs_saved m (gpr m RSI))) (gpr m RDX) (gpr m) r"
  using update_all8 [OF assms]
  by (auto simp: exec_code_def SwapToContext_def ctxs_saved_def saved_regs_def loaded_regs_def)

text \<open>A call of the routine from C++ code: the arguments are in the argument registers and the
  return address is pushed.\<close>

definition call_SwapToContext :: "u64 \<Rightarrow> u64 \<Rightarrow> u64 \<Rightarrow> u64 \<Rightarrow> reg mach \<Rightarrow> reg mach" where
  "call_SwapToContext ret old new arg m =
     exec_code SwapToContext
       (m\<lparr>gpr := (gpr m)(RDI := old, RSI := new, RDX := arg, RSP := gpr m RSP - 8),
          mem := store64 (gpr m RSP - 8) ret (mem m)\<rparr>)"

definition call_saved :: "u64 \<Rightarrow> reg mach \<Rightarrow> u64 list" where
  "call_saved ret m = [gpr m R12, gpr m R13, gpr m R14, gpr m R15, ret, gpr m RSP, gpr m RBX, gpr m RBP]"

definition callee_saved :: "reg set" where
  "callee_saved = {R12, R13, R14, R15, RSP, RBX, RBP}"

lemma call_SwapToContext_effect:
  fixes ret :: u64
  assumes "length (registers (ctxs m old)) = 8"
  defines "cs \<equiv> (ctxs m)(old := (ctxs m old)\<lparr>registers := call_saved ret m\<rparr>)"
  shows "ctxs (call_SwapToContext ret old new arg m) = cs"
    and "mem (call_SwapToContext ret old new arg m) = store64 (gpr m RSP - 8) ret (mem m)"
    and "pc (call_SwapToContext ret old new arg m) = registers (cs new) ! 4"
    and "r \<in> insert RDI callee_saved \<Longrightarrow>
      gpr (call_SwapToContext ret old new arg m) r = loaded_regs (registers (cs new)) arg (gpr m) r"
  unfolding call_SwapToContext_def cs_def callee_saved_def
  using assms(1) by (auto simp: exec_SwapToContext ctxs_saved_def saved_regs_def call_saved_def loaded_regs_def)

text \<open>A context that a call saved is entered again, on any thread, as if the call had returned: at its
  return address, with the stack pointer and the registers a callee must keep.\<close>

lemma switch_round_trip:
  fixes ret2 arg :: u64
  assumes "registers (ctxs m2 c) = call_saved ret1 m1" "length (registers (ctxs m2 old)) = 8" "old \<noteq> c"
  defines "m3 \<equiv> call_SwapToContext ret2 old c arg m2"
  shows "pc m3 = ret1 \<and> gpr m3 RDI = arg \<and> (\<forall>r \<in> callee_saved. gpr m3 r = gpr m1 r)"
  unfolding m3_def
  using assms(1-3)
  by (auto simp: call_SwapToContext_effect callee_saved_def loaded_regs_def call_saved_def)

section \<open>The first switch\<close>

lemma round16: "unat (push_bit 4 (drop_bit 4 (w :: u64))) = unat w div 16 * 16"
proof -
  have lt: "unat w div 16 * 16 < 2 ^ 64"
    using order_le_less_trans [OF div_times_less_eq_dividend unsigned_less [of w, where 'a = nat]] by simp
  have "unat (drop_bit 4 w) = unat w div 16" using unat_drop_bit_eq [of 4 w] unfolding drop_bit_eq_div [of 4 "unat w"] by simp
  then have "unat (drop_bit 4 w * 16) = unat w div 16 * 16"
    using lt by (subst unat_mult_lem [THEN iffD1]) simp_all
  then show ?thesis by (simp add: push_bit_eq_mult)
qed

text \<open>A stack that does not wrap around the address space and has room for the alignment, the null
  return address and the two words the layout leaves free at the top.\<close>

definition stack_fits :: "u64 \<Rightarrow> u64 \<Rightarrow> bool" where
  "stack_fits sp sz \<longleftrightarrow> 40 \<le> unat sz \<and> unat sp + unat sz < 2 ^ 64"

lemma div16_bounds: "40 \<le> n \<Longrightarrow> n < (n - 16) div 16 * 16 + 32 \<and> (n - 16) div 16 * 16 + 16 \<le> (n :: nat)"
  using div_mult_mod_eq [of "n - 16" 16] mod_less_divisor [of 16 "n - 16"] by linarith

lemma stack_top_bounds:
  assumes "stack_fits sp sz"
  shows "unat (stack_top sp sz) = (unat sp + unat sz - 16) div 16 * 16"
    and "unat sp + unat sz < unat (stack_top sp sz) + 32"
    and "unat (stack_top sp sz) + 16 \<le> unat sp + unat sz"
    and "unat (stack_top sp sz - 8) = unat (stack_top sp sz) - 8"
proof -
  have "16 \<le> sz" using assms by (simp add: stack_fits_def word_le_nat_alt)
  then have "unat (sz - 16) = unat sz - 16" by (simp add: unat_sub)
  moreover from this have "unat (sz - 16) + unat sp < 2 ^ 64" using assms unfolding stack_fits_def by linarith
  ultimately have "unat (sz - 16 + sp) = unat sp + unat sz - 16"
    using assms unat_add_lem [of "sz - 16" sp] by (simp add: stack_fits_def)
  then show top: "unat (stack_top sp sz) = (unat sp + unat sz - 16) div 16 * 16"
    by (simp add: stack_top_def round16)
  then show "unat sp + unat sz < unat (stack_top sp sz) + 32"
    and "unat (stack_top sp sz) + 16 \<le> unat sp + unat sz"
    using div16_bounds [of "unat sp + unat sz"] assms by (simp_all add: stack_fits_def)
  then have "8 \<le> stack_top sp sz" using assms by (simp add: stack_fits_def word_le_nat_alt)
  then show "unat (stack_top sp sz - 8) = unat (stack_top sp sz) - 8" by (simp add: unat_sub)
qed

lemma mod_diff_eq_16: "n = k * 16 \<Longrightarrow> 8 < n \<Longrightarrow> (n - 8) mod 16 = (8 :: nat)"
  by (cases k) simp_all

text \<open>C17. The first switch to a context that \<^verbatim>\<open>CreateContext\<close> prepared, at any later time and on any thread,
  enters the given function with the given argument, on a stack pointer that lies inside the
  stack and is aligned as the calling convention asks for at a function's entry (a multiple of 16 plus
  8), with a null return address on top of the stack.\<close>

theorem first_switch_enters:
  assumes "stack_fits (ss_sp (ctxs m ucp)) (ss_size (ctxs m ucp))" "length (registers (ctxs m ucp)) = 8"
    and "ctxs m2 ucp = ctxs (CreateContext ucp func m) ucp" "length (registers (ctxs m2 old)) = 8" "old \<noteq> ucp"
  shows "pc (call_SwapToContext ret old ucp arg m2) = func
    \<and> gpr (call_SwapToContext ret old ucp arg m2) RDI = arg
    \<and> unat (gpr (call_SwapToContext ret old ucp arg m2) RSP) mod 16 = 8
    \<and> unat (ss_sp (ctxs m ucp)) \<le> unat (gpr (call_SwapToContext ret old ucp arg m2) RSP)
    \<and> unat (gpr (call_SwapToContext ret old ucp arg m2) RSP) + 24
        \<le> unat (ss_sp (ctxs m ucp)) + unat (ss_size (ctxs m ucp))
    \<and> load64 (mem (CreateContext ucp func m)) (gpr (call_SwapToContext ret old ucp arg m2) RSP) = 0"
proof -
  define top where "top = stack_top (ss_sp (ctxs m ucp)) (ss_size (ctxs m ucp))"
  note b = stack_top_bounds [OF assms(1), folded top_def]
  have regs: "registers (ctxs m2 ucp) ! 4 = func" "registers (ctxs m2 ucp) ! 5 = top - 8"
    using assms(2,3) by (simp_all add: CreateContext_def Let_def top_def)
  then have entry: "pc (call_SwapToContext ret old ucp arg m2) = func"
      "gpr (call_SwapToContext ret old ucp arg m2) RDI = arg"
      "gpr (call_SwapToContext ret old ucp arg m2) RSP = top - 8"
    using assms(4,5) by (auto simp: call_SwapToContext_effect callee_saved_def loaded_regs_def)
  have sz: "40 \<le> unat (ss_size (ctxs m ucp))" using assms(1) by (simp add: stack_fits_def)
  have t8: "8 < unat top" using b(2) sz by linarith
  have range: "unat (ss_sp (ctxs m ucp)) \<le> unat (top - 8)"
      "unat (top - 8) + 24 \<le> unat (ss_sp (ctxs m ucp)) + unat (ss_size (ctxs m ucp))"
    using b(2,3) sz t8 unfolding b(4) by linarith+
  from t8 have "unat (top - 8) mod 16 = 8" unfolding b(4) by (rule mod_diff_eq_16 [OF b(1)])
  moreover have "load64 (mem (CreateContext ucp func m)) (top - 8) = 0"
    by (simp add: CreateContext_def Let_def top_def)
  ultimately show ?thesis using entry range by simp
qed

definition start_mach :: "reg mach" where
  "start_mach = \<lparr>gpr = (\<lambda>_. 4096), pc = 0, mem = (\<lambda>_. 255),
     ctxs = (\<lambda>_. \<lparr>registers = replicate 8 1, ss_sp = 1000, ss_size = 500\<rparr>)\<rparr>"

lemma first_switch_enters_witness:
  "pc (call_SwapToContext 5 2 1 9 (CreateContext 1 77 start_mach)) = 77
    \<and> unat (gpr (call_SwapToContext 5 2 1 9 (CreateContext 1 77 start_mach)) RSP) mod 16 = 8"
  using first_switch_enters [of start_mach 1 "CreateContext 1 77 start_mach" 77 2 5 9]
  by (simp add: start_mach_def stack_fits_def CreateContext_def Let_def)

section \<open>The aarch64 layout\<close>

text \<open>C24. On aarch64 the array has 23 registers, but \<^verbatim>\<open>CreateContext\<close> clears 25 words of it, and so the
  address and the size of the stack that follow it, before it reads them: whatever stack the task
  was given, its first switch starts at the top of the address space.\<close>

theorem CreateContext_a64_loses_stack:
  "ss_sp (ctxs (CreateContext_a64 ucp func m) ucp) = 0
    \<and> ss_size (ctxs (CreateContext_a64 ucp func m) ucp) = 0
    \<and> (length (registers (ctxs m ucp)) = 23 \<longrightarrow>
         registers (ctxs (CreateContext_a64 ucp func m) ucp) ! 14 = - 16)"
proof -
  have "stack_top 0 0 = - 16" by (simp add: stack_top_def)
  then show ?thesis by (simp add: CreateContext_a64_def clear_words_def Let_def)
qed

definition start_a64 :: "a64reg mach" where
  "start_a64 = \<lparr>gpr = (\<lambda>_. 4096), pc = 0, mem = (\<lambda>_. 255),
     ctxs = (\<lambda>_. \<lparr>registers = replicate 23 1, ss_sp = 1000, ss_size = 500\<rparr>)\<rparr>"

lemma CreateContext_a64_loses_stack_witness:
  "registers (ctxs (CreateContext_a64 1 77 start_a64) 1) ! 14 = - 16"
  using CreateContext_a64_loses_stack [of 1 77 start_a64] by (simp add: start_a64_def)

text \<open>The switch itself saves and loads the same words.\<close>

lemma a64_round_trip:
  assumes "length (registers (ctxs m (gpr m (X 0)))) = 23" "gpr m (X 1) = gpr m (X 0)"
    and "r \<in> {X 16, X 17, X 19, X 20, X 21, X 22, X 23, X 24, X 25, X 26, X 27, X 28, FP, LR, SP, D 8, D 9, D 10, D 11,
      D 12, D 13, D 14, D 15}"
  shows "gpr (exec_code SwapToContext_a64 m) r = gpr m r \<and> pc (exec_code SwapToContext_a64 m) = gpr m LR"
  using assms unfolding exec_code_def SwapToContext_a64_def by auto

end
