(* ===== verification/StackTask.thy ===== *)
theory StackTask
  imports Task Context
begin

text \<open>
  The stacks of tasks (\<^verbatim>\<open>include/core/task/task.hpp\<close>, \<^verbatim>\<open>src/core/task/task.cc\<close>): a task either has a stack of
  its own, or it runs on the shared stack of its scheduler and copies the used part of it to a
  private array whenever it leaves. Threads interleave, one for each scheduler; each sees the
  machine of \<^verbatim>\<open>context.c\<close>.
\<close>

section \<open>State\<close>

text \<open>A task object with its own address, the address of its context, and the private copy of its
  part of the shared stack (\<open>None\<close> for a null pointer, and otherwise the array).\<close>

record StackTask = TaskInterface +
  address :: u64
  uContext :: u64
  privateStack :: "u8 list option"
  privateStackSize :: u32
  privateStackSizeUpperBound :: u32

record SchedulerBase =
  sharedStackBegin :: u64
  sharedStackAlignedEnd :: u64
  sharedStackAlignedEndAct :: u64
  sharedStackSizeActual :: u32
  sharedStackSizeAligned :: u32
  schedulerContext :: u64
  toContinue :: bool

record coro =
  cpus :: "SchedulerPtr \<Rightarrow> (reg \<Rightarrow> u64) \<times> u64"
  cmem :: memory
  cctxs :: "u64 \<Rightarrow> JAMScriptUserContext"
  ctasks :: "tid \<Rightarrow> StackTask"
  cscheds :: "SchedulerPtr \<Rightarrow> SchedulerBase"

definition view :: "SchedulerPtr \<Rightarrow> coro \<Rightarrow> reg mach" where
  "view p c = \<lparr>gpr = fst (cpus c p), pc = snd (cpus c p), mem = cmem c, ctxs = cctxs c\<rparr>"

definition put :: "SchedulerPtr \<Rightarrow> reg mach \<Rightarrow> coro \<Rightarrow> coro" where
  "put p m c = c\<lparr>cpus := (cpus c)(p := (gpr m, pc m)), cmem := mem m, cctxs := ctxs m\<rparr>"

definition set_task :: "tid \<Rightarrow> StackTask \<Rightarrow> coro \<Rightarrow> coro" where
  "set_task t x c = c\<lparr>ctasks := (ctasks c)(t := x)\<rparr>"

definition sched_of :: "tid \<Rightarrow> coro \<Rightarrow> SchedulerBase" where
  "sched_of t c = cscheds c (scheduler (ctasks c t))"

definition switch :: "SchedulerPtr \<Rightarrow> u64 \<Rightarrow> u64 \<Rightarrow> u64 \<Rightarrow> u64 \<Rightarrow> coro \<Rightarrow> coro" where
  "switch p ret old new arg c = put p (call_SwapToContext ret old new arg (view p c)) c"

section \<open>Construction\<close>

text \<open>The constructor of a scheduler lays out its shared stack, allocated at \<open>b\<close>.\<close>

definition new_SchedulerBase :: "u64 \<Rightarrow> u32 \<Rightarrow> u64 \<Rightarrow> memory \<Rightarrow> SchedulerBase \<times> memory" where
  "new_SchedulerBase b sz ctx m =
    (let u_p = stack_top b (ucast sz) in
     (\<lparr>sharedStackBegin = b, sharedStackAlignedEnd = u_p, sharedStackAlignedEndAct = u_p - 8,
       sharedStackSizeActual = sz, sharedStackSizeAligned = sz - 16 - 16, schedulerContext = ctx, toContinue = True\<rparr>,
      store64 (u_p - 8) 0 m))"

definition SchedulerBase_ShutDown :: "SchedulerPtr \<Rightarrow> coro \<Rightarrow> coro" where
  "SchedulerBase_ShutDown p c = c\<lparr>cscheds := (cscheds c)(p := (cscheds c p)\<lparr>toContinue := False\<rparr>)\<rparr>"

text \<open>The call from a task is virtual. A thief's override calls that of the main scheduler, which clears the
  main scheduler's flag, cancels the remote requests and wakes its thread; the state here has the flag.\<close>

definition ShutDown_override :: "SchedulerPtr \<Rightarrow> coro \<Rightarrow> coro" where
  "ShutDown_override p c = (case p of RIBPtr \<Rightarrow> SchedulerBase_ShutDown RIBPtr c | _ \<Rightarrow> SchedulerBase_ShutDown RIBPtr c)"

text \<open>A context that is cleared and created anew on a stack, entering \<^verbatim>\<open>ExecuteC\<close> at the address \<open>entry\<close>.\<close>

definition init_context :: "u64 \<Rightarrow> u64 \<Rightarrow> u64 \<Rightarrow> u64 \<Rightarrow> reg mach \<Rightarrow> reg mach" where
  "init_context ucp sp sz entry m =
     CreateContext ucp entry
       (m\<lparr>ctxs := (ctxs m)(ucp := \<lparr>registers = replicate 8 0, ss_sp = sp, ss_size = sz\<rparr>)\<rparr>)"

definition on_memory :: "(reg mach \<Rightarrow> reg mach) \<Rightarrow> coro \<Rightarrow> coro" where
  "on_memory f c = (let m = f (view RIBPtr c) in c\<lparr>cmem := mem m, cctxs := ctxs m\<rparr>)"

definition RefreshContext :: "u64 \<Rightarrow> tid \<Rightarrow> coro \<Rightarrow> coro" where
  "RefreshContext entry t c =
     on_memory (init_context (uContext (ctasks c t)) (sharedStackBegin (sched_of t c))
       (ucast (sharedStackSizeActual (sched_of t c))) entry) c"

definition new_StackTask :: "TaskType \<Rightarrow> StackKind \<Rightarrow> SchedulerPtr \<Rightarrow> u64 \<Rightarrow> u64 \<Rightarrow> StackTask" where
  "new_StackTask ty k s a uc = TaskInterface.extend (new_TaskInterface ty k s)
     \<lparr>address = a, uContext = uc, privateStack = None, privateStackSize = 0, privateStackSizeUpperBound = 0\<rparr>"

definition new_SharedCopyStackTask ::
    "TaskType \<Rightarrow> SchedulerPtr \<Rightarrow> u64 \<Rightarrow> u64 \<Rightarrow> u64 \<Rightarrow> tid \<Rightarrow> coro \<Rightarrow> coro" where
  "new_SharedCopyStackTask ty s a uc entry t c =
     RefreshContext entry t (set_task t (new_StackTask ty SharedCopyStack s a uc) c)"

text \<open>\<^verbatim>\<open>InitStack\<close> on the allocation at \<open>b\<close>.\<close>

definition InitStack :: "u64 \<Rightarrow> u32 \<Rightarrow> u64 \<Rightarrow> tid \<Rightarrow> coro \<Rightarrow> coro" where
  "InitStack b ssz entry t c =
     on_memory (init_context (uContext (ctasks c t)) b (ucast ssz) entry) c"

definition new_StandAloneStackTask ::
    "TaskType \<Rightarrow> SchedulerPtr \<Rightarrow> u64 \<Rightarrow> u64 \<Rightarrow> u64 \<Rightarrow> u32 \<Rightarrow> u64 \<Rightarrow> tid \<Rightarrow> coro \<Rightarrow> coro" where
  "new_StandAloneStackTask ty s a uc b ssz entry t c =
     InitStack b ssz entry t (set_task t (new_StackTask ty StandAloneStack s a uc) c)"

section \<open>Copying stacks\<close>

text \<open>\<^verbatim>\<open>memcpy\<close> between the stack and the private array; accessing a null pointer or reaching past the
  array is a fault.\<close>

definition copy_to_private :: "memory \<Rightarrow> u64 \<Rightarrow> StackTask \<Rightarrow> StackTask outcome" where
  "copy_to_private m tos x =
    (let n = unat (privateStackSize x) in
     case privateStack x of
       None \<Rightarrow> if n = 0 then Ok x else Fault NullDeref
     | Some bs \<Rightarrow> if n \<le> length bs then Ok (x\<lparr>privateStack := Some (mem_read m tos n @ drop n bs)\<rparr>)
                 else Fault OutOfBounds)"

definition copy_from_private :: "SchedulerBase \<Rightarrow> StackTask \<Rightarrow> memory \<Rightarrow> memory outcome" where
  "copy_from_private s x m =
    (let n = unat (privateStackSize x) in
     case privateStack x of
       None \<Rightarrow> if n = 0 then Ok m else Fault NullDeref
     | Some bs \<Rightarrow>
         if n \<le> length bs
         then Ok (mem_write (sharedStackAlignedEndAct s - ucast (privateStackSize x)) (take n bs) m)
         else Fault OutOfBounds)"

text \<open>Inputs of a switch that the compiled code and the allocator decide: the return address of the call of
  \<^verbatim>\<open>SwapToContext\<close>, whether an allocation succeeds, and how the call of \<^verbatim>\<open>SwapFrom\<close> from \<^verbatim>\<open>SwapTo\<close> is compiled: as an
  ordinary call with a return address and a frame of some size (return address included), or as a tail call after
  the frame of \<^verbatim>\<open>SwapTo\<close> is gone, with the registers in which \<^verbatim>\<open>SwapFrom\<close> then calls \<^verbatim>\<open>SwapToContext\<close>.\<close>

record swap_in =
  retAddr :: u64
  allocOk :: bool
  fromRet :: u64
  fromFrame :: u64
  tailRegs :: "(reg \<Rightarrow> u64) option"

text \<open>\<^verbatim>\<open>SwapFrom\<close> of both subclasses. \<open>tNext\<close> is the task that is left, or \<open>None\<close> for the scheduler.\<close>

definition resume :: "u64 \<Rightarrow> tid option \<Rightarrow> tid \<Rightarrow> coro \<Rightarrow> coro" where
  "resume ret tNext t c =
    (let x = ctasks c t; p = scheduler x in
     switch p ret (case tNext of Some n \<Rightarrow> uContext (ctasks c n) | None \<Rightarrow> schedulerContext (sched_of t c))
       (uContext x) (address x) c)"

definition SwapFrom :: "u64 \<Rightarrow> tid option \<Rightarrow> tid \<Rightarrow> coro \<Rightarrow> coro outcome" where
  "SwapFrom ret tNext t c =
    (case stackKind (ctasks c t) of
       SharedCopyStack \<Rightarrow>
         obind (copy_from_private (sched_of t c) (ctasks c t) (cmem c))
           (\<lambda>m. Ok (resume ret tNext t (c\<lparr>cmem := m\<rparr>)))
     | StandAloneStack \<Rightarrow> Ok (resume ret tNext t c))"

text \<open>The call of \<^verbatim>\<open>SwapFrom\<close> inside \<^verbatim>\<open>SwapTo\<close> opens a frame on the stack that is in use, unless it is a tail call.\<close>

definition leave_regs :: "swap_in \<Rightarrow> tid option \<Rightarrow> (reg \<Rightarrow> u64) \<Rightarrow> reg \<Rightarrow> u64" where
  "leave_regs i tNext rs =
    (case (tNext, tailRegs i) of
       (None, _) \<Rightarrow> rs
     | (Some n, Some rs') \<Rightarrow> rs'
     | (Some n, None) \<Rightarrow> rs(RSP := rs RSP - fromFrame i))"

definition enter_frame :: "SchedulerPtr \<Rightarrow> swap_in \<Rightarrow> coro \<Rightarrow> coro" where
  "enter_frame p i c =
    (let m = view p c; sp = gpr m RSP in
     case tailRegs i of
       None \<Rightarrow> put p (m\<lparr>gpr := (gpr m)(RSP := sp - fromFrame i), mem := store64 (sp - 8) (fromRet i) (mem m)\<rparr>) c
     | Some rs \<Rightarrow> put p (m\<lparr>gpr := rs\<rparr>) c)"

definition leave_task :: "swap_in \<Rightarrow> tid option \<Rightarrow> tid \<Rightarrow> coro \<Rightarrow> coro outcome" where
  "leave_task i tNext t c =
    (let x = ctasks c t; p = scheduler x in
     case tNext of
       None \<Rightarrow> Ok (switch p (retAddr i) (uContext x) (schedulerContext (sched_of t c)) (address x) c)
     | Some n \<Rightarrow> SwapFrom (retAddr i) (Some t) n (enter_frame p i c))"

definition on_shared_stack :: "SchedulerBase \<Rightarrow> u64 \<Rightarrow> bool" where
  "on_shared_stack s tos \<longleftrightarrow> tos \<le> sharedStackAlignedEndAct s
     \<and> sharedStackAlignedEnd s - ucast (sharedStackSizeActual s) \<le> tos"

text \<open>Growing the private array: \<open>None\<close> when the allocation fails, after the old array is gone.\<close>

definition reserve :: "bool \<Rightarrow> u32 \<Rightarrow> StackTask \<Rightarrow> StackTask \<times> bool" where
  "reserve alloc n x =
    (let x1 = x\<lparr>privateStackSize := n\<rparr> in
     if privateStackSizeUpperBound x1 < n
     then let x2 = x1\<lparr>privateStack := None, privateStackSizeUpperBound := n\<rparr> in
          if alloc then (x2\<lparr>privateStack := Some (replicate (unat n) 0)\<rparr>, True)
          else (x2\<lparr>status := TASK_FINISHED\<rparr>, False)
     else (x1, True))"

definition SwapTo :: "swap_in \<Rightarrow> tid option \<Rightarrow> tid \<Rightarrow> coro \<Rightarrow> coro outcome" where
  "SwapTo i tNext t c =
    (case stackKind (ctasks c t) of
       StandAloneStack \<Rightarrow> leave_task i tNext t c
     | SharedCopyStack \<Rightarrow>
        let x = ctasks c t; p = scheduler x; s = sched_of t c; tos = fst (cpus c p) RSP in
        if on_shared_stack s tos
        then if status x = TASK_FINISHED then leave_task i tNext t c
             else case reserve (allocOk i) (ucast (sharedStackAlignedEndAct s - tos)) x of
                    (x1, False) \<Rightarrow> leave_task i None t (ShutDown_override p (set_task t x1 c))
                  | (x1, True) \<Rightarrow>
                      obind (copy_to_private (cmem c) tos x1) (\<lambda>x2. leave_task i tNext t (set_task t x2 c))
        else Ok c)"

text \<open>\<^verbatim>\<open>Steal\<close> of both subclasses; \<open>ctxStack\<close> records whose stack the context points at.\<close>

definition StackTask_Steal :: "u64 \<Rightarrow> SchedulerPtr \<Rightarrow> tid \<Rightarrow> coro \<Rightarrow> coro \<times> bool" where
  "StackTask_Steal entry p t c =
    (let x = ctasks c t in
     if isStealable x
     then (case stackKind x of
             SharedCopyStack \<Rightarrow> RefreshContext entry t (set_task t (x\<lparr>scheduler := p, ctxStack := Some p\<rparr>) c)
           | StandAloneStack \<Rightarrow> set_task t (x\<lparr>scheduler := p\<rparr>) c, True)
     else (c, False))"

section \<open>Layout\<close>

text \<open>A scheduler whose stack was laid out by its constructor, on an allocation that fits.\<close>

definition laid_out :: "SchedulerBase \<Rightarrow> bool" where
  "laid_out s \<longleftrightarrow> stack_fits (sharedStackBegin s) (ucast (sharedStackSizeActual s))
     \<and> sharedStackAlignedEnd s = stack_top (sharedStackBegin s) (ucast (sharedStackSizeActual s))
     \<and> sharedStackAlignedEndAct s = sharedStackAlignedEnd s - 8"

lemma new_SchedulerBase_laid_out:
  "stack_fits b (ucast sz) \<Longrightarrow> laid_out (fst (new_SchedulerBase b sz ctx m))"
  by (simp add: laid_out_def new_SchedulerBase_def Let_def)

lemma unat_ucast_32: "unat (ucast (n :: u32) :: u64) = unat n"
proof -
  have "unat n < 2 ^ 64" using unsigned_less [of n, where 'a = nat] by simp
  then show ?thesis by (simp add: unsigned_ucast_eq take_bit_nat_eq_self)
qed

lemma laid_out_unat:
  assumes "laid_out s"
  shows "unat (sharedStackAlignedEndAct s) + 8 = unat (sharedStackAlignedEnd s)"
  using stack_top_bounds [of "sharedStackBegin s" "ucast (sharedStackSizeActual s)"] assms
  by (auto simp: laid_out_def stack_fits_def)

text \<open>Whatever stack pointer the check accepts, the distance to the end fits the 32-bit size field.\<close>

lemma used_size:
  assumes "laid_out s" "on_shared_stack s tos"
  shows "unat (sharedStackAlignedEndAct s - tos) = unat (sharedStackAlignedEndAct s) - unat tos"
    and "unat (sharedStackAlignedEndAct s - tos) < unat (sharedStackSizeActual s)"
    and "ucast (ucast (sharedStackAlignedEndAct s - tos) :: u32) = sharedStackAlignedEndAct s - tos"
proof -
  let ?E = "sharedStackAlignedEnd s" and ?A = "sharedStackAlignedEndAct s"
  let ?n = "ucast (sharedStackSizeActual s) :: u64"
  have le: "tos \<le> ?A" "?E - ?n \<le> tos" using assms(2) by (simp_all add: on_shared_stack_def)
  show d: "unat (?A - tos) = unat ?A - unat tos" using le(1) by (simp add: unat_sub)
  have E: "unat ?A + 8 = unat ?E" by (rule laid_out_unat [OF assms(1)])
  have "?n \<le> ?E"
  proof (rule ccontr)
    assume "\<not> ?n \<le> ?E"
    then have "unat (?E - ?n) = 2 ^ 64 + unat ?E - unat ?n"
      by (simp add: unat_sub_if_size word_size word_le_nat_alt)
    moreover have "unat (?E - ?n) \<le> unat ?A" using le by (simp add: word_le_nat_alt)
    moreover have "unat ?n < 2 ^ 64" using unsigned_less [of ?n, where 'a = nat] by simp
    ultimately show False using E by linarith
  qed
  then have "unat (?E - ?n) = unat ?E - unat (sharedStackSizeActual s)"
    by (simp add: unat_sub unat_ucast_32)
  moreover have "unat (?E - ?n) \<le> unat tos" using le(2) by (simp add: word_le_nat_alt)
  moreover have "40 \<le> unat (sharedStackSizeActual s)"
    using assms(1) by (simp add: laid_out_def stack_fits_def unat_ucast_32)
  ultimately show lt: "unat (?A - tos) < unat (sharedStackSizeActual s)" using d E by linarith
  have "unat (?A - tos) < 2 ^ 32"
    using lt unsigned_less [of "sharedStackSizeActual s", where 'a = nat] by simp
  then have "unat (ucast (ucast (?A - tos) :: u32) :: u64) = unat (?A - tos)"
    unfolding unat_ucast_32 unsigned_ucast_eq by (simp add: unsigned_take_bit_eq take_bit_nat_eq_self)
  then show "ucast (ucast (?A - tos) :: u32) = ?A - tos" by (simp only: word_unat_eq_iff)
qed

section \<open>Copying out and back\<close>

text \<open>The private array is as long as its recorded bound and the recorded size fits; a task that failed to
  allocate is finished.\<close>

definition private_ok :: "StackTask \<Rightarrow> bool" where
  "private_ok x \<longleftrightarrow> status x = TASK_FINISHED \<or>
    (case privateStack x of
       None \<Rightarrow> privateStackSizeUpperBound x = 0 \<and> privateStackSize x = 0
     | Some bs \<Rightarrow> length bs = unat (privateStackSizeUpperBound x)
         \<and> privateStackSize x \<le> privateStackSizeUpperBound x)"

lemma reserve_fails:
  "\<not> alloc \<Longrightarrow> privateStackSizeUpperBound x < n \<Longrightarrow>
     reserve alloc n x = (x\<lparr>privateStackSize := n, privateStack := None, privateStackSizeUpperBound := n,
       status := TASK_FINISHED\<rparr>, False)"
  by (simp add: reserve_def Let_def)

lemma save_round_trip:
  assumes "private_ok x" "status x \<noteq> TASK_FINISHED" "alloc \<or> n \<le> privateStackSizeUpperBound x"
  obtains x1 x2 where "reserve alloc n x = (x1, True)" "copy_to_private m tos x1 = Ok x2"
    and "private_ok x2" "TaskInterface.truncate x2 = TaskInterface.truncate x"
    and "address x2 = address x" "uContext x2 = uContext x" "privateStackSize x2 = n"
    and "\<And>s m'. sharedStackAlignedEndAct s - ucast n = tos \<Longrightarrow>
      copy_from_private s x2 m' = Ok (mem_write tos (mem_read m tos (unat n)) m')"
proof (cases "privateStackSizeUpperBound x < n")
  case True
  let ?x1 = "x\<lparr>privateStackSize := n, privateStack := Some (replicate (unat n) 0), privateStackSizeUpperBound := n\<rparr>"
  let ?x2 = "x\<lparr>privateStackSize := n, privateStack := Some (mem_read m tos (unat n)), privateStackSizeUpperBound := n\<rparr>"
  show ?thesis
  proof (rule that [of ?x1 ?x2])
    show "reserve alloc n x = (?x1, True)" using True assms(3) by (auto simp: reserve_def Let_def)
    show "copy_to_private m tos ?x1 = Ok ?x2" by (simp add: copy_to_private_def Let_def)
    show "private_ok ?x2" by (simp add: private_ok_def)
    show "TaskInterface.truncate ?x2 = TaskInterface.truncate x" by (simp add: TaskInterface.defs)
  qed (simp_all add: copy_from_private_def)
next
  case False
  let ?x1 = "x\<lparr>privateStackSize := n\<rparr>"
  have r: "reserve alloc n x = (?x1, True)" using False by (simp add: reserve_def Let_def)
  show ?thesis
  proof (cases "privateStack x")
    case None
    then have "n = 0" using False assms(1,2) by (simp add: private_ok_def word_gt_0)
    show ?thesis
      by (rule that [of ?x1 ?x1])
        (use r None \<open>n = 0\<close> assms(1,2) in \<open>auto simp: copy_to_private_def copy_from_private_def private_ok_def
          TaskInterface.defs mem_read_def mem_write_def fun_eq_iff\<close>)
  next
    case (Some bs)
    then have n: "unat n \<le> length bs" using False assms(1,2) by (simp add: private_ok_def word_le_nat_alt not_less)
    let ?x2 = "x\<lparr>privateStackSize := n, privateStack := Some (mem_read m tos (unat n) @ drop (unat n) bs)\<rparr>"
    show ?thesis
      by (rule that [of ?x1 ?x2])
        (use r n Some False assms(1,2) in \<open>auto simp: copy_to_private_def copy_from_private_def private_ok_def
          TaskInterface.defs not_less Let_def\<close>)
  qed
qed

section \<open>Threads, tasks and schedulers together\<close>

text \<open>The tasks \<open>T\<close> and schedulers \<open>P\<close> of a system are well formed when every context has its eight
  registers and an address of its own, the shared stacks are laid out, and the private arrays are as
  recorded.\<close>

definition wf_coro :: "tid set \<Rightarrow> SchedulerPtr set \<Rightarrow> coro \<Rightarrow> bool" where
  "wf_coro T P c \<longleftrightarrow>
     inj_on (\<lambda>t. uContext (ctasks c t)) T \<and> inj_on (\<lambda>p. schedulerContext (cscheds c p)) P
   \<and> (\<forall>t \<in> T. \<forall>p \<in> P. uContext (ctasks c t) \<noteq> schedulerContext (cscheds c p))
   \<and> (\<forall>t \<in> T. scheduler (ctasks c t) \<in> P \<and> private_ok (ctasks c t)
        \<and> length (registers (cctxs c (uContext (ctasks c t)))) = 8)
   \<and> (\<forall>p \<in> P. laid_out (cscheds c p) \<and> length (registers (cctxs c (schedulerContext (cscheds c p)))) = 8)"

lemma switch_simps [simp]:
  "ctasks (switch p ret old new arg c) = ctasks c" "cscheds (switch p ret old new arg c) = cscheds c"
  by (simp_all add: switch_def put_def)

lemma switch_effect:
  fixes ret :: u64
  assumes "length (registers (cctxs c old)) = 8"
  shows "cctxs (switch p ret old new arg c)
      = (cctxs c)(old := (cctxs c old)\<lparr>registers := call_saved ret (view p c)\<rparr>)"
    and "cmem (switch p ret old new arg c) = store64 (fst (cpus c p) RSP - 8) ret (cmem c)"
    and "q \<noteq> p \<Longrightarrow> cpus (switch p ret old new arg c) q = cpus c q"
  using assms by (simp_all add: switch_def put_def view_def call_SwapToContext_effect)

lemma switch_back:
  assumes "registers (cctxs c new) = call_saved ret1 m1" "length (registers (cctxs c old)) = 8" "old \<noteq> new"
  shows "snd (cpus (switch p ret old new arg c) p) = ret1"
    and "fst (cpus (switch p ret old new arg c) p) RDI = arg"
    and "r \<in> callee_saved \<Longrightarrow> fst (cpus (switch p ret old new arg c) p) r = gpr m1 r"
  using switch_round_trip [of "view p c" new ret1 m1 old ret arg] assms
  by (simp_all add: switch_def put_def view_def)

text \<open>What the threads do, one step at a time: code runs and leaves any registers and any contents of
  the stacks behind; a task leaves for the scheduler or for another task; a scheduler resumes a task; a task
  is stolen; a task object is created at its address.\<close>

datatype coro_event =
    Run SchedulerPtr "reg \<Rightarrow> u64" u64 memory
  | Leave swap_in "tid option" tid
  | Resume u64 tid
  | StealTask u64 SchedulerPtr tid
  | CreateShared TaskType SchedulerPtr u64 tid
  | CreateStandAlone TaskType SchedulerPtr u64 u32 u64 tid

fun coro_step :: "coro_event \<Rightarrow> coro \<Rightarrow> coro outcome" where
  "coro_step (Run p rs a m) c = Ok (c\<lparr>cpus := (cpus c)(p := (rs, a)), cmem := m\<rparr>)"
| "coro_step (Leave i n u) c = SwapTo i n u c"
| "coro_step (Resume ret u) c = SwapFrom ret None u c"
| "coro_step (StealTask entry p u) c = Ok (fst (StackTask_Steal entry p u c))"
| "coro_step (CreateShared ty s entry u) c =
     Ok (new_SharedCopyStackTask ty s (address (ctasks c u)) (uContext (ctasks c u)) entry u c)"
| "coro_step (CreateStandAlone ty s b ssz entry u) c =
     Ok (new_StandAloneStackTask ty s (address (ctasks c u)) (uContext (ctasks c u)) b ssz entry u c)"

fun concerns :: "tid \<Rightarrow> coro_event \<Rightarrow> bool" where
  "concerns t (Run p rs a m) = False"
| "concerns t (Leave i n u) = (u = t \<or> n = Some t)"
| "concerns t (Resume ret u) = (u = t)"
| "concerns t (StealTask entry p u) = (u = t)"
| "concerns t (CreateShared ty s entry u) = (u = t)"
| "concerns t (CreateStandAlone ty s b ssz entry u) = (u = t)"

fun within :: "tid set \<Rightarrow> SchedulerPtr set \<Rightarrow> coro_event \<Rightarrow> bool" where
  "within T P (Run p rs a m) = True"
| "within T P (Leave i n u) = (u \<in> T \<and> (\<forall>v. n = Some v \<longrightarrow> v \<in> T))"
| "within T P (Resume ret u) = (u \<in> T)"
| "within T P (StealTask entry p u) = (u \<in> T \<and> p \<in> P)"
| "within T P (CreateShared ty s entry u) = (u \<in> T \<and> s \<in> P)"
| "within T P (CreateStandAlone ty s b ssz entry u) = (u \<in> T \<and> s \<in> P)"

text \<open>What other tasks' steps leave alone: the task object and its context.\<close>

definition spares :: "tid set \<Rightarrow> SchedulerPtr set \<Rightarrow> tid \<Rightarrow> coro \<Rightarrow> coro \<Rightarrow> bool" where
  "spares T P t c c' \<longleftrightarrow> wf_coro T P c' \<and> ctasks c' t = ctasks c t
     \<and> cctxs c' (uContext (ctasks c t)) = cctxs c (uContext (ctasks c t))
     \<and> (\<forall>p. sharedStackAlignedEndAct (cscheds c' p) = sharedStackAlignedEndAct (cscheds c p)
          \<and> sharedStackAlignedEnd (cscheds c' p) = sharedStackAlignedEnd (cscheds c p)
          \<and> sharedStackSizeActual (cscheds c' p) = sharedStackSizeActual (cscheds c p)
          \<and> schedulerContext (cscheds c' p) = schedulerContext (cscheds c p))"

lemma spares_trans: "spares T P t c c1 \<Longrightarrow> spares T P t c1 c2 \<Longrightarrow> spares T P t c c2"
  by (simp add: spares_def)

lemma length_call_saved [simp]: "length (call_saved ret m) = 8"
  by (simp add: call_saved_def)

lemma spares_machine:
  "wf_coro T P c \<Longrightarrow> spares T P t c (c\<lparr>cpus := r, cmem := m\<rparr>)"
  "wf_coro T P c \<Longrightarrow> spares T P t c (c\<lparr>cmem := m\<rparr>)" "wf_coro T P c \<Longrightarrow> spares T P t c (c\<lparr>cpus := r\<rparr>)"
  by (auto simp: spares_def wf_coro_def)

lemma spares_context:
  assumes "wf_coro T P c" "old \<noteq> uContext (ctasks c t)" "length (registers x) = 8"
  shows "spares T P t c (c\<lparr>cpus := r, cmem := m, cctxs := (cctxs c)(old := x)\<rparr>)"
  using assms by (auto simp: spares_def wf_coro_def)

lemma spares_put:
  assumes "wf_coro T P c" "old \<noteq> uContext (ctasks c t)" "length (registers x) = 8"
    and "ctxs m = (cctxs c)(old := x)"
  shows "spares T P t c (put p m c)"
  using spares_context [OF assms(1-3)] assms(4) by (simp add: put_def)

lemma wf_set_task:
  assumes "wf_coro T P c" "u \<in> T" "uContext x = uContext (ctasks c u)" "scheduler x \<in> P" "private_ok x"
  shows "wf_coro T P (set_task u x c)"
proof -
  have "(\<lambda>v. uContext (((ctasks c)(u := x)) v)) = (\<lambda>v. uContext (ctasks c v))" using assms(3) by auto
  then have "uContext (((ctasks c)(u := x)) v) = uContext (ctasks c v)" for v by metis
  with \<open>(\<lambda>v. _ v) = _\<close> assms show ?thesis
    unfolding wf_coro_def set_task_def by (simp del: fun_upd_apply) (simp add: fun_upd_apply)
qed

lemma spares_set_task:
  assumes "wf_coro T P c" "u \<in> T" "u \<noteq> t" "uContext x = uContext (ctasks c u)" "scheduler x \<in> P" "private_ok x"
  shows "spares T P t c (set_task u x c)"
  using wf_set_task [OF assms(1,2,4-6)] assms(3) by (simp add: spares_def set_task_def)

lemma wf_coro_distinct:
  assumes "wf_coro T P c" "t \<in> T" "u \<in> T" "u \<noteq> t"
  shows "uContext (ctasks c u) \<noteq> uContext (ctasks c t)"
proof -
  have "inj_on (\<lambda>t. uContext (ctasks c t)) T" using assms(1) by (simp add: wf_coro_def)
  from inj_onD [OF this _ assms(3,2)] assms(4) show ?thesis by blast
qed

lemma wf_coroD:
  assumes "wf_coro T P c" "t \<in> T"
  shows "scheduler (ctasks c t) \<in> P" "private_ok (ctasks c t)" "laid_out (sched_of t c)"
    and "length (registers (cctxs c (uContext (ctasks c t)))) = 8"
    and "length (registers (cctxs c (schedulerContext (sched_of t c)))) = 8"
    and "u \<in> T \<Longrightarrow> schedulerContext (sched_of u c) \<noteq> uContext (ctasks c t)"
proof -
  show P: "scheduler (ctasks c t) \<in> P" using assms by (simp add: wf_coro_def)
  then show "laid_out (sched_of t c)" "length (registers (cctxs c (schedulerContext (sched_of t c)))) = 8"
    using assms(1) by (simp_all add: wf_coro_def sched_of_def)
  show "private_ok (ctasks c t)" "length (registers (cctxs c (uContext (ctasks c t)))) = 8"
    using assms by (simp_all add: wf_coro_def)
  assume "u \<in> T"
  then have "scheduler (ctasks c u) \<in> P" using assms(1) by (simp add: wf_coro_def)
  then show "schedulerContext (sched_of u c) \<noteq> uContext (ctasks c t)"
    using assms unfolding wf_coro_def sched_of_def by metis
qed

lemma switch_spares:
  assumes "wf_coro T P c" "old \<noteq> uContext (ctasks c t)" "length (registers (cctxs c old)) = 8"
  shows "spares T P t c (switch p ret old new arg c)"
  unfolding switch_def
  by (rule spares_put [OF assms(1,2)])
    (use assms(3) in \<open>auto simp: call_SwapToContext_effect view_def\<close>)

lemma resume_spares:
  assumes "wf_coro T P c" "t \<in> T" "u \<in> T" "u \<noteq> t" "\<And>v. n = Some v \<Longrightarrow> v \<in> T \<and> v \<noteq> t"
  shows "spares T P t c (resume ret n u c)"
  unfolding resume_def Let_def
  by (rule switch_spares [OF assms(1)])
    (use assms wf_coroD [OF assms(1)] wf_coro_distinct [OF assms(1)] in \<open>auto split: option.splits\<close>)

lemma SwapFrom_spares:
  assumes "wf_coro T P c" "t \<in> T" "u \<in> T" "u \<noteq> t" "\<And>v. n = Some v \<Longrightarrow> v \<in> T \<and> v \<noteq> t"
    and "SwapFrom ret n u c = Ok c'"
  shows "spares T P t c c'"
proof -
  from assms(6) obtain m where "c' = resume ret n u c \<or> c' = resume ret n u (c\<lparr>cmem := m\<rparr>)"
    by (auto simp: SwapFrom_def split: StackKind.splits)
  then show ?thesis
  proof
    assume "c' = resume ret n u c"
    then show ?thesis using resume_spares [OF assms(1-5)] by simp
  next
    assume c': "c' = resume ret n u (c\<lparr>cmem := m\<rparr>)"
    have k: "spares T P t c (c\<lparr>cmem := m\<rparr>)" by (rule spares_machine(2) [OF assms(1)])
    then have "wf_coro T P (c\<lparr>cmem := m\<rparr>)" by (simp add: spares_def)
    from spares_trans [OF k resume_spares [OF this assms(2-5)]] show ?thesis using c' by simp
  qed
qed

lemma leave_task_spares:
  assumes "wf_coro T P c" "t \<in> T" "u \<in> T" "u \<noteq> t" "\<And>v. n = Some v \<Longrightarrow> v \<in> T \<and> v \<noteq> t"
    and "leave_task i n u c = Ok c'"
  shows "spares T P t c c'"
proof (cases n)
  case None
  have "spares T P t c (switch (scheduler (ctasks c u)) (retAddr i) (uContext (ctasks c u))
      (schedulerContext (sched_of u c)) (address (ctasks c u)) c)"
    by (rule switch_spares [OF assms(1)]) (use wf_coroD(4) [OF assms(1)] wf_coro_distinct [OF assms(1)] assms(2-4) in auto)
  with None assms(6) show ?thesis by (simp add: leave_task_def Let_def)
next
  case (Some v)
  have k: "spares T P t c (enter_frame p i c)" for p
    using spares_machine(1,3) [OF assms(1)] by (simp add: enter_frame_def put_def view_def Let_def split: option.splits)
  then have "wf_coro T P (enter_frame p i c)" for p by (simp add: spares_def)
  moreover have "SwapFrom (retAddr i) (Some u) v (enter_frame (scheduler (ctasks c u)) i c) = Ok c'"
    using Some assms(6) by (simp add: leave_task_def Let_def)
  ultimately have "spares T P t (enter_frame (scheduler (ctasks c u)) i c) c'"
    using SwapFrom_spares [OF _ assms(2)] Some assms(3-5) by blast
  with k show ?thesis by (blast intro: spares_trans)
qed

lemma truncate_fields:
  assumes "TaskInterface.truncate (y :: StackTask) = TaskInterface.truncate x"
  shows "status y = status x" "scheduler y = scheduler x" "stackKind y = stackKind x" "isStealable y = isStealable x"
  using assms by (simp_all add: TaskInterface.defs)

lemma spares_ShutDown: "wf_coro T P c \<Longrightarrow> spares T P t c (SchedulerBase_ShutDown p c)"
proof -
  have "(\<lambda>q. schedulerContext (cscheds (SchedulerBase_ShutDown p c) q)) = (\<lambda>q. schedulerContext (cscheds c q))"
    by (auto simp: SchedulerBase_ShutDown_def)
  moreover have "laid_out (cscheds (SchedulerBase_ShutDown p c) q) = laid_out (cscheds c q)" for q
    by (simp add: SchedulerBase_ShutDown_def laid_out_def)
  moreover have "schedulerContext (cscheds (SchedulerBase_ShutDown p c) q) = schedulerContext (cscheds c q)" for q
    by (simp add: SchedulerBase_ShutDown_def)
  moreover have "cctxs (SchedulerBase_ShutDown p c) = cctxs c" "ctasks (SchedulerBase_ShutDown p c) = ctasks c"
    by (simp_all add: SchedulerBase_ShutDown_def)
  ultimately show "wf_coro T P c \<Longrightarrow> spares T P t c (SchedulerBase_ShutDown p c)"
    unfolding spares_def wf_coro_def by (simp add: SchedulerBase_ShutDown_def)
qed

lemma ShutDown_override_main: "ShutDown_override p = SchedulerBase_ShutDown RIBPtr"
  by (auto simp: ShutDown_override_def split: SchedulerPtr.splits)

lemma SwapTo_spares:
  assumes wf: "wf_coro T P c" and t: "t \<in> T" and u: "u \<in> T" "u \<noteq> t"
    and n: "\<And>v. n = Some v \<Longrightarrow> v \<in> T \<and> v \<noteq> t" and ok: "SwapTo i n u c = Ok c'"
  shows "spares T P t c c'"
proof -
  let ?x = "ctasks c u" and ?tos = "fst (cpus c (scheduler (ctasks c u))) RSP"
  let ?n = "ucast (sharedStackAlignedEndAct (sched_of u c) - ?tos) :: u32"
  note leave = leave_task_spares [OF _ t u]
  have leave_set: "spares T P t c c'"
    if "uContext y = uContext ?x" "scheduler y = scheduler ?x" "private_ok y"
      and "leave_task i k u (set_task u y c) = Ok c'" "\<And>v. k = Some v \<Longrightarrow> v \<in> T \<and> v \<noteq> t" for y k
  proof -
    have k1: "spares T P t c (set_task u y c)"
      by (rule spares_set_task [OF wf u]) (use that wf_coroD(1) [OF wf u(1)] in auto)
    then have "wf_coro T P (set_task u y c)" by (simp add: spares_def)
    from leave [OF this that(5,4)] k1 show ?thesis by (blast intro: spares_trans)
  qed
  consider (direct) "leave_task i n u c = Ok c'" | (off) "c' = c"
    | (fail) x1 where "reserve (allocOk i) ?n ?x = (x1, False)"
        "leave_task i None u (ShutDown_override (scheduler ?x) (set_task u x1 c)) = Ok c'"
    | (save) x1 x2 where "reserve (allocOk i) ?n ?x = (x1, True)" "status ?x \<noteq> TASK_FINISHED"
        "copy_to_private (cmem c) ?tos x1 = Ok x2" "leave_task i n u (set_task u x2 c) = Ok c'"
    using ok unfolding SwapTo_def Let_def
    by (cases "stackKind ?x"; cases "on_shared_stack (sched_of u c) ?tos"; cases "status ?x = TASK_FINISHED";
        cases "reserve (allocOk i) ?n ?x"; cases "snd (reserve (allocOk i) ?n ?x)") (simp_all, metis?)
  then show ?thesis
  proof cases
    case direct
    then show ?thesis using leave [OF wf n] by blast
  next
    case off
    then show ?thesis using wf by (simp add: spares_def)
  next
    case fail
    then have x1: "uContext x1 = uContext ?x" "scheduler x1 = scheduler ?x" "private_ok x1"
      by (auto simp: reserve_def Let_def private_ok_def split: if_splits)
    have k1: "spares T P t c (set_task u x1 c)"
      by (rule spares_set_task [OF wf u]) (use x1 wf_coroD(1) [OF wf u(1)] in auto)
    then have k2: "spares T P t (set_task u x1 c) (ShutDown_override (scheduler ?x) (set_task u x1 c))"
      unfolding ShutDown_override_main by (intro spares_ShutDown) (simp add: spares_def)
    then have "wf_coro T P (ShutDown_override (scheduler ?x) (set_task u x1 c))" by (simp add: spares_def)
    from leave [OF this _ fail(2)] k1 k2 show ?thesis by (auto intro: spares_trans)
  next
    case save
    have "allocOk i \<or> ?n \<le> privateStackSizeUpperBound ?x"
      using save(1) by (auto simp: reserve_def Let_def not_less split: if_splits)
    from save_round_trip [OF wf_coroD(2) [OF wf u(1)] save(2) this, of "cmem c" ?tos] save(1,3)
    have "private_ok x2" "TaskInterface.truncate x2 = TaskInterface.truncate ?x" "uContext x2 = uContext ?x"
      by (metis Pair_inject outcome.inject)+
    with leave_set [OF _ _ _ save(4) n] truncate_fields(2) show ?thesis by blast
  qed
qed

lemma on_memory_init:
  "on_memory (init_context ucp sp sz entry) c
     = c\<lparr>cpus := cpus c, cmem := store64 (stack_top sp sz - 8) 0 (cmem c),
         cctxs := (cctxs c)(ucp := \<lparr>registers = (replicate 8 0)[4 := entry, 5 := stack_top sp sz - 8],
           ss_sp = sp, ss_size = sz\<rparr>)\<rparr>"
  by (simp add: on_memory_def init_context_def CreateContext_def view_def Let_def)

lemma init_spares:
  assumes "wf_coro T P c" "t \<in> T" "u \<in> T" "u \<noteq> t"
  shows "spares T P t c (on_memory (init_context (uContext (ctasks c u)) sp sz entry) c)"
  unfolding on_memory_init
  by (rule spares_context [OF assms(1)]) (use wf_coro_distinct [OF assms(1)] assms(2-4) in auto)

lemma init_set_spares:
  assumes "wf_coro T P c" "t \<in> T" "u \<in> T" "u \<noteq> t" "uContext y = uContext (ctasks c u)" "scheduler y \<in> P" "private_ok y"
  shows "spares T P t c (on_memory (init_context (uContext y) sp sz entry) (set_task u y c))"
proof -
  have k: "spares T P t c (set_task u y c)" by (rule spares_set_task) (use assms in auto)
  then have "wf_coro T P (set_task u y c)" by (simp add: spares_def)
  from init_spares [OF this assms(2-4)] have
    "spares T P t (set_task u y c) (on_memory (init_context (uContext y) sp sz entry) (set_task u y c))"
    by (simp add: set_task_def)
  with k show ?thesis by (rule spares_trans)
qed

lemma private_ok_steal:
  "private_ok (x\<lparr>scheduler := p\<rparr>) = private_ok x" "private_ok (x\<lparr>scheduler := p, ctxStack := q\<rparr>) = private_ok x"
  by (simp_all add: private_ok_def split: option.splits)

lemma Steal_spares:
  assumes "wf_coro T P c" "t \<in> T" "u \<in> T" "u \<noteq> t" "p \<in> P"
  shows "spares T P t c (fst (StackTask_Steal entry p u c))"
proof -
  let ?y = "(ctasks c u)\<lparr>scheduler := p, ctxStack := Some p\<rparr>"
  have "spares T P t c c" using assms(1) by (simp add: spares_def)
  moreover have "spares T P t c (set_task u ((ctasks c u)\<lparr>scheduler := p\<rparr>) c)"
    by (rule spares_set_task [OF assms(1,3,4)]) (use wf_coroD(2) [OF assms(1,3)] assms(5) in \<open>simp_all add: private_ok_steal\<close>)
  moreover have "spares T P t c (RefreshContext entry u (set_task u ?y c))"
    unfolding RefreshContext_def
    using init_set_spares [OF assms(1-4), of ?y] wf_coroD(2) [OF assms(1,3)] assms(5)
    by (simp add: set_task_def private_ok_steal)
  ultimately show ?thesis by (simp add: StackTask_Steal_def Let_def split: StackKind.splits)
qed

text \<open>Stealing a task with its stack refines stealing as the schedulers see it, and leaves the context of a
  shared-stack task on the shared stack of its new scheduler.\<close>

lemma Steal_refines:
  "TaskInterface.truncate (ctasks (fst (StackTask_Steal entry p t c)) t) = Steal p (TaskInterface.truncate (ctasks c t))"
  by (simp add: StackTask_Steal_def Steal_def RefreshContext_def on_memory_init set_task_def Let_def
    TaskInterface.defs split: StackKind.splits)

lemma Steal_moves_context:
  assumes "isStealable (ctasks c t)" "stackKind (ctasks c t) = SharedCopyStack"
  shows "ss_sp (cctxs (fst (StackTask_Steal entry p t c)) (uContext (ctasks c t))) = sharedStackBegin (cscheds c p)"
  using assms by (simp add: StackTask_Steal_def RefreshContext_def on_memory_init set_task_def sched_of_def Let_def)

lemma new_StackTask_simps [simp]:
  "uContext (new_StackTask ty k s a uc) = uc" "scheduler (new_StackTask ty k s a uc) = s"
  "private_ok (new_StackTask ty k s a uc)" "address (new_StackTask ty k s a uc) = a"
  "stackKind (new_StackTask ty k s a uc) = k"
  by (simp_all add: new_StackTask_def TaskInterface.defs new_TaskInterface_def private_ok_def)

lemma Create_spares:
  assumes "wf_coro T P c" "t \<in> T" "u \<in> T" "u \<noteq> t" "s \<in> P"
  shows "spares T P t c (new_SharedCopyStackTask ty s a (uContext (ctasks c u)) entry u c)"
    and "spares T P t c (new_StandAloneStackTask ty s a (uContext (ctasks c u)) b ssz entry u c)"
  using init_set_spares [OF assms(1-4), of "new_StackTask ty _ s a (uContext (ctasks c u))"] assms(5)
  by (simp_all add: new_SharedCopyStackTask_def new_StandAloneStackTask_def RefreshContext_def InitStack_def set_task_def)

lemma coro_step_spares:
  assumes "wf_coro T P c" "t \<in> T" "within T P e" "\<not> concerns t e" "coro_step e c = Ok c'"
  shows "spares T P t c c'"
proof (cases e)
  case (Run p rs a m)
  then show ?thesis using assms spares_machine(1) by auto
next
  case (Leave i n u)
  with assms(3-5) show ?thesis by (intro SwapTo_spares [OF assms(1,2), of u n i c']) auto
next
  case (Resume ret u)
  with assms(3-5) show ?thesis by (intro SwapFrom_spares [OF assms(1,2), of u None ret c']) auto
next
  case (StealTask entry p u)
  then show ?thesis using assms Steal_spares [OF assms(1,2)] by auto
next
  case (CreateShared ty s entry u)
  then show ?thesis using assms Create_spares(1) [OF assms(1,2)] by auto
next
  case (CreateStandAlone ty s b ssz entry u)
  then show ?thesis using assms Create_spares(2) [OF assms(1,2)] by auto
qed

lemma run_spares:
  assumes "wf_coro T P c" "t \<in> T" "\<And>e. e \<in> set es \<Longrightarrow> within T P e \<and> \<not> concerns t e"
    and "each coro_step es c = Ok c'"
  shows "spares T P t c c'"
  using assms
proof (induction es arbitrary: c)
  case Nil
  then show ?case by (simp add: spares_def)
next
  case (Cons e es)
  then obtain c1 where c1: "coro_step e c = Ok c1" "each coro_step es c1 = Ok c'" by auto
  have "spares T P t c c1" by (rule coro_step_spares [OF Cons.prems(1,2) _ _ c1(1)]) (use Cons.prems(3) in auto)
  moreover from this have "wf_coro T P c1" by (simp add: spares_def)
  then have "spares T P t c1 c'"
    by (rule Cons.IH [OF _ Cons.prems(2) _ c1(2)]) (use Cons.prems(3) in auto)
  ultimately show ?case by (rule spares_trans)
qed

section \<open>A task that comes back\<close>

lemma wf_switch:
  assumes "wf_coro T P c" "length (registers (cctxs c old)) = 8"
  shows "wf_coro T P (switch p ret old new arg c)"
  unfolding wf_coro_def switch_simps switch_effect(1) [OF assms(2)]
  using assms(1) by (simp add: wf_coro_def)

text \<open>The scheduler, and a task with a stack of its own, resume others from outside the shared stack: the word it pushes is outside the shared stack.\<close>

definition clear_of :: "SchedulerBase \<Rightarrow> u64 \<Rightarrow> bool" where
  "clear_of s sp \<longleftrightarrow> 8 \<le> sp
     \<and> (sp \<le> sharedStackAlignedEnd s - ucast (sharedStackSizeActual s) \<or> sharedStackAlignedEnd s \<le> sp)"

lemma push_outside:
  assumes "laid_out s" "on_shared_stack s tos" "clear_of s sp" "tos \<le> a" "a < sharedStackAlignedEndAct s"
  shows "8 \<le> unat (a - (sp - 8))"
proof -
  have sp: "unat (sp - 8) = unat sp - 8" "8 \<le> unat sp"
    using assms(3) by (simp_all add: clear_of_def unat_sub word_le_nat_alt)
  have E: "unat (sharedStackAlignedEndAct s) + 8 = unat (sharedStackAlignedEnd s)"
    by (rule laid_out_unat [OF assms(1)])
  from assms(3) consider "sp \<le> tos" | "sharedStackAlignedEnd s \<le> sp"
    using assms(2) by (auto simp: clear_of_def on_shared_stack_def)
  then show ?thesis
  proof cases
    case 1
    then have "sp - 8 \<le> a" using sp assms(4) by (simp add: word_le_nat_alt)
    then have "unat (a - (sp - 8)) = unat a - unat (sp - 8)" by (simp add: unat_sub)
    with 1 sp assms(4) show ?thesis by (simp add: word_le_nat_alt)
  next
    case 2
    then have lt: "unat a < unat (sp - 8)" using sp E assms(5) by (simp add: word_le_nat_alt word_less_nat_alt)
    then have "unat (a - (sp - 8)) = 2 ^ 64 + unat a - unat (sp - 8)"
      by (simp add: unat_sub_if_size word_size)
    moreover have "unat sp < 2 ^ 64" using unsigned_less [of sp, where 'a = nat] by simp
    ultimately show ?thesis using sp by linarith
  qed
qed

text \<open>A task leaves for the scheduler, or for a task of the same thread that has a stack of its own. What the
  object and the context of the task then hold:\<close>

definition off_stack :: "tid set \<Rightarrow> tid \<Rightarrow> tid option \<Rightarrow> coro \<Rightarrow> bool" where
  "off_stack T t tNext c \<longleftrightarrow> (\<forall>n. tNext = Some n \<longrightarrow> n \<in> T \<and> n \<noteq> t \<and> stackKind (ctasks c n) = StandAloneStack
     \<and> scheduler (ctasks c n) = scheduler (ctasks c t))"

lemma wf_enter_frame: "wf_coro T P c \<Longrightarrow> wf_coro T P (enter_frame p i c)"
  by (auto simp: wf_coro_def enter_frame_def put_def view_def Let_def split: option.splits)

lemma enter_frame_simps [simp]:
  "ctasks (enter_frame p i c) = ctasks c" "cscheds (enter_frame p i c) = cscheds c" "cctxs (enter_frame p i c) = cctxs c"
  by (simp_all add: enter_frame_def put_def view_def Let_def split: option.splits)

lemma enter_frame_regs:
  "fst (cpus (enter_frame p i c) p) = leave_regs i (Some n) (fst (cpus c p))"
  by (simp add: enter_frame_def put_def view_def leave_regs_def Let_def split: option.splits)

lemma leave_task_saves:
  assumes wf: "wf_coro T P c" and t: "t \<in> T" and off: "off_stack T t tNext c"
  defines "p \<equiv> scheduler (ctasks c t)"
  obtains c1 where "leave_task i tNext t c = Ok c1" "wf_coro T P c1" "ctasks c1 = ctasks c" "cscheds c1 = cscheds c"
    and "registers (cctxs c1 (uContext (ctasks c t)))
      = call_saved (retAddr i) ((view p c)\<lparr>gpr := leave_regs i tNext (fst (cpus c p))\<rparr>)"
proof (cases tNext)
  case None
  let ?c1 = "switch p (retAddr i) (uContext (ctasks c t)) (schedulerContext (sched_of t c)) (address (ctasks c t)) c"
  have len: "length (registers (cctxs c (uContext (ctasks c t)))) = 8" using wf_coroD(4) [OF wf t] .
  show thesis
    by (rule that [of ?c1])
      (use None in \<open>simp_all add: leave_task_def p_def Let_def wf_switch [OF wf len] switch_effect(1) [OF len] leave_regs_def
        call_saved_def view_def\<close>)
next
  case (Some n)
  let ?d = "enter_frame p i c"
  let ?c1 = "switch p (retAddr i) (uContext (ctasks c t)) (uContext (ctasks c n)) (address (ctasks c n)) ?d"
  have len: "length (registers (cctxs ?d (uContext (ctasks c t)))) = 8" using wf_coroD(4) [OF wf t] by simp
  have n: "stackKind (ctasks c n) = StandAloneStack" "scheduler (ctasks c n) = p"
    using off Some by (auto simp: off_stack_def p_def)
  show thesis
  proof (rule that [of ?c1])
    show "leave_task i tNext t c = Ok ?c1"
      using Some n by (simp add: leave_task_def SwapFrom_def resume_def p_def Let_def)
    show "wf_coro T P ?c1" by (rule wf_switch [OF wf_enter_frame [OF wf] len])
    show "registers (cctxs ?c1 (uContext (ctasks c t)))
      = call_saved (retAddr i) ((view p c)\<lparr>gpr := leave_regs i tNext (fst (cpus c p))\<rparr>)"
      unfolding switch_effect(1) [OF len] Some 
      by (simp add: call_saved_def view_def enter_frame_regs [of _ _ _ n])
  qed simp_all
qed

lemma SwapTo_saves:
  assumes wf: "wf_coro T P c" and t: "t \<in> T" and k: "stackKind (ctasks c t) = SharedCopyStack"
    and st: "status (ctasks c t) \<noteq> TASK_FINISHED" and al: "allocOk i" and off: "off_stack T t tNext c"
  defines "p \<equiv> scheduler (ctasks c t)" and "s \<equiv> sched_of t c"
  assumes on: "on_shared_stack s (fst (cpus c p) RSP)"
  obtains c1 where "SwapTo i tNext t c = Ok c1" "wf_coro T P c1"
    and "scheduler (ctasks c1 t) = p" "stackKind (ctasks c1 t) = SharedCopyStack"
    and "uContext (ctasks c1 t) = uContext (ctasks c t)" "cscheds c1 = cscheds c"
    and "registers (cctxs c1 (uContext (ctasks c1 t)))
      = call_saved (retAddr i) ((view p c)\<lparr>gpr := leave_regs i tNext (fst (cpus c p))\<rparr>)"
    and "\<And>s' m'. sharedStackAlignedEndAct s' = sharedStackAlignedEndAct s \<Longrightarrow>
      copy_from_private s' (ctasks c1 t) m' = Ok (mem_write (fst (cpus c p) RSP)
        (mem_read (cmem c) (fst (cpus c p) RSP) (unat (sharedStackAlignedEndAct s - fst (cpus c p) RSP))) m')"
proof -
  let ?x = "ctasks c t" and ?tos = "fst (cpus c p) RSP"
  let ?n = "ucast (sharedStackAlignedEndAct s - ?tos) :: u32"
  have lay: "laid_out s" unfolding s_def by (rule wf_coroD(3) [OF wf t])
  have n: "ucast ?n = sharedStackAlignedEndAct s - ?tos" by (rule used_size(3) [OF lay on])
  then have un: "unat ?n = unat (sharedStackAlignedEndAct s - ?tos)" by (metis unat_ucast_32)
  obtain x1 x2 where x: "reserve True ?n ?x = (x1, True)" "copy_to_private (cmem c) ?tos x1 = Ok x2"
    "private_ok x2" "TaskInterface.truncate x2 = TaskInterface.truncate ?x" "uContext x2 = uContext ?x"
    and restore: "\<And>s' m'. sharedStackAlignedEndAct s' - ucast ?n = ?tos \<Longrightarrow>
      copy_from_private s' x2 m' = Ok (mem_write ?tos (mem_read (cmem c) ?tos (unat ?n)) m')"
    using save_round_trip [OF wf_coroD(2) [OF wf t] st, of True ?n "cmem c" ?tos] by metis
  note tr = truncate_fields [OF x(4)]
  let ?d = "set_task t x2 c"
  have d: "ctasks ?d t = x2" "cscheds ?d = cscheds c" "cpus ?d = cpus c" "view p ?d = view p c"
    by (simp_all add: set_task_def view_def)
  have wfd: "wf_coro T P ?d"
    by (rule wf_set_task [OF wf t x(5) _ x(3)]) (use tr wf_coroD(1) [OF wf t] in simp)
  have offd: "off_stack T t tNext ?d" using off tr(2) by (auto simp: off_stack_def set_task_def)
  obtain c1 where c1: "leave_task i tNext t ?d = Ok c1" "wf_coro T P c1" "ctasks c1 = ctasks ?d" "cscheds c1 = cscheds ?d"
    "registers (cctxs c1 (uContext x2)) = call_saved (retAddr i) ((view p c)\<lparr>gpr := leave_regs i tNext (fst (cpus c p))\<rparr>)"
    using leave_task_saves [OF wfd t offd, of i] d tr(2) unfolding p_def by metis
  show thesis
  proof (rule that [of c1])
    show "SwapTo i tNext t c = Ok c1"
      using k st on x al c1(1) unfolding SwapTo_def p_def s_def Let_def by simp
    show "copy_from_private s' (ctasks c1 t) m' = Ok (mem_write ?tos
        (mem_read (cmem c) ?tos (unat (sharedStackAlignedEndAct s - ?tos))) m')"
      if "sharedStackAlignedEndAct s' = sharedStackAlignedEndAct s" for s' m'
      using restore [of s' m'] that n un c1(3) d(1) by simp
  qed (use c1 d tr k x(5) in \<open>simp_all add: p_def\<close>)
qed

text \<open>Resuming a task whose object and context still hold what they held when it left.\<close>

lemma resume_restores:
  assumes wf: "wf_coro T P c" "wf_coro T P c2" and t: "t \<in> T" and p: "p = scheduler (ctasks c t)"
    and on: "on_shared_stack (sched_of t c) (fst (cpus c p) RSP)"
    and x: "scheduler (ctasks c2 t) = p" "stackKind (ctasks c2 t) = SharedCopyStack"
    and regs: "registers (cctxs c2 (uContext (ctasks c2 t))) = call_saved ret1 m1"
    and restore: "copy_from_private (sched_of t c2) (ctasks c2 t) (cmem c2) = Ok (mem_write (fst (cpus c p) RSP)
      (mem_read (cmem c) (fst (cpus c p) RSP) (unat (sharedStackAlignedEndAct (sched_of t c) - fst (cpus c p) RSP))) (cmem c2))"
    and clear: "clear_of (sched_of t c) (fst (cpus c2 p) RSP)"
    and prev: "\<And>u. prev = Some u \<Longrightarrow> u \<in> T \<and> u \<noteq> t"
  shows "\<exists>c3. SwapFrom ret prev t c2 = Ok c3 \<and> snd (cpus c3 p) = ret1
      \<and> (\<forall>r \<in> callee_saved. fst (cpus c3 p) r = gpr m1 r)
      \<and> (\<forall>a. fst (cpus c p) RSP \<le> a \<longrightarrow> a < sharedStackAlignedEndAct (sched_of t c) \<longrightarrow> cmem c3 a = cmem c a)"
proof -
  let ?s = "sched_of t c" and ?tos = "fst (cpus c p) RSP"
  let ?m = "mem_write ?tos (mem_read (cmem c) ?tos (unat (sharedStackAlignedEndAct ?s - ?tos))) (cmem c2)"
  let ?d = "c2\<lparr>cmem := ?m\<rparr>"
  let ?old = "case prev of Some n \<Rightarrow> uContext (ctasks c2 n) | None \<Rightarrow> schedulerContext (sched_of t c2)"
  let ?new = "uContext (ctasks c2 t)"
  let ?c3 = "switch p ret ?old ?new (address (ctasks c2 t)) ?d"
  have old: "length (registers (cctxs ?d ?old)) = 8"
    using wf_coroD(4) [OF wf(2)] wf_coroD(5) [OF wf(2) t] prev by (simp split: option.splits)
  have regs': "registers (cctxs ?d ?new) = call_saved ret1 m1" using regs by simp
  have ne: "?old \<noteq> ?new"
    using wf_coroD(6) [OF wf(2) t t] wf_coro_distinct [OF wf(2) t] prev by (simp split: option.splits)
  have "SwapFrom ret prev t c2 = Ok ?c3"
    using x restore by (cases prev) (simp_all add: SwapFrom_def resume_def Let_def sched_of_def)
  moreover have "cmem ?c3 a = cmem c a" if a: "?tos \<le> a" "a < sharedStackAlignedEndAct ?s" for a
  proof -
    have "cmem ?c3 a = ?m a"
      using push_outside [OF wf_coroD(3) [OF wf(1) t] on clear a] switch_effect(2) [OF old] by (simp add: store64_outside)
    moreover have "unat (a - ?tos) < unat (sharedStackAlignedEndAct ?s - ?tos)"
      using a by (simp add: unat_sub word_le_nat_alt word_less_nat_alt)
    ultimately show ?thesis by (simp add: mem_write_read_same)
  qed
  moreover have "snd (cpus ?c3 p) = ret1" "r \<in> callee_saved \<Longrightarrow> fst (cpus ?c3 p) r = gpr m1 r" for r
    using switch_back [OF regs' old ne] by simp_all
  ultimately show ?thesis by blast
qed

text \<open>C2. A task on the shared stack that leaves for the scheduler, or for a task of its thread with a stack of its own, saves its
  stack, when memory is available. Then the threads may do anything that does not concern the task: code
  runs and overwrites the shared stack, other tasks leave, resume, are stolen or created. When the task is resumed, by the
  scheduler or directly by another task, from a stack clear of the shared one, it
  continues at its return address with the stack pointer and the registers it left with, and every byte of the
  shared stack from the stack pointer that \<^verbatim>\<open>SwapTo\<close> read up to the end is as it was. A task that leaves for the scheduler
  has the stack pointer that \<^verbatim>\<open>SwapTo\<close> read; one that leaves for a task has it or a higher one only after tail calls.\<close>

theorem suspended_task_resumes:
  assumes "wf_coro T P c" "t \<in> T" "stackKind (ctasks c t) = SharedCopyStack"
    and "status (ctasks c t) \<noteq> TASK_FINISHED" "allocOk i" "p = scheduler (ctasks c t)"
    and "on_shared_stack (sched_of t c) (fst (cpus c p) RSP)" "off_stack T t tNext c"
  shows "\<exists>c1. SwapTo i tNext t c = Ok c1 \<and>
    (\<forall>es c2 ret prev. (\<forall>e \<in> set es. within T P e \<and> \<not> concerns t e) \<longrightarrow> each coro_step es c1 = Ok c2 \<longrightarrow>
       clear_of (sched_of t c2) (fst (cpus c2 p) RSP) \<longrightarrow> (\<forall>u. prev = Some u \<longrightarrow> u \<in> T \<and> u \<noteq> t) \<longrightarrow>
       (\<exists>c3. SwapFrom ret prev t c2 = Ok c3 \<and> snd (cpus c3 p) = retAddr i
          \<and> (\<forall>r \<in> callee_saved. fst (cpus c3 p) r = leave_regs i tNext (fst (cpus c p)) r)
          \<and> (\<forall>a. fst (cpus c p) RSP \<le> a \<longrightarrow> a < sharedStackAlignedEndAct (sched_of t c) \<longrightarrow> cmem c3 a = cmem c a)))"
proof -
  let ?s = "sched_of t c" and ?tos = "fst (cpus c p) RSP"
  let ?m1 = "(view p c)\<lparr>gpr := leave_regs i tNext (fst (cpus c p))\<rparr>"
  obtain c1 where c1: "SwapTo i tNext t c = Ok c1" "wf_coro T P c1"
    "scheduler (ctasks c1 t) = p" "stackKind (ctasks c1 t) = SharedCopyStack" "cscheds c1 = cscheds c"
    "registers (cctxs c1 (uContext (ctasks c1 t))) = call_saved (retAddr i) ?m1"
    and restore: "\<And>s' m'. sharedStackAlignedEndAct s' = sharedStackAlignedEndAct ?s \<Longrightarrow>
      copy_from_private s' (ctasks c1 t) m'
        = Ok (mem_write ?tos (mem_read (cmem c) ?tos (unat (sharedStackAlignedEndAct ?s - ?tos))) m')"
    using SwapTo_saves [OF assms(1-5,8)] assms(6,7) by metis
  have "\<exists>c3. SwapFrom ret prev t c2 = Ok c3 \<and> snd (cpus c3 p) = retAddr i
      \<and> (\<forall>r \<in> callee_saved. fst (cpus c3 p) r = leave_regs i tNext (fst (cpus c p)) r)
      \<and> (\<forall>a. ?tos \<le> a \<longrightarrow> a < sharedStackAlignedEndAct ?s \<longrightarrow> cmem c3 a = cmem c a)"
    if es: "\<forall>e \<in> set es. within T P e \<and> \<not> concerns t e" "each coro_step es c1 = Ok c2"
      and clear: "clear_of (sched_of t c2) (fst (cpus c2 p) RSP)" "\<forall>u. prev = Some u \<longrightarrow> u \<in> T \<and> u \<noteq> t" for es c2 ret prev
  proof -
    have k: "spares T P t c1 c2" by (rule run_spares [OF c1(2) assms(2) _ es(2)]) (use es(1) in auto)
    then have wf2: "wf_coro T P c2" and t2: "ctasks c2 t = ctasks c1 t" by (auto simp: spares_def)
    have s2: "sharedStackAlignedEndAct (sched_of t c2) = sharedStackAlignedEndAct ?s"
      and clear': "clear_of ?s (fst (cpus c2 p) RSP)"
      using k clear(1) c1(3,5) assms(6) by (simp_all add: spares_def sched_of_def clear_of_def)
    have regs: "registers (cctxs c2 (uContext (ctasks c2 t))) = call_saved (retAddr i) ?m1"
      using k c1(6) by (simp add: spares_def)
    have "copy_from_private (sched_of t c2) (ctasks c2 t) (cmem c2)
        = Ok (mem_write ?tos (mem_read (cmem c) ?tos (unat (sharedStackAlignedEndAct ?s - ?tos))) (cmem c2))"
      using t2 restore [OF s2] by simp
    from resume_restores [OF assms(1) wf2 assms(2,6,7) _ _ regs this clear'] t2 c1(3,4) clear(2) show ?thesis by simp
  qed
  with c1(1) show ?thesis by blast
qed

definition demo_sched :: SchedulerBase where
  "demo_sched = fst (new_SchedulerBase 1000 600 1 (\<lambda>_. 0))"

definition demo_coro :: coro where
  "demo_coro = \<lparr>cpus = (\<lambda>_. ((\<lambda>_. 1400), 0)), cmem = (\<lambda>a. ucast a),
     cctxs = (\<lambda>_. \<lparr>registers = replicate 8 0, ss_sp = 1000, ss_size = 600\<rparr>),
     ctasks = (\<lambda>_. new_StackTask BATCH_TASK_T SharedCopyStack RIBPtr 77 2), cscheds = (\<lambda>_. demo_sched)\<rparr>"

lemma suspended_task_resumes_witness:
  "\<exists>c1 c3. SwapTo \<lparr>retAddr = 5, allocOk = True, fromRet = 0, fromFrame = 8, tailRegs = None\<rparr> None 0 demo_coro = Ok c1
    \<and> SwapFrom 9 None 0 (c1\<lparr>cpus := (cpus c1)(RIBPtr := (\<lambda>_. 8000, 6)), cmem := \<lambda>_. 0\<rparr>) = Ok c3
    \<and> cmem c3 1450 = 170 \<and> snd (cpus c3 RIBPtr) = 5"
proof -
  have top: "stack_top 1000 600 = 1584" by (simp add: stack_top_def)
  have sched: "sched_of t demo_coro = demo_sched" for t by (simp add: sched_of_def demo_coro_def)
  have "stack_fits 1000 (ucast (600 :: u32))" by (simp add: stack_fits_def)
  from new_SchedulerBase_laid_out [OF this, of 1 "\<lambda>_. 0"] have lay: "laid_out demo_sched"
    by (simp add: demo_sched_def)
  have ends: "sharedStackAlignedEnd demo_sched = 1584" "sharedStackAlignedEndAct demo_sched = 1576"
    "sharedStackSizeActual demo_sched = 600" "schedulerContext demo_sched = 1"
    by (simp_all add: demo_sched_def new_SchedulerBase_def Let_def top)
  have wf: "wf_coro {0} {RIBPtr} demo_coro"
    by (simp add: wf_coro_def) (simp add: demo_coro_def lay ends)
  let ?i = "\<lparr>retAddr = 5, allocOk = True, fromRet = 0, fromFrame = 8, tailRegs = None\<rparr>"
  have on: "on_shared_stack (sched_of 0 demo_coro) (fst (cpus demo_coro RIBPtr) RSP)"
    unfolding sched by (simp add: on_shared_stack_def ends demo_coro_def)
  have fields: "stackKind (ctasks demo_coro 0) = SharedCopyStack" "status (ctasks demo_coro 0) \<noteq> TASK_FINISHED"
    "RIBPtr = scheduler (ctasks demo_coro 0)"
    by (simp_all add: demo_coro_def new_StackTask_def TaskInterface.defs new_TaskInterface_def)
  obtain c1 where c1: "SwapTo ?i None 0 demo_coro = Ok c1"
    and all: "\<forall>es c2 ret prev. (\<forall>e \<in> set es. within {0} {RIBPtr} e \<and> \<not> concerns 0 e) \<longrightarrow> each coro_step es c1 = Ok c2 \<longrightarrow>
       clear_of (sched_of 0 c2) (fst (cpus c2 RIBPtr) RSP) \<longrightarrow> (\<forall>u. prev = Some u \<longrightarrow> u \<in> {0} \<and> u \<noteq> 0) \<longrightarrow>
       (\<exists>c3. SwapFrom ret prev 0 c2 = Ok c3 \<and> snd (cpus c3 RIBPtr) = retAddr ?i
          \<and> (\<forall>r \<in> callee_saved. fst (cpus c3 RIBPtr) r = leave_regs ?i None (fst (cpus demo_coro RIBPtr)) r)
          \<and> (\<forall>a. fst (cpus demo_coro RIBPtr) RSP \<le> a \<longrightarrow> a < sharedStackAlignedEndAct (sched_of 0 demo_coro) \<longrightarrow>
                cmem c3 a = cmem demo_coro a))"
    using suspended_task_resumes [OF wf _ fields(1,2) _ fields(3) on, of ?i None] by (auto simp: off_stack_def)
  let ?e = "Run RIBPtr (\<lambda>_. 8000) 6 (\<lambda>_. 0)"
  have "cscheds c1 = cscheds demo_coro"
    using SwapTo_saves [OF wf _ fields(1,2), of ?i None] c1 on fields(3) by (auto simp: off_stack_def)
  then have "clear_of (sched_of 0 (c1\<lparr>cpus := (cpus c1)(RIBPtr := (\<lambda>_. 8000, 6)), cmem := \<lambda>_. 0\<rparr>)) 8000"
    by (simp add: sched_of_def demo_coro_def clear_of_def ends)
  with all [rule_format, of "[?e]" "c1\<lparr>cpus := (cpus c1)(RIBPtr := (\<lambda>_. 8000, 6)), cmem := \<lambda>_. 0\<rparr>" None 9]
  obtain c3 where "SwapFrom 9 None 0 (c1\<lparr>cpus := (cpus c1)(RIBPtr := (\<lambda>_. 8000, 6)), cmem := \<lambda>_. 0\<rparr>) = Ok c3"
    "snd (cpus c3 RIBPtr) = 5" "cmem c3 1450 = cmem demo_coro 1450" by (auto simp: sched ends) (simp add: demo_coro_def)
  with c1 show ?thesis by (auto simp: demo_coro_def)
qed

section \<open>Limits of the shared stack\<close>

text \<open>The bounds check of \<^verbatim>\<open>SwapTo\<close> measures the whole allocation from the aligned end, not from the end: a stack pointer
  16 bytes below the start of the shared stack still passes it, and the task goes on as if it had not
  overflowed.\<close>

lemma overflow_passes_check:
  assumes "laid_out s" "32 \<le> sharedStackBegin s"
  shows "sharedStackBegin s - 16 < sharedStackBegin s \<and> on_shared_stack s (sharedStackBegin s - 16)"
proof -
  let ?b = "sharedStackBegin s" and ?n = "ucast (sharedStackSizeActual s) :: u64"
  have fits: "stack_fits ?b ?n" using assms(1) by (simp add: laid_out_def)
  note b = stack_top_bounds [OF fits]
  have E: "sharedStackAlignedEnd s = stack_top ?b ?n" using assms(1) by (simp add: laid_out_def)
  have "32 \<le> unat ?b" using assms(2) by (simp add: word_le_nat_alt)
  then have b16: "unat (?b - 16) = unat ?b - 16" by (simp add: unat_sub word_le_nat_alt)
  note \<open>32 \<le> unat ?b\<close>
  moreover have "unat ?b < unat (stack_top ?b ?n)" using b(2) fits by (simp add: stack_fits_def)
  moreover have "?n \<le> stack_top ?b ?n" using b(2) \<open>32 \<le> unat ?b\<close> fits
    by (simp add: word_le_nat_alt stack_fits_def)
  ultimately have "unat (stack_top ?b ?n - ?n) \<le> unat ?b - 16" using b(3) by (simp add: unat_sub)
  moreover have "unat ?b - 16 \<le> unat (sharedStackAlignedEndAct s)"
    using laid_out_unat [OF assms(1)] b(2) fits unfolding E stack_fits_def by linarith
  ultimately show ?thesis
    unfolding on_shared_stack_def E using b16 \<open>32 \<le> unat ?b\<close> by (simp add: word_le_nat_alt word_less_nat_alt)
qed

lemma overflow_passes_check_witness:
  "on_shared_stack (fst (new_SchedulerBase 1000 600 1 (\<lambda>_. 0))) (1000 - 16)"
proof -
  have "stack_fits 1000 (ucast (600 :: u32))" by (simp add: stack_fits_def)
  from new_SchedulerBase_laid_out [OF this, of 1 "\<lambda>_. 0"]
  have "laid_out (fst (new_SchedulerBase 1000 600 1 (\<lambda>_. 0)))" .
  from overflow_passes_check [OF this] show ?thesis by (simp add: new_SchedulerBase_def Let_def)
qed

text \<open>A task switch without going through the scheduler: \<^verbatim>\<open>SwapFrom\<close> of the next task runs on the stack that is in use.\<close>

lemma of_nat_unat_ucast: "of_nat (unat (n :: u32)) = (ucast n :: u64)"
proof -
  have "unat n < 2 ^ 64" using unsigned_less [of n, where 'a = nat] by simp
  then have "unat (of_nat (unat n) :: u64) = unat (ucast n :: u64)" by (simp only: unat_ucast_32 unat_of_nat) simp
  then show ?thesis by (simp only: word_unat_eq_iff)
qed

lemma offset_in_copy:
  fixes e tos :: u64 and n :: u32
  assumes "unat (e - tos) + 8 \<le> unat n" "i < 8"
  shows "unat (tos - 8 + of_nat i - (e - ucast n)) = unat n - unat (e - tos) - 8 + i"
proof -
  have "of_nat (unat n - unat (e - tos) - 8 + i) = (ucast n - (e - tos) - 8 + of_nat i :: u64)"
    using assms(1) by (simp add: of_nat_diff of_nat_unat_ucast)
  then have eq: "tos - 8 + of_nat i - (e - ucast n) = of_nat (unat n - unat (e - tos) - 8 + i)" by simp
  have "unat n - unat (e - tos) - 8 + i < 2 ^ 64" using assms unsigned_less [of n, where 'a = nat] by simp
  then show ?thesis unfolding eq unat_of_nat by simp
qed

lemma copy_overwrites:
  assumes "privateStack x = Some bs" "unat (privateStackSize x) \<le> length bs"
    and "unat (sharedStackAlignedEndAct s - tos) + 8 \<le> unat (privateStackSize x)"
  obtains m' where "copy_from_private s x m = Ok m'"
    and "mem_read m' (tos - 8) 8 = take 8 (drop (unat (privateStackSize x) - unat (sharedStackAlignedEndAct s - tos) - 8) bs)"
proof
  let ?n = "privateStackSize x" and ?e = "sharedStackAlignedEndAct s"
  let ?m' = "mem_write (?e - ucast ?n) (take (unat ?n) bs) m"
  let ?k = "unat ?n - unat (?e - tos) - 8"
  show "copy_from_private s x m = Ok ?m'" using assms(1,2) by (simp add: copy_from_private_def Let_def)
  have len: "?k + 8 \<le> length bs" using assms(2,3) by linarith
  show "mem_read ?m' (tos - 8) 8 = take 8 (drop ?k bs)"
  proof (rule nth_equalityI)
    fix i assume "i < length (mem_read ?m' (tos - 8) 8)"
    then have i: "i < 8" by simp
    have off: "unat (tos - 8 + of_nat i - (?e - ucast ?n)) = ?k + i" by (rule offset_in_copy [OF assms(3) i])
    have "?k + i < unat ?n" using assms(3) i by linarith
    then show "mem_read ?m' (tos - 8) 8 ! i = take 8 (drop ?k bs) ! i"
      using i len assms(2) by (simp add: mem_write_def off)
  qed (use len in simp)
qed

lemma frame_push_below:
  fixes tos f :: u64
  assumes "8 \<le> unat f" "unat f < 2 ^ 32"
  shows "mem_read (store64 (tos - f - 8) v m) (tos - 8) 8 = mem_read m (tos - 8) 8"
proof (rule nth_equalityI)
  fix j assume "j < length (mem_read (store64 (tos - f - 8) v m) (tos - 8) 8)"
  then have j: "j < 8" by simp
  have eq: "tos - 8 + of_nat j - (tos - f - 8) = of_nat (unat f + j)" by simp
  have "8 \<le> unat (tos - 8 + of_nat j - (tos - f - 8))"
    unfolding eq unat_of_nat using assms j by simp
  then show "mem_read (store64 (tos - f - 8) v m) (tos - 8) 8 ! j = mem_read m (tos - 8) 8 ! j"
    using j by (simp add: store64_outside)
qed simp

text \<open>C23. When a task on the shared stack switches directly to another one of the same thread whose saved stack is at least a word
  longer than the part in use, and the call of \<^verbatim>\<open>SwapFrom\<close> is an ordinary call with a frame of at least a word, the copy
  runs over the frame that performs it: the word just below the
  leaving task's stack pointer, where the call of \<^verbatim>\<open>SwapFrom\<close> left its return address, then holds eight bytes of
  the other task's stack. And the task's saved stack does not contain that frame, although its
  context resumes in it.\<close>

theorem direct_switch_overwrites_frame:
  assumes "wf_coro T P c" "t \<in> T" "n \<in> T" "n \<noteq> t"
    and "stackKind (ctasks c t) = SharedCopyStack" "stackKind (ctasks c n) = SharedCopyStack"
    and "scheduler (ctasks c t) = p" "scheduler (ctasks c n) = p"
    and "status (ctasks c t) \<noteq> TASK_FINISHED" "on_shared_stack (sched_of t c) (fst (cpus c p) RSP)" "allocOk i"
    and "privateStack (ctasks c n) = Some bs" "unat (privateStackSize (ctasks c n)) \<le> length bs"
    and "unat (sharedStackAlignedEndAct (sched_of t c) - fst (cpus c p) RSP) + 8 \<le> unat (privateStackSize (ctasks c n))"
    and "tailRegs i = None" "8 \<le> unat (fromFrame i)" "unat (fromFrame i) < 2 ^ 32"
  shows "\<exists>c1. SwapTo i (Some n) t c = Ok c1
    \<and> mem_read (cmem c1) (fst (cpus c p) RSP - 8) 8
      = take 8 (drop (unat (privateStackSize (ctasks c n))
          - unat (sharedStackAlignedEndAct (sched_of t c) - fst (cpus c p) RSP) - 8) bs)
    \<and> registers (cctxs c1 (uContext (ctasks c t))) ! 5 = fst (cpus c p) RSP - fromFrame i
    \<and> ucast (privateStackSize (ctasks c1 t)) = sharedStackAlignedEndAct (sched_of t c) - fst (cpus c p) RSP"
proof -
  let ?x = "ctasks c t" and ?tos = "fst (cpus c p) RSP" and ?e = "sharedStackAlignedEndAct (sched_of t c)"
  let ?n = "ucast (?e - ?tos) :: u32"
  obtain x1 x2 where x: "reserve True ?n ?x = (x1, True)" "copy_to_private (cmem c) ?tos x1 = Ok x2"
    "TaskInterface.truncate x2 = TaskInterface.truncate ?x" "uContext x2 = uContext ?x" "privateStackSize x2 = ?n"
    using save_round_trip [OF wf_coroD(2) [OF assms(1,2)] assms(9), of True ?n "cmem c" ?tos] by metis
  note tr = truncate_fields [OF x(3)]
  let ?d = "enter_frame p i (set_task t x2 c)"
  have d: "ctasks ?d n = ctasks c n" "ctasks ?d t = x2" "cscheds ?d = cscheds c" "cctxs ?d = cctxs c"
      "fst (cpus ?d p) RSP = ?tos - fromFrame i"
    using assms(4,15) by (simp_all add: enter_frame_def put_def view_def set_task_def Let_def)
  have s: "sched_of n ?d = sched_of t c" using d assms(7,8) by (simp add: sched_of_def)
  obtain m' where m': "copy_from_private (sched_of t c) (ctasks c n) (cmem ?d) = Ok m'"
    "mem_read m' (?tos - 8) 8 = take 8 (drop (unat (privateStackSize (ctasks c n)) - unat (?e - ?tos) - 8) bs)"
    using copy_overwrites [OF assms(12-14)] by blast
  let ?d' = "?d\<lparr>cmem := m'\<rparr>"
  let ?c1 = "resume (retAddr i) (Some t) n ?d'"
  have len: "length (registers (cctxs ?d' (uContext x2))) = 8"
    using wf_coroD(4) [OF assms(1,2)] d x(4) by simp
  have c1: "?c1 = switch p (retAddr i) (uContext x2) (uContext (ctasks c n)) (address (ctasks c n)) ?d'"
    using d assms(8) by (simp add: resume_def Let_def)
  have "SwapTo i (Some n) t c = Ok ?c1"
    using assms(5-11) x m'(1) d s tr by (simp add: SwapTo_def leave_task_def SwapFrom_def Let_def set_task_def)
  moreover have "mem_read (cmem ?c1) (?tos - 8) 8 = mem_read m' (?tos - 8) 8"
    unfolding c1 switch_effect(2) [OF len] using frame_push_below [OF assms(16,17)] d(5) by simp
  moreover have "registers (cctxs ?c1 (uContext ?x)) ! 5 = ?tos - fromFrame i"
    unfolding c1 switch_effect(1) [OF len] using x(4) d(5) by (simp add: call_saved_def view_def)
  moreover have "ucast (privateStackSize (ctasks ?c1 t)) = ?e - ?tos"
    unfolding c1 using d(2) x(5) used_size(3) [OF wf_coroD(3) [OF assms(1,2)] assms(10)] by simp
  ultimately show ?thesis using m'(2) by auto
qed

definition demo_pair :: coro where
  "demo_pair = demo_coro\<lparr>cpus := (\<lambda>_. ((\<lambda>_. 1500), 0)),
     ctasks := (\<lambda>t. if t = 0 then new_StackTask BATCH_TASK_T SharedCopyStack RIBPtr 77 2
       else (new_StackTask BATCH_TASK_T SharedCopyStack RIBPtr 78 3)
         \<lparr>privateStack := Some (replicate 100 170), privateStackSize := 100, privateStackSizeUpperBound := 100\<rparr>)\<rparr>"

lemma direct_switch_overwrites_frame_witness:
  "\<exists>c1. SwapTo \<lparr>retAddr = 5, allocOk = True, fromRet = 4242, fromFrame = 16, tailRegs = None\<rparr> (Some 1) 0 demo_pair = Ok c1
    \<and> mem_read (cmem c1) 1492 8 = replicate 8 170"
proof -
  let ?i = "\<lparr>retAddr = 5, allocOk = True, fromRet = 4242, fromFrame = 16, tailRegs = None\<rparr>"
  have "stack_fits 1000 (ucast (600 :: u32))" by (simp add: stack_fits_def)
  from new_SchedulerBase_laid_out [OF this, of 1 "\<lambda>_. 0"] have lay: "laid_out demo_sched"
    by (simp add: demo_sched_def)
  have ends: "sharedStackAlignedEnd demo_sched = 1584" "sharedStackAlignedEndAct demo_sched = 1576"
    "sharedStackSizeActual demo_sched = 600" "schedulerContext demo_sched = 1"
    by (simp_all add: demo_sched_def new_SchedulerBase_def Let_def stack_top_def)
  have sched: "sched_of t demo_pair = demo_sched" for t
    by (simp add: sched_of_def demo_pair_def demo_coro_def)
  have fields: "stackKind (ctasks demo_pair t) = SharedCopyStack" "status (ctasks demo_pair t) \<noteq> TASK_FINISHED"
      "scheduler (ctasks demo_pair t) = RIBPtr" for t
    by (simp_all add: demo_pair_def new_StackTask_def TaskInterface.defs new_TaskInterface_def)
  have wf: "wf_coro {0, 1} {RIBPtr} demo_pair"
    by (simp add: wf_coro_def fields) (simp add: demo_pair_def demo_coro_def lay ends private_ok_def
      new_StackTask_def TaskInterface.defs new_TaskInterface_def)
  have regs: "fst (cpus demo_pair RIBPtr) RSP = 1500" by (simp add: demo_pair_def)
  have one: "privateStack (ctasks demo_pair 1) = Some (replicate 100 170)" "privateStackSize (ctasks demo_pair 1) = 100"
    by (simp_all add: demo_pair_def)
  have on: "on_shared_stack (sched_of 0 demo_pair) (fst (cpus demo_pair RIBPtr) RSP)"
    unfolding sched regs by (simp add: on_shared_stack_def ends)
  show ?thesis
    using direct_switch_overwrites_frame [where t = 0 and n = 1 and i = ?i and bs = "replicate 100 170",
      OF wf _ _ _ fields(1,1,3,3,2) on] one
    unfolding sched regs ends by auto
qed

end
