(* ===== verification/TaskLocal.thy ===== *)
theory TaskLocal
  imports Prelude
begin

text \<open>
  Task-local storage (\<^verbatim>\<open>include/scheduler/tasklocal.hpp\<close>, \<^verbatim>\<open>src/scheduler/tasklocal.cc\<close>): one map from locations to
  dynamically typed values for each task, copied from a global map when the task is created, and the global
  map for code that runs outside of any task.
\<close>

section \<open>State\<close>

text \<open>A \<^verbatim>\<open>std::any\<close> is empty or holds a value together with its type; types are named by the values of
  \<open>'ty\<close>. A location is the address of a static variable.\<close>

type_synonym JTLSLocation = u64
type_synonym ('ty, 'v) any = "('ty \<times> 'v) option"
type_synonym ('ty, 'v) tlpool = "JTLSLocation \<rightharpoonup> ('ty, 'v) any"

record ('ty, 'v) jtls =
  GlobalJTLSMap :: "('ty, 'v) tlpool"
  taskLocalStoragePool :: "tid \<Rightarrow> ('ty, 'v) tlpool"

definition new_jtls :: "('ty, 'v) jtls" where
  "new_jtls = \<lparr>GlobalJTLSMap = Map.empty, taskLocalStoragePool = (\<lambda>_. Map.empty)\<rparr>"

text \<open>The constructor of a task copies the global map.\<close>

definition jtls_new_task :: "tid \<Rightarrow> ('ty, 'v) jtls \<Rightarrow> ('ty, 'v) jtls" where
  "jtls_new_task t s = s\<lparr>taskLocalStoragePool := (taskLocalStoragePool s)(t := GlobalJTLSMap s)\<rparr>"

definition get_pool :: "tid option \<Rightarrow> ('ty, 'v) jtls \<Rightarrow> ('ty, 'v) tlpool" where
  "get_pool active s = (case active of Some t \<Rightarrow> taskLocalStoragePool s t | None \<Rightarrow> GlobalJTLSMap s)"

definition set_pool :: "tid option \<Rightarrow> ('ty, 'v) tlpool \<Rightarrow> ('ty, 'v) jtls \<Rightarrow> ('ty, 'v) jtls" where
  "set_pool active m s = (case active of
      Some t \<Rightarrow> s\<lparr>taskLocalStoragePool := (taskLocalStoragePool s)(t := m)\<rparr>
    | None \<Rightarrow> s\<lparr>GlobalJTLSMap := m\<rparr>)"

section \<open>Access\<close>

text \<open>\<^verbatim>\<open>GetByJTLSLocation<T>\<close> for the type \<open>T\<close>, with \<open>v\<close> the value its arguments construct. A value of another type
  makes \<^verbatim>\<open>any_cast\<close> throw.\<close>

definition GetByJTLSLocation ::
    "'ty \<Rightarrow> 'v \<Rightarrow> tid option \<Rightarrow> JTLSLocation \<Rightarrow> ('ty, 'v) jtls \<Rightarrow> ('v \<times> ('ty, 'v) jtls) outcome" where
  "GetByJTLSLocation T v active location s =
    (let pool = get_pool active s;
         pool1 = (if pool location = None then pool(location \<mapsto> None) else pool) in
     case the (pool1 location) of
       None \<Rightarrow> Ok (v, set_pool active (pool1(location \<mapsto> Some (T, v))) s)
     | Some (ty, w) \<Rightarrow> if ty = T then Ok (w, set_pool active pool1 s) else Fault Uncaught)"

text \<open>A reference is a location and a type. Creating one constructs the value of the creating task; converting it
  reads the value of the task that is then active, which is default constructed if that task has none.\<close>

record 'ty JTLSRef =
  addressLocation :: JTLSLocation
  refType :: 'ty

definition CreateTaskLS ::
    "'ty \<Rightarrow> 'v \<Rightarrow> tid option \<Rightarrow> JTLSLocation \<Rightarrow> ('ty, 'v) jtls \<Rightarrow> ('ty JTLSRef \<times> ('ty, 'v) jtls) outcome" where
  "CreateTaskLS T v active location s =
     obind (GetByJTLSLocation T v active location s)
       (\<lambda>(_, s1). Ok (\<lparr>addressLocation = location, refType = T\<rparr>, s1))"

definition JTLSRef_get ::
    "('ty \<Rightarrow> 'v) \<Rightarrow> 'ty JTLSRef \<Rightarrow> tid option \<Rightarrow> ('ty, 'v) jtls \<Rightarrow> ('v \<times> ('ty, 'v) jtls) outcome" where
  "JTLSRef_get dflt r active s = GetByJTLSLocation (refType r) (dflt (refType r)) active (addressLocation r) s"

text \<open>Assignment through the converted reference.\<close>

definition JTLSRef_set ::
    "('ty \<Rightarrow> 'v) \<Rightarrow> 'ty JTLSRef \<Rightarrow> 'v \<Rightarrow> tid option \<Rightarrow> ('ty, 'v) jtls \<Rightarrow> ('ty, 'v) jtls outcome" where
  "JTLSRef_set dflt r v active s =
     obind (JTLSRef_get dflt r active s)
       (\<lambda>(_, s1). Ok (set_pool active ((get_pool active s1)(addressLocation r \<mapsto> Some (refType r, v))) s1))"

section \<open>Type safety\<close>

text \<open>The macro \<^verbatim>\<open>CreateTaskLS(tname, ...)\<close> makes a location of its own at each place it is used, so that a
  location has one declared type.\<close>

datatype ('ty, 'v) tls_event =
    NewTask tid
  | Create "tid option" JTLSLocation 'v
  | Read "tid option" JTLSLocation
  | Assign "tid option" JTLSLocation 'v

fun tls_step :: "(JTLSLocation \<Rightarrow> 'ty) \<Rightarrow> ('ty \<Rightarrow> 'v) \<Rightarrow> ('ty, 'v) tls_event \<Rightarrow> ('ty, 'v) jtls \<Rightarrow> ('ty, 'v) jtls outcome"
where
  "tls_step decl dflt (NewTask t) s = Ok (jtls_new_task t s)"
| "tls_step decl dflt (Create a l v) s = obind (CreateTaskLS (decl l) v a l s) (\<lambda>(_, s1). Ok s1)"
| "tls_step decl dflt (Read a l) s =
     obind (JTLSRef_get dflt \<lparr>addressLocation = l, refType = decl l\<rparr> a s) (\<lambda>(_, s1). Ok s1)"
| "tls_step decl dflt (Assign a l v) s = JTLSRef_set dflt \<lparr>addressLocation = l, refType = decl l\<rparr> v a s"

definition typed_pool :: "(JTLSLocation \<Rightarrow> 'ty) \<Rightarrow> ('ty, 'v) tlpool \<Rightarrow> bool" where
  "typed_pool decl m \<longleftrightarrow> (\<forall>l ty v. m l = Some (Some (ty, v)) \<longrightarrow> ty = decl l)"

definition typed :: "(JTLSLocation \<Rightarrow> 'ty) \<Rightarrow> ('ty, 'v) jtls \<Rightarrow> bool" where
  "typed decl s \<longleftrightarrow> (\<forall>a. typed_pool decl (get_pool a s))"

lemma get_set_pool [simp]: "get_pool b (set_pool a m s) = (if b = a then m else get_pool b s)"
  by (auto simp: get_pool_def set_pool_def split: option.splits)

lemma typed_set_pool: "typed decl s \<Longrightarrow> typed_pool decl m \<Longrightarrow> typed decl (set_pool a m s)"
  by (simp add: typed_def)

lemma typed_new: "typed decl new_jtls"
  by (simp add: typed_def typed_pool_def get_pool_def new_jtls_def split: option.splits)

text \<open>What an access returns, and what it leaves in the pool: the value that is there, or the
  newly constructed one.\<close>

definition lookup_or :: "'v \<Rightarrow> tid option \<Rightarrow> JTLSLocation \<Rightarrow> ('ty, 'v) jtls \<Rightarrow> 'v" where
  "lookup_or v a l s = (case get_pool a s l of Some (Some (ty, w)) \<Rightarrow> w | _ \<Rightarrow> v)"

lemma GetByJTLSLocation_typed:
  assumes "typed decl s"
  shows "GetByJTLSLocation (decl l) v a l s
    = Ok (lookup_or v a l s, set_pool a ((get_pool a s)(l \<mapsto> Some (decl l, lookup_or v a l s))) s)"
proof -
  have ty: "typed_pool decl (get_pool a s)" using assms by (simp add: typed_def)
  consider "get_pool a s l = None" | "get_pool a s l = Some None"
    | w where "get_pool a s l = Some (Some (decl l, w))"
    using ty unfolding typed_pool_def by (metis option.exhaust surj_pair)
  then show ?thesis
  proof cases
    case 3
    then have "(get_pool a s)(l \<mapsto> Some (decl l, w)) = get_pool a s" by auto
    with 3 show ?thesis by (simp add: GetByJTLSLocation_def lookup_or_def)
  qed (simp_all add: GetByJTLSLocation_def lookup_or_def)
qed

lemma typed_access:
  assumes "typed decl s"
  shows "typed decl (set_pool a ((get_pool a s)(l \<mapsto> Some (decl l, v))) s)"
  using assms by (intro typed_set_pool) (auto simp: typed_def typed_pool_def)

lemma set_set_pool [simp]: "set_pool a m (set_pool a m' s) = set_pool a m s"
  by (simp add: set_pool_def split: option.splits)

lemma Assign_effect:
  assumes "typed decl s"
  shows "tls_step decl dflt (Assign a l v) s = Ok (set_pool a ((get_pool a s)(l \<mapsto> Some (decl l, v))) s)"
  by (simp add: JTLSRef_set_def JTLSRef_get_def GetByJTLSLocation_typed [OF assms])

lemma tls_step_typed:
  assumes "typed decl s"
  obtains s' where "tls_step decl dflt e s = Ok s'" "typed decl s'"
proof (cases e)
  case (NewTask t)
  have "typed decl (jtls_new_task t s)"
    using assms unfolding typed_def jtls_new_task_def get_pool_def
    by (auto split: option.splits)
  with NewTask show thesis by (intro that) simp_all
next
  case (Create a l v)
  with GetByJTLSLocation_typed [OF assms] typed_access [OF assms] show thesis
    by (intro that) (simp_all add: CreateTaskLS_def)
next
  case (Read a l)
  with GetByJTLSLocation_typed [OF assms] typed_access [OF assms] show thesis
    by (intro that) (simp_all add: JTLSRef_get_def)
next
  case (Assign a l v)
  with Assign_effect [OF assms] typed_access [OF assms] show thesis by (intro that) simp_all
qed

lemma tls_run_typed: "typed decl s \<Longrightarrow> \<exists>s'. each (tls_step decl dflt) es s = Ok s' \<and> typed decl s'"
proof (induction es arbitrary: s)
  case (Cons e es)
  from tls_step_typed [OF Cons.prems] obtain s1 where "tls_step decl dflt e s = Ok s1" "typed decl s1" by blast
  with Cons.IH [of s1] show ?case by simp
qed simp

text \<open>C14. When every location is used with its declared type, as the macro that creates locations ensures, no sequence of
  task creations, creations of references, reads and assignments, by any tasks and outside of
  tasks, ever fails a cast; every stored value has the declared type of its location, and an
  access of that type returns a value in every state that is reached.\<close>

theorem tls_type_safe:
  "\<exists>s. each (tls_step decl dflt) es new_jtls = Ok s
    \<and> (\<forall>a l ty v. get_pool a s l = Some (Some (ty, v)) \<longrightarrow> ty = decl l)
    \<and> (\<forall>a l. \<exists>v s'. JTLSRef_get dflt \<lparr>addressLocation = l, refType = decl l\<rparr> a s = Ok (v, s'))"
proof -
  obtain s where s: "each (tls_step decl dflt) es new_jtls = Ok s" "typed decl s"
    using tls_run_typed [OF typed_new] by blast
  have "\<forall>a l ty v. get_pool a s l = Some (Some (ty, v)) \<longrightarrow> ty = decl l"
    using s(2) by (simp add: typed_def typed_pool_def)
  with s GetByJTLSLocation_typed [OF s(2)] show ?thesis by (auto simp: JTLSRef_get_def)
qed

lemma tls_type_safe_witness:
  "\<exists>s. each (tls_step (\<lambda>_. ''int'') (\<lambda>_. 0 :: int)) [NewTask 0, Create (Some 0) 5 3, Assign None 5 4] new_jtls = Ok s
    \<and> (get_pool (Some 0) s 5 = Some (Some (''bool'', 3)) \<longrightarrow> False)"
  using tls_type_safe [of "\<lambda>_. ''int''" "\<lambda>_. 0 :: int" "[NewTask 0, Create (Some 0) 5 3, Assign None 5 4]"]
  by fastforce

lemma wrong_type_throws:
  assumes "get_pool a s l = Some (Some (ty, w))" "ty \<noteq> T"
  shows "GetByJTLSLocation T v a l s = Fault Uncaught"
  using assms by (simp add: GetByJTLSLocation_def)

section \<open>Isolation\<close>

text \<open>An event can change the value of \<open>a\<close> at \<open>l\<close>, once it exists, only by assigning to it or by creating the task anew.\<close>

fun touches :: "tid option \<Rightarrow> JTLSLocation \<Rightarrow> ('ty, 'v) tls_event \<Rightarrow> bool" where
  "touches a l (NewTask t) = (a = Some t)"
| "touches a l (Create b k v) = False"
| "touches a l (Read b k) = False"
| "touches a l (Assign b k v) = (b = a \<and> k = l)"

lemma untouched_step:
  assumes "typed decl s" "get_pool a s l = Some (Some (decl l, v))" "\<not> touches a l e"
    and "tls_step decl dflt e s = Ok s'"
  shows "get_pool a s' l = Some (Some (decl l, v))"
proof (cases e)
  case (NewTask t)
  with assms(2-4) show ?thesis by (auto simp: jtls_new_task_def get_pool_def split: option.splits)
next
  case (Create b k x)
  with assms(2,4) show ?thesis
    by (auto simp: CreateTaskLS_def GetByJTLSLocation_typed [OF assms(1)] lookup_or_def)
next
  case (Read b k)
  with assms(2,4) show ?thesis
    by (auto simp: JTLSRef_get_def GetByJTLSLocation_typed [OF assms(1)] lookup_or_def)
next
  case (Assign b k x)
  with assms(4) have "s' = set_pool b ((get_pool b s)(k \<mapsto> Some (decl k, x))) s"
    using Assign_effect [OF assms(1), where a = b] by simp
  with Assign assms(2,3) show ?thesis by auto
qed

lemma untouched_run:
  assumes "typed decl s" "get_pool a s l = Some (Some (decl l, v))" "\<And>e. e \<in> set es \<Longrightarrow> \<not> touches a l e"
    and "each (tls_step decl dflt) es s = Ok s'"
  shows "get_pool a s' l = Some (Some (decl l, v)) \<and> typed decl s'"
  using assms
proof (induction es arbitrary: s)
  case (Cons e es)
  then obtain s1 where s1: "tls_step decl dflt e s = Ok s1" "each (tls_step decl dflt) es s1 = Ok s'" by auto
  have "typed decl s1" using tls_step_typed [OF Cons.prems(1)] s1(1) by (metis outcome.inject)
  moreover have "get_pool a s1 l = Some (Some (decl l, v))"
    by (rule untouched_step [OF Cons.prems(1,2) _ s1(1)]) (use Cons.prems(3) in simp)
  ultimately show ?case using Cons.IH Cons.prems(3) s1(2) by simp
qed simp

text \<open>Task-local values are the task's own: what a task assigns at a location, after any history, is what it reads there
  later, whatever any other task does at the same or at other locations, and whatever the task itself does
  at other locations.\<close>

lemma tls_isolated:
  assumes "each (tls_step decl dflt) es1 new_jtls = Ok s1" "tls_step decl dflt (Assign a l v) s1 = Ok s2"
    and "each (tls_step decl dflt) es2 s2 = Ok s3" "\<forall>e \<in> set es2. \<not> touches a l e"
  shows "\<exists>s4. JTLSRef_get dflt \<lparr>addressLocation = l, refType = decl l\<rparr> a s3 = Ok (v, s4)"
proof -
  have ty1: "typed decl s1" using tls_run_typed [OF typed_new, of decl dflt es1] assms(1) by auto
  have s2: "s2 = set_pool a ((get_pool a s1)(l \<mapsto> Some (decl l, v))) s1"
    using Assign_effect [OF ty1] assms(2) by simp
  then have "typed decl s2" using typed_access [OF ty1] by simp
  from untouched_run [OF this _ _ assms(3), of a l v] assms(4) s2
  have "get_pool a s3 l = Some (Some (decl l, v))" "typed decl s3" by auto
  then show ?thesis by (simp add: JTLSRef_get_def GetByJTLSLocation_typed lookup_or_def)
qed

lemma tls_isolated_witness:
  "\<exists>s2 s3. tls_step (\<lambda>_. ''int'') (\<lambda>_. 0 :: int) (Assign (Some 0) 5 7) new_jtls = Ok s2
    \<and> each (tls_step (\<lambda>_. ''int'') (\<lambda>_. 0)) [Assign (Some 1) 5 8, Assign None 5 9] s2 = Ok s3
    \<and> (\<exists>s4. JTLSRef_get (\<lambda>_. 0) \<lparr>addressLocation = 5, refType = ''int''\<rparr> (Some 0) s3 = Ok (7, s4))"
proof -
  obtain s2 where s2: "tls_step (\<lambda>_. ''int'') (\<lambda>_. 0 :: int) (Assign (Some 0) 5 7) new_jtls = Ok s2"
      "typed (\<lambda>_. ''int'') s2"
    using tls_step_typed [OF typed_new] by blast
  obtain s3 where "each (tls_step (\<lambda>_. ''int'') (\<lambda>_. 0)) [Assign (Some 1) 5 8, Assign None 5 9] s2 = Ok s3"
    using tls_run_typed [OF s2(2)] by blast
  with s2(1) tls_isolated [of "\<lambda>_. ''int''" "\<lambda>_. 0 :: int" "[]" new_jtls "Some 0" 5 7 s2] show ?thesis by fastforce
qed

end
