(* ===== verification/ThreadPool.thy ===== *)
theory ThreadPool
  imports Prelude
begin

text \<open>
  The callback thread pool (\<^verbatim>\<open>include/remote/threadpool.hpp\<close>): worker threads, a queue of functions, a
  condition variable and the stop flag, as threads that interleave. A step is a critical section of
  \<^verbatim>\<open>queue_mutex\<close>, a notification, which the code sends after it has released the mutex, or the end of a
  function.
\<close>

section \<open>State and operations\<close>

text \<open>A worker is about to test its condition, waits for a notification, runs a function, or has
  returned.\<close>

datatype 'f worker = Awake | Waiting | Busy 'f | Exited

text \<open>\<open>pending\<close> counts the calls of \<^verbatim>\<open>enqueue\<close> that have released the mutex and not yet notified, \<open>pendingAll\<close> says
  that about the destructor. The last three fields are histories: functions accepted, taken and finished.\<close>

record 'f ThreadPool =
  workers :: "'f worker list"
  tasks :: "'f list"
  stop :: bool
  pending :: nat
  pendingAll :: bool
  accepted :: "'f list"
  taken :: "'f list"
  finished :: "'f list"

definition new_ThreadPool :: "nat \<Rightarrow> 'f ThreadPool" where
  "new_ThreadPool threads = \<lparr>workers = replicate threads Awake, tasks = [], stop = False, pending = 0, pendingAll = False,
     accepted = [], taken = [], finished = []\<rparr>"

text \<open>\<^verbatim>\<open>enqueue\<close> throws once the pool is stopped.\<close>

definition enqueue :: "'f \<Rightarrow> 'f ThreadPool \<Rightarrow> 'f ThreadPool outcome" where
  "enqueue f p =
    (if stop p then Fault Uncaught
     else Ok (p\<lparr>tasks := tasks p @ [f], pending := pending p + 1, accepted := accepted p @ [f]\<rparr>))"

text \<open>\<^verbatim>\<open>notify_one\<close> wakes the waiting worker \<open>w\<close>, or no one when no worker waits.\<close>

definition wake :: "'f worker \<Rightarrow> 'f worker" where
  "wake x = (case x of Waiting \<Rightarrow> Awake | _ \<Rightarrow> x)"

definition enqueue_notify :: "nat \<Rightarrow> 'f ThreadPool \<Rightarrow> 'f ThreadPool" where
  "enqueue_notify w p = p\<lparr>workers := (workers p)[w := wake (workers p ! w)], pending := pending p - 1\<rparr>"

definition worker_section :: "nat \<Rightarrow> 'f ThreadPool \<Rightarrow> 'f ThreadPool" where
  "worker_section w p =
    (case tasks p of
       [] \<Rightarrow> p\<lparr>workers := (workers p)[w := if stop p then Exited else Waiting]\<rparr>
     | f # fs \<Rightarrow> p\<lparr>workers := (workers p)[w := Busy f], tasks := fs, taken := taken p @ [f]\<rparr>)"

definition worker_done :: "nat \<Rightarrow> 'f \<Rightarrow> 'f ThreadPool \<Rightarrow> 'f ThreadPool" where
  "worker_done w f p = p\<lparr>workers := (workers p)[w := Awake], finished := finished p @ [f]\<rparr>"

text \<open>The destructor: stop, notify everyone, join the workers.\<close>

definition dtor_stop :: "'f ThreadPool \<Rightarrow> 'f ThreadPool" where
  "dtor_stop p = p\<lparr>stop := True, pendingAll := True\<rparr>"

definition dtor_notify_all :: "'f ThreadPool \<Rightarrow> 'f ThreadPool" where
  "dtor_notify_all p = p\<lparr>workers := map wake (workers p), pendingAll := False\<rparr>"

definition dtor_join :: "'f ThreadPool \<Rightarrow> bool" where
  "dtor_join p \<longleftrightarrow> (\<forall>x \<in> set (workers p). x = Exited)"

text \<open>What the threads do. The first rule of a notification applies when no worker waits.\<close>

inductive pool_step :: "'f ThreadPool \<Rightarrow> 'f ThreadPool \<Rightarrow> bool" where
  p_enqueue: "enqueue f p = Ok p' \<Longrightarrow> pool_step p p'"
| p_notify_none: "0 < pending p \<Longrightarrow> Waiting \<notin> set (workers p) \<Longrightarrow> pool_step p (p\<lparr>pending := pending p - 1\<rparr>)"
| p_notify: "0 < pending p \<Longrightarrow> w < length (workers p) \<Longrightarrow> workers p ! w = Waiting \<Longrightarrow> pool_step p (enqueue_notify w p)"
| p_section: "w < length (workers p) \<Longrightarrow> workers p ! w = Awake \<Longrightarrow> pool_step p (worker_section w p)"
| p_done: "w < length (workers p) \<Longrightarrow> workers p ! w = Busy f \<Longrightarrow> pool_step p (worker_done w f p)"
| p_stop: "\<not> stop p \<Longrightarrow> pool_step p (dtor_stop p)"
| p_notify_all: "pendingAll p \<Longrightarrow> pool_step p (dtor_notify_all p)"

text \<open>A waiting worker may also wake up for no reason, but nothing can be made to depend on that.\<close>

inductive pool_move :: "'f ThreadPool \<Rightarrow> 'f ThreadPool \<Rightarrow> bool" where
  m_step: "pool_step p p' \<Longrightarrow> pool_move p p'"
| m_spurious: "w < length (workers p) \<Longrightarrow> workers p ! w = Waiting \<Longrightarrow> pool_move p (p\<lparr>workers := (workers p)[w := Awake]\<rparr>)"

section \<open>Invariant\<close>

fun held :: "'f worker \<Rightarrow> 'f multiset" where
  "held (Busy f) = {#f#}"
| "held _ = {#}"

definition running :: "'f ThreadPool \<Rightarrow> 'f multiset" where
  "running p = sum_list (map held (workers p))"

text \<open>Functions are taken in the order they were accepted; what was taken is finished or running; nothing that is
  queued waits for workers that all sleep without a notification on its way; no worker sleeps through the stop.\<close>

definition pool_inv :: "'f ThreadPool \<Rightarrow> bool" where
  "pool_inv p \<longleftrightarrow> accepted p = taken p @ tasks p
     \<and> mset (taken p) = mset (finished p) + running p
     \<and> (tasks p \<noteq> [] \<longrightarrow> 0 < pending p \<or> (\<exists>x \<in> set (workers p). x \<noteq> Waiting \<and> x \<noteq> Exited) \<or> workers p = [])
     \<and> (Exited \<in> set (workers p) \<longrightarrow> stop p \<and> tasks p = [])
     \<and> (stop p \<longrightarrow> pendingAll p \<or> Waiting \<notin> set (workers p))"

lemma held_update:
  assumes "w < length xs"
  shows "sum_list (map held (xs[w := x])) + held (xs ! w) = sum_list (map held xs) + held x"
  using assms
proof (induction xs arbitrary: w)
  case (Cons y ys)
  then show ?case by (cases w) (auto simp: ac_simps)
qed simp

lemma running_update:
  "w < length (workers p) \<Longrightarrow> held (workers p ! w) = {#} \<Longrightarrow>
     sum_list (map held ((workers p)[w := x])) = running p + held x"
  using held_update [of w "workers p" x] by (simp add: running_def)

lemma held_wake [simp]: "held (wake x) = held x"
  by (cases x) (simp_all add: wake_def)

lemma wake_eq: "wake x = Exited \<longleftrightarrow> x = Exited" "wake x \<noteq> Waiting"
  by (cases x; simp add: wake_def)+

lemma upd_mem: "w < length xs \<Longrightarrow> x \<in> set (xs[w := x])"
  by (rule set_update_memI)

lemma upd_notin: "y \<notin> set xs \<Longrightarrow> y \<noteq> x \<Longrightarrow> y \<notin> set (xs[w := x])"
  using set_update_subset_insert [of xs w x] by blast

lemma pool_inv_section:
  assumes "pool_inv p" "w < length (workers p)" "workers p ! w = Awake"
  shows "pool_inv (worker_section w p)"
proof (cases "tasks p")
  case Nil
  have "running (worker_section w p) = running p"
    using running_update [of w p] assms(2,3) Nil by (simp add: worker_section_def running_def)
  moreover have "stop p \<Longrightarrow> \<not> pendingAll p \<Longrightarrow> Waiting \<notin> set ((workers p)[w := Exited])"
    using assms(1) by (intro upd_notin) (auto simp: pool_inv_def)
  moreover have "\<not> stop p \<Longrightarrow> Exited \<notin> set ((workers p)[w := Waiting])"
    using assms(1) by (intro upd_notin) (auto simp: pool_inv_def)
  ultimately show ?thesis using assms(1) Nil unfolding pool_inv_def
    by (auto simp: worker_section_def)
next
  case (Cons f fs)
  have "running (worker_section w p) = running p + {#f#}"
    using running_update [of w p "Busy f"] assms(2,3) Cons by (simp add: worker_section_def running_def)
  moreover have "Exited \<notin> set ((workers p)[w := Busy f])"
    using assms(1) Cons by (intro upd_notin) (auto simp: pool_inv_def)
  moreover have "stop p \<Longrightarrow> \<not> pendingAll p \<Longrightarrow> Waiting \<notin> set ((workers p)[w := Busy f])"
    using assms(1) by (intro upd_notin) (auto simp: pool_inv_def)
  ultimately show ?thesis using assms(1) Cons upd_mem [OF assms(2), of "Busy f"] unfolding pool_inv_def
    by (auto simp: worker_section_def)
qed

lemma pool_inv_wake_up:
  assumes "pool_inv p" "w < length (workers p)" "workers p ! w = Waiting" "n = pending p \<or> n = pending p - 1"
  shows "pool_inv (p\<lparr>workers := (workers p)[w := Awake], pending := n\<rparr>)"
proof -
  have "running (p\<lparr>workers := (workers p)[w := Awake], pending := n\<rparr>) = running p"
    using running_update [of w p Awake] assms(2,3) by (simp add: running_def)
  moreover have "Exited \<notin> set (workers p) \<Longrightarrow> Exited \<notin> set ((workers p)[w := Awake])" by (rule upd_notin) auto
  moreover have "Waiting \<notin> set (workers p) \<Longrightarrow> Waiting \<notin> set ((workers p)[w := Awake])" by (rule upd_notin) auto
  ultimately show ?thesis using assms(1) upd_mem [OF assms(2), of Awake] unfolding pool_inv_def by auto
qed

lemma pool_inv_done:
  assumes "pool_inv p" "w < length (workers p)" "workers p ! w = Busy f"
  shows "pool_inv (worker_done w f p)"
proof -
  have "running (worker_done w f p) + {#f#} = running p"
    using held_update [OF assms(2), of Awake] assms(3) by (simp add: worker_done_def running_def)
  then have "mset (finished (worker_done w f p)) + running (worker_done w f p) = mset (finished p) + running p"
    by (simp add: worker_done_def)
  moreover have "Exited \<notin> set (workers p) \<Longrightarrow> Exited \<notin> set ((workers p)[w := Awake])" by (rule upd_notin) auto
  moreover have "Waiting \<notin> set (workers p) \<Longrightarrow> Waiting \<notin> set ((workers p)[w := Awake])" by (rule upd_notin) auto
  ultimately show ?thesis using assms(1) upd_mem [OF assms(2), of Awake] unfolding pool_inv_def
    by (auto simp: worker_done_def)
qed

lemma pool_inv_step: "pool_step p p' \<Longrightarrow> pool_inv p \<Longrightarrow> pool_inv p'"
proof (induction rule: pool_step.induct)
  case (p_enqueue f p p')
  then show ?case by (auto simp: enqueue_def pool_inv_def running_def split: if_splits)
next
  case (p_notify_none p)
  have "\<exists>x \<in> set (workers p). x \<noteq> Waiting \<and> x \<noteq> Exited" if "tasks p \<noteq> []" "workers p \<noteq> []"
    using p_notify_none that by (cases "workers p") (auto simp: pool_inv_def)
  with p_notify_none show ?case by (auto simp: pool_inv_def running_def)
next
  case (p_notify p w)
  then show ?case using pool_inv_wake_up [of p w "pending p - 1"] by (simp add: enqueue_notify_def wake_def)
next
  case (p_section w p)
  then show ?case by (simp add: pool_inv_section)
next
  case (p_done w p f)
  then show ?case by (simp add: pool_inv_done)
next
  case (p_stop p)
  then show ?case by (simp add: dtor_stop_def pool_inv_def running_def)
next
  case (p_notify_all p)
  have "x \<noteq> Waiting \<Longrightarrow> x \<noteq> Exited \<Longrightarrow> wake x \<noteq> Waiting \<and> wake x \<noteq> Exited" for x :: "'a worker"
    by (simp add: wake_eq)
  then have "\<exists>x \<in> wake ` set (workers p). x \<noteq> Waiting \<and> x \<noteq> Exited"
    if "\<exists>x \<in> set (workers p). x \<noteq> Waiting \<and> x \<noteq> Exited" using that by blast
  moreover have "Exited \<in> wake ` set (workers p) \<longleftrightarrow> Exited \<in> set (workers p)"
    by (metis image_iff wake_eq(1))
  moreover have "Waiting \<notin> wake ` set (workers p)" using wake_eq(2) by (metis image_iff)
  ultimately show ?case using p_notify_all by (simp add: dtor_notify_all_def pool_inv_def running_def comp_def) blast
qed

lemma pool_inv_move: "pool_move p p' \<Longrightarrow> pool_inv p \<Longrightarrow> pool_inv p'"
proof (induction rule: pool_move.induct)
  case (m_spurious w p)
  then show ?case using pool_inv_wake_up [of p w "pending p"] by simp
qed (rule pool_inv_step)

interpretation pool: invariant_system "\<lambda>p. \<exists>n. p = new_ThreadPool n" pool_move pool_inv
proof
  fix p :: "'a ThreadPool"
  assume "\<exists>n. p = new_ThreadPool n"
  then obtain n where "p = new_ThreadPool n" by blast
  moreover have "sum_list (map held (replicate n Awake)) = {#}" by (induction n) simp_all
  ultimately show "pool_inv p" by (simp add: new_ThreadPool_def pool_inv_def running_def)
qed (rule pool_inv_move)

section \<open>Shutting down\<close>

lemma workers_length: "pool_step p p' \<Longrightarrow> length (workers p') = length (workers p)"
  by (induction rule: pool_step.induct)
    (auto simp: enqueue_def enqueue_notify_def worker_section_def worker_done_def dtor_stop_def dtor_notify_all_def
      split: if_splits list.splits)

lemma workers_length_reachable: "pool_move\<^sup>*\<^sup>* p p' \<Longrightarrow> length (workers p') = length (workers p)"
  by (induction rule: rtranclp_induct) (auto dest: workers_length elim!: pool_move.cases)

text \<open>The work that is left once no function can be added.\<close>

fun effort :: "'f worker \<Rightarrow> nat" where
  "effort Exited = 0"
| "effort Awake = 1"
| "effort _ = 2"

definition pool_measure :: "'f ThreadPool \<Rightarrow> nat" where
  "pool_measure p = 2 * length (tasks p) + sum_list (map effort (workers p)) + pending p + (if pendingAll p then 1 else 0)"

lemma effort_update:
  "w < length xs \<Longrightarrow> sum_list (map effort (xs[w := x])) + effort (xs ! w) = sum_list (map effort xs) + effort x"
proof (induction xs arbitrary: w)
  case (Cons y ys)
  then show ?case by (cases w) auto
qed simp

lemma effort_wake: "effort (wake x) \<le> effort x"
  by (cases x) (simp_all add: wake_def)

lemma stopped_step_decreases:
  assumes "pool_step p p'" "stop p"
  shows "pool_measure p' < pool_measure p \<and> stop p'"
  using assms
proof (induction rule: pool_step.induct)
  case (p_notify p w)
  then show ?case using effort_update [of w "workers p" Awake] by (simp add: pool_measure_def enqueue_notify_def wake_def)
next
  case (p_section w p)
  then show ?case using effort_update [of w "workers p" Exited] effort_update [of w "workers p" "Busy (hd (tasks p))"]
    by (cases "tasks p") (simp_all add: pool_measure_def worker_section_def)
next
  case (p_done w p f)
  then show ?case using effort_update [of w "workers p" Awake] by (simp add: pool_measure_def worker_done_def)
next
  case (p_notify_all p)
  have "sum_list (map (effort \<circ> wake) ws) \<le> sum_list (map effort ws)" for ws :: "'a worker list"
    by (rule sum_list_mono) (simp add: effort_wake)
  from this [of "workers p"] p_notify_all show ?case by (simp add: pool_measure_def dtor_notify_all_def)
qed (auto simp: enqueue_def pool_measure_def dtor_stop_def split: if_splits)

lemma stopped_move_decreases:
  assumes "pool_move p p'" "stop p"
  shows "pool_measure p' < pool_measure p \<and> stop p'"
  using assms
proof (induction rule: pool_move.induct)
  case (m_spurious w p)
  then show ?case using effort_update [of w "workers p" Awake] by (simp add: pool_measure_def)
qed (rule stopped_step_decreases)

lemma stopped_run_bounded:
  assumes "(pool_move ^^ k) p p'" "stop p"
  shows "k + pool_measure p' \<le> pool_measure p \<and> stop p'"
  using assms
proof (induction k arbitrary: p')
  case (Suc k)
  then obtain q where q: "(pool_move ^^ k) p q" "pool_move q p'" by auto
  with Suc.IH [OF q(1) Suc.prems(2)] stopped_move_decreases [OF q(2)] show ?case by auto
qed simp

text \<open>No worker is left asleep: while the destructor waits in \<^verbatim>\<open>join\<close>, some thread can take a step that is not a
  spurious wake-up.\<close>

lemma stopped_progress:
  assumes "pool_inv p" "stop p" "\<not> dtor_join p"
  shows "\<exists>p'. pool_step p p'"
proof -
  obtain w where w: "w < length (workers p)" "workers p ! w \<noteq> Exited"
    using assms(3) by (auto simp: dtor_join_def in_set_conv_nth)
  show ?thesis
  proof (cases "workers p ! w")
    case Awake
    from p_section [OF w(1) this] show ?thesis by (rule exI)
  next
    case Waiting
    then have "Waiting \<in> set (workers p)" using w(1) nth_mem by metis
    then have "pendingAll p" using assms(1,2) by (simp add: pool_inv_def)
    from p_notify_all [OF this] show ?thesis by (rule exI)
  next
    case (Busy f)
    from p_done [OF w(1) this] show ?thesis by (rule exI)
  qed (use w in simp)
qed

lemma sum_list_empty_mset: "sum_list (replicate k {#}) = {#}"
  by (induction k) simp_all

lemma joined_all_run:
  assumes "pool_inv p" "dtor_join p" "workers p \<noteq> []"
  shows "taken p = accepted p \<and> mset (finished p) = mset (accepted p)"
proof -
  have "Exited \<in> set (workers p)" using assms(2,3) by (cases "workers p") (auto simp: dtor_join_def)
  then have "tasks p = []" using assms(1) by (simp add: pool_inv_def)
  moreover have "map held (workers p) = map (\<lambda>_. {#}) (workers p)" using assms(2) by (auto simp: dtor_join_def)
  then have "running p = {#}" unfolding running_def by (simp add: map_replicate_const sum_list_empty_mset)
  ultimately show ?thesis using assms(1) by (simp add: pool_inv_def)
qed

text \<open>C13. Once the destructor has set the stop flag, the threads take only finitely many more steps, however they
  interleave and whatever workers wake up for no reason. And when no thread can take a step, other than a spurious
  wake-up, the destructor returns from \<^verbatim>\<open>join\<close>, every function that was ever
  accepted has run exactly once, and they were taken in the order they were added.\<close>

theorem ThreadPool_shutdown:
  assumes "pool_move\<^sup>*\<^sup>* (new_ThreadPool n) p" "0 < n" "stop p" "(pool_move ^^ k) p p'"
  shows "k \<le> pool_measure p \<and>
    ((\<nexists>q. pool_step p' q) \<longrightarrow>
      dtor_join p' \<and> mset (finished p') = mset (accepted p') \<and> taken p' = accepted p')"
proof -
  have "pool_move\<^sup>*\<^sup>* p p'" using assms(4) relpowp_imp_rtranclp by fast
  with assms(1) have r: "pool_move\<^sup>*\<^sup>* (new_ThreadPool n) p'" by (rule rtranclp_trans)
  then have inv: "pool_inv p'" using pool.reachable_inv by blast
  have ne: "workers p' \<noteq> []"
    using workers_length_reachable [OF r] assms(2) by (auto simp: new_ThreadPool_def)
  have b: "k + pool_measure p' \<le> pool_measure p" "stop p'" using stopped_run_bounded [OF assms(4,3)] by auto
  then show ?thesis using stopped_progress [OF inv b(2)] joined_all_run [OF inv _ ne] by auto
qed

text \<open>A worker that already waits when the destructor runs.\<close>

definition demo_waiting :: "nat ThreadPool" where
  "demo_waiting = worker_section 0 (new_ThreadPool 1)"

definition demo_joined :: "nat ThreadPool" where
  "demo_joined = worker_section 0 (dtor_notify_all (dtor_stop demo_waiting))"

lemma ThreadPool_shutdown_witness:
  "workers demo_waiting = [Waiting] \<and> pool_move\<^sup>*\<^sup>* (new_ThreadPool 1) (dtor_stop demo_waiting)
    \<and> (pool_move ^^ 2) (dtor_stop demo_waiting) demo_joined \<and> dtor_join demo_joined"
proof -
  have w: "workers demo_waiting = [Waiting]" "\<not> stop demo_waiting"
    by (simp_all add: demo_waiting_def worker_section_def new_ThreadPool_def)
  have "pool_move (new_ThreadPool 1) demo_waiting" unfolding demo_waiting_def
    by (intro m_step p_section) (simp_all add: new_ThreadPool_def)
  moreover have "pool_move demo_waiting (dtor_stop demo_waiting)" by (intro m_step p_stop w(2))
  ultimately have r: "pool_move\<^sup>*\<^sup>* (new_ThreadPool 1) (dtor_stop demo_waiting)" by auto
  have "pool_move (dtor_stop demo_waiting) (dtor_notify_all (dtor_stop demo_waiting))"
    by (intro m_step p_notify_all) (simp add: dtor_stop_def)
  moreover have "pool_move (dtor_notify_all (dtor_stop demo_waiting)) demo_joined"
    unfolding demo_joined_def using w
    by (intro m_step p_section) (simp_all add: dtor_notify_all_def dtor_stop_def wake_def)
  ultimately have k: "(pool_move ^^ 2) (dtor_stop demo_waiting) demo_joined"
    unfolding numeral_2_eq_2 by (auto simp: relcompp.simps)
  have "workers demo_joined = [Exited]" "stop demo_joined" "pending demo_joined = 0" "\<not> pendingAll demo_joined"
    by (simp_all add: demo_joined_def demo_waiting_def worker_section_def dtor_notify_all_def dtor_stop_def wake_def
      new_ThreadPool_def)
  then have stuck: "\<nexists>q. pool_step demo_joined q" by (auto elim!: pool_step.cases simp: enqueue_def)
  have "stop (dtor_stop demo_waiting)" by (simp add: dtor_stop_def)
  from ThreadPool_shutdown [OF r _ this k] r k w(1) stuck show ?thesis by simp
qed

end
