(* ===== verification/Mqtt.thy ===== *)
theory Mqtt
  imports Prelude
begin

text \<open>
  Byte buffers (\<^verbatim>\<open>include/remote/mqtt/nvoid.h\<close>, \<^verbatim>\<open>src/remote/mqtt/nvoid.c\<close>) with their serialisers in
  \<^verbatim>\<open>include/remote/remote.hpp\<close>, and the MQTT adapter (\<^verbatim>\<open>src/remote/mqtt/mqtt_adapter.c\<close>) as a state machine around the
  calls and callbacks of the MQTT client library.
\<close>

section \<open>Byte buffers\<close>

text \<open>A buffer is one allocation: a length, a pointer and the bytes that follow them. The pointer is null or
  points at the bytes of the allocation with the given address. \<open>payload\<close> are the bytes behind the header.\<close>

datatype dataptr = NullData | BytesOf nat

record nvoid =
  nv_len :: int
  nv_data :: dataptr
  payload :: "u8 list"

record cheap =
  blocks :: "nat \<rightharpoonup> nvoid"
  nextAddr :: nat

definition INT_MAX :: int where
  "INT_MAX = 2 ^ 31 - 1"

definition alloc_block :: "(nat \<Rightarrow> nvoid) \<Rightarrow> cheap \<Rightarrow> nat \<times> cheap" where
  "alloc_block b h = (nextAddr h, h\<lparr>blocks := (blocks h)(nextAddr h \<mapsto> b (nextAddr h)), nextAddr := nextAddr h + 1\<rparr>)"

definition deref :: "nat \<Rightarrow> cheap \<Rightarrow> nvoid outcome" where
  "deref a h = (case blocks h a of None \<Rightarrow> Fault Dangling | Some b \<Rightarrow> Ok b)"

text \<open>\<open>len\<close> bytes starting at a data pointer.\<close>

definition read_data :: "cheap \<Rightarrow> dataptr \<Rightarrow> int \<Rightarrow> u8 list outcome" where
  "read_data h d len =
    (if len = 0 then Ok []
     else case d of
       NullData \<Rightarrow> Fault NullDeref
     | BytesOf a \<Rightarrow> obind (deref a h)
         (\<lambda>b. if 0 \<le> len \<and> nat len \<le> length (payload b) then Ok (take (nat len) (payload b)) else Fault OutOfBounds))"

text \<open>\<open>nvoid_new\<close> copies \<open>len\<close> bytes of the caller's memory, of which \<open>data\<close> are readable; \<open>ok\<close> says whether the
  allocation succeeds. A length that is not in the range of \<^verbatim>\<open>int\<close> is not the length of a buffer.\<close>

definition nvoid_new :: "bool \<Rightarrow> u8 list \<Rightarrow> int \<Rightarrow> cheap \<Rightarrow> (nat \<times> cheap) outcome" where
  "nvoid_new ok data len h =
    (if \<not> ok then Fault AssertFailed
     else if len < 0 \<or> INT_MAX < len \<or> length data < nat len then Fault OutOfBounds
     else Ok (alloc_block (\<lambda>a. \<lparr>nv_len = len, nv_data = BytesOf a, payload = take (nat len) data\<rparr>) h))"

text \<open>\<open>nvoid_null\<close> does not test the allocation: it may return a null pointer.\<close>

definition nvoid_null :: "bool \<Rightarrow> cheap \<Rightarrow> nat option \<times> cheap" where
  "nvoid_null ok h =
    (if ok then case alloc_block (\<lambda>a. \<lparr>nv_len = 0, nv_data = NullData, payload = []\<rparr>) h of (a, h1) \<Rightarrow> (Some a, h1)
     else (None, h))"

definition nvoid_free :: "nat \<Rightarrow> cheap \<Rightarrow> cheap outcome" where
  "nvoid_free a h = obind (deref a h) (\<lambda>_. Ok (h\<lparr>blocks := (blocks h)(a := None)\<rparr>))"

text \<open>\<open>realloc\<close>: the allocation grows in place, or it moves and the old address is gone. The contents, the data
  pointer among them, are copied as they are.\<close>

definition realloc :: "bool \<Rightarrow> nat \<Rightarrow> nvoid \<Rightarrow> cheap \<Rightarrow> nat \<times> cheap" where
  "realloc moved n b h =
    (if moved then alloc_block (\<lambda>_. b) (h\<lparr>blocks := (blocks h)(n := None)\<rparr>) else (n, h))"

text \<open>The source of the copy is read after the reallocation.\<close>

definition append_from :: "bool \<Rightarrow> bool \<Rightarrow> nat \<Rightarrow> (cheap \<Rightarrow> u8 list outcome) \<Rightarrow> int \<Rightarrow> cheap \<Rightarrow> (nat \<times> cheap) outcome" where
  "append_from ok moved n src len h =
     obind (deref n h) (\<lambda>b.
       if \<not> ok then Fault AssertFailed
       else if len < 0 \<or> INT_MAX < nv_len b + len then Fault OutOfBounds
       else case realloc moved n b h of (nd, h1) \<Rightarrow>
         obind (src h1) (\<lambda>bs.
           if length bs < nat len then Fault OutOfBounds
           else Ok (nd, h1\<lparr>blocks := (blocks h1)(nd \<mapsto>
             b\<lparr>payload := take (nat (nv_len b)) (payload b) @ take (nat len) bs, nv_len := nv_len b + len\<rparr>)\<rparr>)))"

definition nvoid_append :: "bool \<Rightarrow> bool \<Rightarrow> nat \<Rightarrow> u8 list \<Rightarrow> int \<Rightarrow> cheap \<Rightarrow> (nat \<times> cheap) outcome" where
  "nvoid_append ok moved n data len h = append_from ok moved n (\<lambda>_. Ok data) len h"

definition nvoid_concat :: "bool \<Rightarrow> bool \<Rightarrow> nat \<Rightarrow> nat \<Rightarrow> cheap \<Rightarrow> (nat \<times> cheap) outcome" where
  "nvoid_concat ok moved f s h =
     obind (deref s h) (\<lambda>b. append_from ok moved f (\<lambda>h1. read_data h1 (nv_data b) (nv_len b)) (nv_len b) h)"

text \<open>The serialisers: the bytes of a buffer as a JSON array and back. \<open>mk\<close> and \<open>get\<close> are the library's conversions
  between byte vectors and JSON values; \<open>get\<close> may throw.\<close>

definition nvoid_bytes :: "nat \<Rightarrow> cheap \<Rightarrow> u8 list outcome" where
  "nvoid_bytes a h = obind (deref a h) (\<lambda>b. read_data h (nv_data b) (nv_len b))"

definition nvoid_to_json :: "(u8 list \<Rightarrow> 'j) \<Rightarrow> nat \<Rightarrow> cheap \<Rightarrow> 'j outcome" where
  "nvoid_to_json mk a h = obind (nvoid_bytes a h) (\<lambda>bs. Ok (mk bs))"

definition nvoid_from_json :: "bool \<Rightarrow> ('j \<Rightarrow> u8 list option) \<Rightarrow> 'j \<Rightarrow> cheap \<Rightarrow> (nat \<times> cheap) outcome" where
  "nvoid_from_json ok get j h =
    (case get j of None \<Rightarrow> Fault Uncaught | Some bs \<Rightarrow> nvoid_new ok bs (int (length bs)) h)"

text \<open>A well-formed buffer: its pointer points at its own bytes and its length is theirs.\<close>

definition nv_ok :: "nat \<Rightarrow> cheap \<Rightarrow> bool" where
  "nv_ok a h \<longleftrightarrow> (\<exists>b. blocks h a = Some b \<and> nv_data b = BytesOf a \<and> nv_len b = int (length (payload b)))"

lemma nvoid_bytes_ok: "nv_ok a h \<Longrightarrow> nvoid_bytes a h = Ok (payload (the (blocks h a)))"
  by (auto simp: nv_ok_def nvoid_bytes_def deref_def read_data_def)

lemma nvoid_new_ok:
  "int (length data) \<le> INT_MAX \<Longrightarrow> nvoid_new True data (int (length data)) h
     = Ok (nextAddr h, h\<lparr>blocks := (blocks h)(nextAddr h \<mapsto> \<lparr>nv_len = int (length data), nv_data = BytesOf (nextAddr h), payload = data\<rparr>),
         nextAddr := nextAddr h + 1\<rparr>)"
  by (simp add: nvoid_new_def alloc_block_def)

lemma nvoid_new_in_range: "nvoid_new True data (int (length data)) h = Ok r \<Longrightarrow> int (length data) \<le> INT_MAX"
  by (simp add: nvoid_new_def split: if_splits)

lemma nvoid_new_bytes:
  assumes "nvoid_new True data (int (length data)) h = Ok (a, h')"
  shows "nv_ok a h' \<and> nvoid_bytes a h' = Ok data"
  using assms unfolding nvoid_new_ok [OF nvoid_new_in_range [OF assms]]
  by (auto simp: nv_ok_def nvoid_bytes_def deref_def read_data_def)

lemma append_in_place:
  assumes "nv_ok a h" "nv_len (the (blocks h a)) + int (length data) \<le> INT_MAX"
  obtains h' where "nvoid_append True False a data (int (length data)) h = Ok (a, h')" "nv_ok a h'"
    and "nvoid_bytes a h' = Ok (payload (the (blocks h a)) @ data)"
proof -
  from assms obtain b where b: "blocks h a = Some b" "nv_data b = BytesOf a" "nv_len b = int (length (payload b))"
    by (auto simp: nv_ok_def)
  let ?b = "b\<lparr>payload := payload b @ data, nv_len := nv_len b + int (length data)\<rparr>"
  let ?h = "h\<lparr>blocks := (blocks h)(a \<mapsto> ?b)\<rparr>"
  have "nvoid_append True False a data (int (length data)) h = Ok (a, ?h)"
    using b assms(2) by (simp add: nvoid_append_def append_from_def realloc_def deref_def)
  moreover have "nv_ok a ?h" using b by (simp add: nv_ok_def)
  moreover from this have "nvoid_bytes a ?h = Ok (payload (the (blocks h a)) @ data)" using b by (simp add: nvoid_bytes_ok)
  ultimately show thesis by (rule that)
qed

text \<open>A byte buffer that is written to JSON and read back is a new buffer with the same bytes, and the original is
  unchanged, for every conversion of byte vectors that reads back what it wrote.\<close>

lemma nvoid_json_roundtrip:
  assumes "nvoid_new True data (int (length data)) h = Ok (a, h1)" "\<And>bs. get (mk bs) = Some bs"
  shows "\<exists>j b h2. nvoid_to_json mk a h1 = Ok j \<and> nvoid_from_json True get j h1 = Ok (b, h2)
    \<and> b \<noteq> a \<and> nvoid_bytes b h2 = Ok data \<and> nvoid_bytes a h2 = Ok data"
proof -
  have a: "nv_ok a h1" "nvoid_bytes a h1 = Ok data" using nvoid_new_bytes [OF assms(1)] by simp_all
  note new = nvoid_new_ok [OF nvoid_new_in_range [OF assms(1)]]
  let ?b = "nextAddr h1"
  obtain h2 where h2: "nvoid_new True data (int (length data)) h1 = Ok (?b, h2)"
    and bl: "blocks h2 = (blocks h1)(?b \<mapsto> \<lparr>nv_len = int (length data), nv_data = BytesOf ?b, payload = data\<rparr>)"
    by (simp add: new)
  have "a \<noteq> ?b" using assms(1) unfolding new by auto
  moreover from this have "nvoid_bytes a h2 = Ok data"
    using a bl unfolding nvoid_bytes_def by (auto simp: nv_ok_def deref_def read_data_def)
  moreover have "nvoid_to_json mk a h1 = Ok (mk data)" using a(2) by (simp add: nvoid_to_json_def)
  moreover have "nvoid_from_json True get (mk data) h1 = Ok (?b, h2)" using h2 assms(2) by (simp add: nvoid_from_json_def)
  moreover have "nvoid_bytes ?b h2 = Ok data" using nvoid_new_bytes [OF h2] by simp
  ultimately show ?thesis by metis
qed

lemma nvoid_json_roundtrip_witness:
  "\<exists>j b h2. nvoid_to_json (\<lambda>bs. bs) 0 \<lparr>blocks = [0 \<mapsto> \<lparr>nv_len = 2, nv_data = BytesOf 0, payload = [7, 255]\<rparr>], nextAddr = 1\<rparr> = Ok j
    \<and> nvoid_from_json True Some j \<lparr>blocks = [0 \<mapsto> \<lparr>nv_len = 2, nv_data = BytesOf 0, payload = [7, 255]\<rparr>], nextAddr = 1\<rparr> = Ok (b, h2)
    \<and> nvoid_bytes b h2 = Ok [7, 255]"
proof -
  have "nvoid_new True [7, 255] (int (length [7, 255 :: u8])) \<lparr>blocks = Map.empty, nextAddr = 0\<rparr>
      = Ok (0, \<lparr>blocks = [0 \<mapsto> \<lparr>nv_len = 2, nv_data = BytesOf 0, payload = [7, 255]\<rparr>], nextAddr = 1\<rparr>)"
    by (subst nvoid_new_ok) (simp_all add: INT_MAX_def)
  from nvoid_json_roundtrip [OF this, of Some "\<lambda>bs. bs"] show ?thesis by blast
qed

text \<open>Appending leaves the data pointer as it was: if the allocation moves, the pointer of the grown buffer is
  dangling, and a buffer that began as the null buffer still has a null pointer.\<close>

lemma append_moved_dangles:
  assumes "nv_ok a h" "a < nextAddr h" "nv_len (the (blocks h a)) + int (length data) \<le> INT_MAX" "data \<noteq> []"
  shows "\<exists>b h'. nvoid_append True True a data (int (length data)) h = Ok (b, h') \<and> nvoid_bytes b h' = Fault Dangling"
proof -
  from assms obtain b where b: "blocks h a = Some b" "nv_data b = BytesOf a" "nv_len b = int (length (payload b))"
    by (auto simp: nv_ok_def)
  moreover have "int (length (payload b)) + int (length data) \<noteq> 0" using assms(4) by (cases data) simp_all
  ultimately show ?thesis using assms(2-4)
    by (auto simp: nvoid_append_def append_from_def realloc_def alloc_block_def deref_def nvoid_bytes_def read_data_def)
qed

lemma append_to_null:
  assumes "nvoid_null True h = (Some a, h1)" "data \<noteq> []" "int (length data) \<le> INT_MAX"
  shows "\<exists>b h'. nvoid_append True moved a data (int (length data)) h1 = Ok (b, h') \<and> nvoid_bytes b h' = Fault NullDeref"
proof -
  have "h1 = h\<lparr>blocks := (blocks h)(a \<mapsto> \<lparr>nv_len = 0, nv_data = NullData, payload = []\<rparr>), nextAddr := a + 1\<rparr>"
    using assms(1) by (auto simp: nvoid_null_def alloc_block_def)
  then have "\<exists>b h'. nvoid_append True moved a data (int (length data)) h1 = Ok (b, h')
      \<and> blocks h' b = Some \<lparr>nv_len = int (length data), nv_data = NullData, payload = data\<rparr>"
    using assms(3) by (cases moved)
      (auto simp del: obind_eq_Ok simp: nvoid_append_def append_from_def realloc_def alloc_block_def deref_def)
  then show ?thesis using assms(2) by (auto simp: nvoid_bytes_def deref_def read_data_def)
qed

section \<open>The adapter\<close>

datatype mqtt_state = MQTT_NOTCONNECTED | MQTT_CONNECTED | MQTT_DISCONNECTING | MQTT_ERROR

text \<open>What the adapter asks of the MQTT library, in order. A send names the buffer that its success callback
  releases.\<close>

datatype mqtt_call = CallConnect | CallDisconnect | CallSubscribe string | CallSend string "u8 list" nat | CallDestroy
  | CallOnConnect | CallReconnect | SetConnectionLost | SetMessageArrived

definition MAX_SUBSCRIPTIONS :: nat where "MAX_SUBSCRIPTIONS = 1024"
definition MQTT_HOST_LEN :: nat where "MQTT_HOST_LEN = 128"
definition MQTT_TIMEOUT :: nat where "MQTT_TIMEOUT = 200"

record mqtt_adapter =
  mq_state :: mqtt_state
  mqtthost :: string
  subscriptions :: "string option list"
  calls :: "mqtt_call list"

definition mq_call :: "mqtt_call \<Rightarrow> mqtt_adapter \<Rightarrow> mqtt_adapter" where
  "mq_call c mq = mq\<lparr>calls := calls mq @ [c]\<rparr>"

fun dec :: "nat \<Rightarrow> string" where
  "dec n = (if n < 10 then [char_of (48 + n)] else dec (n div 10) @ [char_of (48 + n mod 10)])"

declare dec.simps [simp del]

definition int_to_string :: "int \<Rightarrow> string" where
  "int_to_string n = (if n < 0 then ''-'' @ dec (nat (- n)) else dec (nat n))"

text \<open>Handlers can be installed on a disconnected adapter only.\<close>

definition mqtt_setmsgarrived :: "mqtt_adapter \<Rightarrow> mqtt_adapter outcome" where
  "mqtt_setmsgarrived mq = (if mq_state mq \<noteq> MQTT_NOTCONNECTED then Fault ProcessExit else Ok (mq_call SetMessageArrived mq))"

definition mqtt_setconnlost :: "mqtt_adapter \<Rightarrow> mqtt_adapter outcome" where
  "mqtt_setconnlost mq = (if mq_state mq \<noteq> MQTT_NOTCONNECTED then Fault ProcessExit else Ok (mq_call SetConnectionLost mq))"

text \<open>The host goes into an array of 128 characters and the client identifier into one of 64, with their
  terminating zeros. \<open>create_ok\<close> is the library's answer.\<close>

definition mqtt_createserver :: "string option \<Rightarrow> int \<Rightarrow> string \<Rightarrow> nat \<Rightarrow> bool \<Rightarrow> mqtt_adapter option outcome" where
  "mqtt_createserver url indx devid pid create_ok =
    (case url of
       None \<Rightarrow> Ok None
     | Some u \<Rightarrow>
         if MQTT_HOST_LEN \<le> length u then Fault OutOfBounds
         else if 64 \<le> length (devid @ ''-'' @ int_to_string indx @ ''-'' @ dec pid) then Fault OutOfBounds
         else if \<not> create_ok then Ok None
         else obind (mqtt_setconnlost \<lparr>mq_state = MQTT_NOTCONNECTED, mqtthost = u,
                subscriptions = replicate MAX_SUBSCRIPTIONS None, calls = []\<rparr>) (\<lambda>mq. Ok (Some mq)))"

definition mqtt_connect :: "bool \<Rightarrow> mqtt_adapter \<Rightarrow> mqtt_adapter outcome" where
  "mqtt_connect rc_ok mq = (if rc_ok then Ok (mq_call CallConnect mq) else Fault ProcessExit)"

text \<open>\<^verbatim>\<open>mqtt_reconnect\<close> only warns when the library refuses.\<close>

definition mqtt_reconnect :: "mqtt_adapter \<Rightarrow> mqtt_adapter" where
  "mqtt_reconnect mq = mq_call CallReconnect mq"

definition mqtt_default_conn_lost :: "bool \<Rightarrow> mqtt_adapter \<Rightarrow> mqtt_adapter outcome" where
  "mqtt_default_conn_lost rc_ok mq = mqtt_connect rc_ok (mq\<lparr>mq_state := MQTT_ERROR\<rparr>)"

text \<open>The loop of \<^verbatim>\<open>mqtt_set_subscription\<close> reads the entry before it tests the index.\<close>

fun first_free :: "string option list \<Rightarrow> nat \<Rightarrow> nat outcome" where
  "first_free [] i = Fault OutOfBounds"
| "first_free (None # xs) i = Ok i"
| "first_free (Some s # xs) i = first_free xs (i + 1)"

definition mqtt_set_subscription :: "string \<Rightarrow> mqtt_adapter \<Rightarrow> mqtt_adapter outcome" where
  "mqtt_set_subscription topic mq =
     obind (first_free (subscriptions mq) 0) (\<lambda>i.
       Ok (if i < MAX_SUBSCRIPTIONS then mq\<lparr>subscriptions := (subscriptions mq)[i := Some topic]\<rparr> else mq))"

definition mqtt_subscribe :: "string option \<Rightarrow> mqtt_adapter \<Rightarrow> mqtt_adapter outcome" where
  "mqtt_subscribe topic mq =
    (if mq_state mq \<noteq> MQTT_CONNECTED
     then (case topic of Some s \<Rightarrow> mqtt_set_subscription s mq | None \<Rightarrow> obind (first_free (subscriptions mq) 0) (\<lambda>_. Ok mq))
     else (case topic of Some s \<Rightarrow> Ok (mq_call (CallSubscribe s) mq) | None \<Rightarrow> Ok mq))"

fun subscribe_loop :: "string option list \<Rightarrow> mqtt_adapter \<Rightarrow> mqtt_adapter outcome" where
  "subscribe_loop [] mq = Fault OutOfBounds"
| "subscribe_loop (None # xs) mq = Ok mq"
| "subscribe_loop (Some s # xs) mq = obind (mqtt_subscribe (Some s) mq) (subscribe_loop xs)"

definition mqtt_onconnect :: "mqtt_adapter \<Rightarrow> mqtt_adapter outcome" where
  "mqtt_onconnect mq =
    (let mq1 = mq\<lparr>mq_state := MQTT_CONNECTED\<rparr> in
     obind (subscribe_loop (subscriptions mq1) mq1) (\<lambda>mq2. Ok (mq_call CallOnConnect mq2)))"

definition mqtt_disconnect :: "mqtt_state \<Rightarrow> mqtt_adapter \<Rightarrow> bool \<times> mqtt_adapter" where
  "mqtt_disconnect s mq =
    (if mq_state mq \<noteq> MQTT_CONNECTED then (False, mq) else (True, mq_call CallDisconnect (mq\<lparr>mq_state := s\<rparr>)))"

definition mqtt_ondisconnect :: "bool \<Rightarrow> mqtt_adapter \<Rightarrow> mqtt_adapter outcome" where
  "mqtt_ondisconnect rc_ok mq =
    (if mq_state mq = MQTT_DISCONNECTING then Ok (mq\<lparr>mq_state := MQTT_NOTCONNECTED\<rparr>) else mqtt_connect rc_ok mq)"

text \<open>Between two polls of the state a callback may run: \<open>envs\<close> are their effects, one for each poll.\<close>

fun poll_connected :: "nat \<Rightarrow> (mqtt_adapter \<Rightarrow> mqtt_adapter) list \<Rightarrow> mqtt_adapter \<Rightarrow> mqtt_adapter" where
  "poll_connected 0 envs mq = mq"
| "poll_connected (Suc n) envs mq =
    (if mq_state mq = MQTT_CONNECTED then mq
     else case envs of [] \<Rightarrow> mq | f # fs \<Rightarrow> poll_connected n fs (f mq))"

definition adapter_publish ::
    "(mqtt_adapter \<Rightarrow> mqtt_adapter) list \<Rightarrow> bool \<Rightarrow> string \<Rightarrow> nat \<Rightarrow> cheap \<Rightarrow> mqtt_adapter \<Rightarrow> (bool \<times> mqtt_adapter) outcome" where
  "adapter_publish envs send_ok topic nv h mq =
    (let mq1 = poll_connected MQTT_TIMEOUT envs mq in
     if mq_state mq1 = MQTT_CONNECTED
     then obind (nvoid_bytes nv h) (\<lambda>bs.
            let mq2 = mq_call (CallSend topic bs nv) mq1 in
            Ok (True, if send_ok then mq2 else snd (mqtt_disconnect MQTT_ERROR (mq2\<lparr>mq_state := MQTT_ERROR\<rparr>))))
     else Ok (False, mq1))"

text \<open>The success callback of a send releases its buffer; there is no failure callback.\<close>

definition mqtt_onpublish :: "nat \<Rightarrow> cheap \<Rightarrow> cheap outcome" where
  "mqtt_onpublish nv h = nvoid_free nv h"

fun poll_notconnected :: "(mqtt_adapter \<Rightarrow> mqtt_adapter) list \<Rightarrow> mqtt_adapter \<Rightarrow> mqtt_adapter outcome" where
  "poll_notconnected envs mq =
    (if mq_state mq = MQTT_NOTCONNECTED then Ok mq
     else case envs of [] \<Rightarrow> Blocked | f # fs \<Rightarrow> poll_notconnected fs (f mq))"

definition mqtt_deleteserver :: "(mqtt_adapter \<Rightarrow> mqtt_adapter) list \<Rightarrow> mqtt_adapter \<Rightarrow> mqtt_adapter outcome" where
  "mqtt_deleteserver envs mq =
     obind (poll_notconnected envs
       (if mq_state mq = MQTT_CONNECTED then snd (mqtt_disconnect MQTT_DISCONNECTING mq) else mq))
       (\<lambda>mq1. Ok (mq_call CallDestroy mq1))"

declare poll_notconnected.simps [simp del]

section \<open>Subscriptions\<close>

lemma first_free_at: "first_free (map Some ts @ None # xs) i = Ok (i + length ts)"
  by (induction ts arbitrary: i) simp_all

lemma first_free_full: "first_free (map Some ts) i = Fault OutOfBounds"
  by (induction ts arbitrary: i) simp_all

lemma update_first_free: "(map Some ts @ None # xs)[length ts := Some s] = map Some (ts @ [s]) @ xs"
  by (induction ts) simp_all

lemma set_subscription_at:
  assumes "subscriptions mq = map Some ts @ replicate (Suc n) None" "length ts < MAX_SUBSCRIPTIONS"
  shows "mqtt_set_subscription s mq = Ok (mq\<lparr>subscriptions := map Some (ts @ [s]) @ replicate n None\<rparr>)"
  using assms by (simp add: mqtt_set_subscription_def first_free_at update_first_free)

lemma set_subscriptions:
  assumes "subscriptions mq = map Some us @ replicate n None" "length us + n = MAX_SUBSCRIPTIONS" "length ts \<le> n"
  shows "each mqtt_set_subscription ts mq
    = Ok (mq\<lparr>subscriptions := map Some (us @ ts) @ replicate (n - length ts) None\<rparr>)"
  using assms
proof (induction ts arbitrary: us n mq)
  case (Cons t ts)
  then obtain k where n: "n = Suc k" by (cases n) auto
  have 1: "mqtt_set_subscription t mq = Ok (mq\<lparr>subscriptions := map Some (us @ [t]) @ replicate k None\<rparr>)"
    using Cons.prems n by (intro set_subscription_at) simp_all
  have "each mqtt_set_subscription ts (mq\<lparr>subscriptions := map Some (us @ [t]) @ replicate k None\<rparr>)
      = Ok (mq\<lparr>subscriptions := map Some (us @ [t]) @ replicate k None,
          subscriptions := map Some ((us @ [t]) @ ts) @ replicate (k - length ts) None\<rparr>)"
    using Cons.prems n by (intro Cons.IH) simp_all
  with 1 n show ?case by simp
qed simp

lemma subscribe_loop_topics:
  assumes "mq_state mq = MQTT_CONNECTED"
  shows "subscribe_loop (map Some ts @ None # xs) mq = Ok (mq\<lparr>calls := calls mq @ map CallSubscribe ts\<rparr>)"
  using assms by (induction ts arbitrary: mq) (simp_all add: mqtt_subscribe_def mq_call_def)

lemma subscribe_loop_full: "mq_state mq = MQTT_CONNECTED \<Longrightarrow> subscribe_loop (map Some ts) mq = Fault OutOfBounds"
  by (induction ts arbitrary: mq) (simp_all add: mqtt_subscribe_def mq_call_def obind_eq_Fault)

text \<open>C27. Topics that are registered before the connection is up are subscribed to when it comes up, each once and in
  order, before the user's callback runs, as long as there are fewer than 1024 of them; with 1024 the
  loop of the connection callback reads past the table.\<close>

theorem topics_subscribed_on_connect:
  assumes "mqtt_createserver (Some url) indx devid pid True = Ok (Some mq)" "length ts \<le> MAX_SUBSCRIPTIONS"
  shows "\<exists>mq1. each mqtt_set_subscription ts mq = Ok mq1
    \<and> (if length ts < MAX_SUBSCRIPTIONS
       then \<exists>mq2. mqtt_onconnect mq1 = Ok mq2 \<and> mq_state mq2 = MQTT_CONNECTED
              \<and> calls mq2 = SetConnectionLost # map CallSubscribe ts @ [CallOnConnect]
       else mqtt_onconnect mq1 = Fault OutOfBounds)"
proof -
  have mq: "subscriptions mq = map Some [] @ replicate MAX_SUBSCRIPTIONS None" "calls mq = [SetConnectionLost]"
    using assms(1) by (auto simp: mqtt_createserver_def mqtt_setconnlost_def mq_call_def split: if_splits)
  let ?mq1 = "mq\<lparr>subscriptions := map Some ts @ replicate (MAX_SUBSCRIPTIONS - length ts) None\<rparr>"
  have "each mqtt_set_subscription ts mq = Ok ?mq1" using set_subscriptions [OF mq(1) _ assms(2)] by simp
  moreover have "\<exists>mq2. mqtt_onconnect ?mq1 = Ok mq2 \<and> mq_state mq2 = MQTT_CONNECTED
      \<and> calls mq2 = SetConnectionLost # map CallSubscribe ts @ [CallOnConnect]" if "length ts < MAX_SUBSCRIPTIONS"
  proof -
    from that obtain k where "MAX_SUBSCRIPTIONS - length ts = Suc k" by (metis Suc_diff_Suc)
    then have "subscriptions ?mq1 = map Some ts @ None # replicate k None" by simp
    then show ?thesis using mq(2) by (simp add: mqtt_onconnect_def Let_def subscribe_loop_topics mq_call_def)
  qed
  moreover have "mqtt_onconnect ?mq1 = Fault OutOfBounds" if "\<not> length ts < MAX_SUBSCRIPTIONS"
    using that assms(2) by (simp add: mqtt_onconnect_def Let_def subscribe_loop_full)
  ultimately show ?thesis by auto
qed

lemma topics_subscribed_on_connect_witness:
  "\<exists>mq mq1 mq2. mqtt_createserver (Some ''tcp://localhost:1883'') 1 ''dev'' 7 True = Ok (Some mq)
    \<and> each mqtt_set_subscription [''/a'', ''/b''] mq = Ok mq1 \<and> mqtt_onconnect mq1 = Ok mq2
    \<and> calls mq2 = [SetConnectionLost, CallSubscribe ''/a'', CallSubscribe ''/b'', CallOnConnect]"
proof -
  obtain mq where mq: "mqtt_createserver (Some ''tcp://localhost:1883'') 1 ''dev'' 7 True = Ok (Some mq)"
    by (simp add: mqtt_createserver_def mqtt_setconnlost_def MQTT_HOST_LEN_def int_to_string_def dec.simps)
  from topics_subscribed_on_connect [OF this, of "[''/a'', ''/b'']"] mq show ?thesis
    by (fastforce simp: MAX_SUBSCRIPTIONS_def)
qed

section \<open>After a failed send\<close>

text \<open>Everything in the adapter that can change its state while a thread polls it: the three callbacks, with the
  library's answers, and the publishes and subscriptions of other threads. An event that ends the process leaves the
  state as it is here.\<close>

datatype mqtt_event = ConnectionLost bool | Connected | Disconnected bool | Publishes bool string nat cheap
  | Subscribes "string option"

definition run_event :: "mqtt_event \<Rightarrow> mqtt_adapter \<Rightarrow> mqtt_adapter" where
  "run_event e mq =
    (case (case e of
        ConnectionLost rc \<Rightarrow> mqtt_default_conn_lost rc mq
      | Connected \<Rightarrow> mqtt_onconnect mq
      | Disconnected rc \<Rightarrow> mqtt_ondisconnect rc mq
      | Publishes ok topic nv h \<Rightarrow> obind (adapter_publish [] ok topic nv h mq) (\<lambda>r. Ok (snd r))
      | Subscribes topic \<Rightarrow> mqtt_subscribe topic mq) of
       Ok mq1 \<Rightarrow> mq1 | _ \<Rightarrow> mq)"

text \<open>None of them disconnects: only \<^verbatim>\<open>mqtt_deleteserver\<close> asks for a disconnection that ends unconnected.\<close>

definition still_up :: "mqtt_adapter \<Rightarrow> bool" where
  "still_up mq \<longleftrightarrow> mq_state mq = MQTT_CONNECTED \<or> mq_state mq = MQTT_ERROR"

lemma mqtt_subscribe_state: "mqtt_subscribe topic mq = Ok mq' \<Longrightarrow> mq_state mq' = mq_state mq"
  by (auto simp: mqtt_subscribe_def mqtt_set_subscription_def mq_call_def split: if_splits option.splits)

lemma subscribe_loop_state: "subscribe_loop xs mq = Ok mq' \<Longrightarrow> mq_state mq' = mq_state mq"
  by (induction xs mq rule: subscribe_loop.induct) (auto dest: mqtt_subscribe_state)

lemma poll_connected_none: "poll_connected n [] mq = mq"
  by (cases n) simp_all

lemma run_event_still_up:
  assumes "still_up mq"
  shows "still_up (run_event e mq)"
proof (cases e)
  case (ConnectionLost rc)
  then show ?thesis using assms
    by (simp add: run_event_def mqtt_default_conn_lost_def mqtt_connect_def mq_call_def still_up_def)
next
  case Connected
  then show ?thesis using assms
    by (auto simp: run_event_def mqtt_onconnect_def Let_def mq_call_def still_up_def dest!: subscribe_loop_state
        split: outcome.splits)
next
  case (Disconnected rc)
  then show ?thesis using assms by (auto simp: run_event_def mqtt_ondisconnect_def mqtt_connect_def mq_call_def still_up_def)
next
  case (Publishes ok topic nv h)
  then show ?thesis using assms
    by (auto simp: run_event_def adapter_publish_def poll_connected_none Let_def mqtt_disconnect_def mq_call_def still_up_def
        split: outcome.splits)
next
  case (Subscribes topic)
  then show ?thesis using assms
    by (auto simp: run_event_def still_up_def dest!: mqtt_subscribe_state split: outcome.splits)
qed

lemma poll_notconnected_stuck: "still_up mq \<Longrightarrow> poll_notconnected (map run_event es) mq = Blocked"
proof (induction es arbitrary: mq)
  case Nil
  then show ?case by (auto simp: poll_notconnected.simps still_up_def)
next
  case (Cons e es)
  then show ?case using run_event_still_up [OF Cons.prems, of e]
    by (subst poll_notconnected.simps) (auto simp: still_up_def)
qed

text \<open>C32. When the library refuses a send, \<^verbatim>\<open>mqtt_publish\<close> still reports success, the message's buffer stays
  allocated, and the disconnect it asks for does nothing because the state was changed first: nothing but the send is asked
  of the library. From then on, until a callback runs, publishes fail without sending. And if the adapter is deleted before a new
  connection is up, the deletion never ends, whatever callbacks of the adapter run and whatever other threads publish
  or subscribe to meanwhile: none of that disconnects.\<close>

theorem failed_send_wedges_adapter:
  assumes "mq_state mq = MQTT_CONNECTED" "nvoid_bytes nv h = Ok bs"
  shows "\<exists>mq1. adapter_publish [] False topic nv h mq = Ok (True, mq1)
    \<and> mq_state mq1 = MQTT_ERROR \<and> calls mq1 = calls mq @ [CallSend topic bs nv]
    \<and> (\<forall>ok topic' nv' h'. adapter_publish [] ok topic' nv' h' mq1 = Ok (False, mq1))
    \<and> (\<forall>es. mqtt_deleteserver (map run_event es) mq1 = Blocked)"
proof -
  let ?mq1 = "(mq_call (CallSend topic bs nv) mq)\<lparr>mq_state := MQTT_ERROR\<rparr>"
  have "adapter_publish [] False topic nv h mq = Ok (True, ?mq1)"
    using assms by (simp add: adapter_publish_def poll_connected_none Let_def mqtt_disconnect_def)
  moreover have "calls ?mq1 = calls mq @ [CallSend topic bs nv]" by (simp add: mq_call_def)
  moreover have "adapter_publish [] ok topic' nv' h' ?mq1 = Ok (False, ?mq1)" for ok topic' nv' h'
    by (simp add: adapter_publish_def poll_connected_none Let_def)
  moreover have "mqtt_deleteserver (map run_event es) ?mq1 = Blocked" for es
    using poll_notconnected_stuck [of ?mq1 es] by (simp add: mqtt_deleteserver_def still_up_def)
  ultimately show ?thesis by auto
qed

definition demo_adapter :: mqtt_adapter where
  "demo_adapter = \<lparr>mq_state = MQTT_CONNECTED, mqtthost = ''tcp://localhost:1883'', subscriptions = [], calls = []\<rparr>"

lemma failed_send_wedges_adapter_witness:
  "\<exists>mq1. adapter_publish [] False ''/replies/up'' 0
      \<lparr>blocks = [0 \<mapsto> \<lparr>nv_len = 1, nv_data = BytesOf 0, payload = [7]\<rparr>], nextAddr = 1\<rparr> demo_adapter = Ok (True, mq1)
    \<and> mqtt_deleteserver (map run_event [ConnectionLost True, Connected, Disconnected True]) mq1 = Blocked"
proof -
  let ?h = "\<lparr>blocks = [0 \<mapsto> \<lparr>nv_len = 1, nv_data = BytesOf 0, payload = [7]\<rparr>], nextAddr = 1\<rparr>"
  have "nvoid_bytes 0 ?h = Ok [7]" by (simp add: nvoid_bytes_def deref_def read_data_def)
  moreover have "mq_state demo_adapter = MQTT_CONNECTED" by (simp add: demo_adapter_def)
  ultimately show ?thesis using failed_send_wedges_adapter [of demo_adapter 0 ?h "[7]" "''/replies/up''"] by blast
qed

end
