(* ===== verification/Routine.thy ===== *)
theory Routine
  imports Dispatch Mqtt
begin

text \<open>
  Functions that other nodes can call (\<^verbatim>\<open>RExecDetails\<close> in \<^verbatim>\<open>include/remote/remote.hpp\<close>, the call tables in
  \<^verbatim>\<open>include/scheduler/scheduler.hpp\<close>): how JSON arguments become C++ arguments, who releases the memory they point to,
  and how results and exceptions are reported. The JSON library is a parameter.
\<close>

section \<open>Arguments and their memory\<close>

text \<open>C strings, byte buffers and the objects that arguments of other pointer types point to live on the heap of the
  process; other arguments are values. Of an object only its address matters here.\<close>

record rheap =
  nvs :: cheap
  cstrs :: "nat \<rightharpoonup> string"
  nextStr :: nat
  objs :: "nat set"
  nextObj :: nat

datatype argty = TyCString | TyByteArray | TyPointer | TyPlain

datatype 'v arg = CString nat | ByteArray nat | Pointer nat | Plain 'v

text \<open>The JSON library: element of an array, conversions from JSON, which may throw, conversions to JSON, the
  replies built from them, and the message of the exception a failed conversion throws. For other pointer types the
  application supplies the conversion; \<open>get_object\<close> says whether it succeeds, with a new object.\<close>

record ('j, 'v) jsonlib =
  elem :: "'j \<Rightarrow> nat \<Rightarrow> 'j option"
  get_string :: "'j \<Rightarrow> string option"
  get_bytes :: "'j \<Rightarrow> u8 list option"
  get_object :: "'j \<Rightarrow> bool"
  get_plain :: "'j \<Rightarrow> 'v option"
  of_string :: "string \<Rightarrow> 'j"
  of_bytes :: "u8 list \<Rightarrow> 'j"
  of_plain :: "'v \<Rightarrow> 'j"
  empty_value :: 'j
  args_obj :: "'j \<Rightarrow> 'j"
  exc_obj :: "string \<Rightarrow> 'j"
  conv_what :: string

definition strdup :: "string \<Rightarrow> rheap \<Rightarrow> nat \<times> rheap" where
  "strdup s h = (nextStr h,
     h\<lparr>cstrs := (cstrs h)(nextStr h \<mapsto> takeWhile (\<lambda>c. c \<noteq> CHR 0x00) s), nextStr := nextStr h + 1\<rparr>)"

definition free_str :: "nat \<Rightarrow> rheap \<Rightarrow> rheap outcome" where
  "free_str a h = (case cstrs h a of None \<Rightarrow> Fault Dangling | Some _ \<Rightarrow> Ok (h\<lparr>cstrs := (cstrs h)(a := None)\<rparr>))"

definition read_str :: "nat \<Rightarrow> rheap \<Rightarrow> string outcome" where
  "read_str a h = (case cstrs h a of None \<Rightarrow> Fault Dangling | Some s \<Rightarrow> Ok s)"

definition free_nvoid :: "nat \<Rightarrow> rheap \<Rightarrow> rheap outcome" where
  "free_nvoid a h = obind (nvoid_free a (nvs h)) (\<lambda>n. Ok (h\<lparr>nvs := n\<rparr>))"

definition delete_object :: "nat \<Rightarrow> rheap \<Rightarrow> rheap outcome" where
  "delete_object a h = (if a \<in> objs h then Ok (h\<lparr>objs := objs h - {a}\<rparr>) else Fault Dangling)"

text \<open>\<^verbatim>\<open>from_json\<close> for one argument. An exception of the library is the fault \<open>Uncaught\<close>, which \<open>Invoke\<close> catches.\<close>

definition get_arg :: "('j, 'v) jsonlib \<Rightarrow> argty \<Rightarrow> 'j \<Rightarrow> rheap \<Rightarrow> ('v arg \<times> rheap) outcome" where
  "get_arg lib ty j h =
    (case ty of
       TyCString \<Rightarrow> (case get_string lib j of
           None \<Rightarrow> Fault Uncaught | Some s \<Rightarrow> (case strdup s h of (a, h1) \<Rightarrow> Ok (CString a, h1)))
     | TyByteArray \<Rightarrow> obind (nvoid_from_json True (get_bytes lib) j (nvs h)) (\<lambda>(a, n). Ok (ByteArray a, h\<lparr>nvs := n\<rparr>))
     | TyPointer \<Rightarrow> if get_object lib j
         then Ok (Pointer (nextObj h), h\<lparr>objs := insert (nextObj h) (objs h), nextObj := nextObj h + 1\<rparr>) else Fault Uncaught
     | TyPlain \<Rightarrow> (case get_plain lib j of None \<Rightarrow> Fault Uncaught | Some v \<Rightarrow> Ok (Plain v, h)))"

text \<open>\<^verbatim>\<open>get<std::tuple<Args...>>\<close>: the elements in order. When one fails, the earlier ones stay allocated.\<close>

fun get_args :: "('j, 'v) jsonlib \<Rightarrow> 'j \<Rightarrow> nat \<Rightarrow> argty list \<Rightarrow> rheap \<Rightarrow> 'v arg list outcome \<times> rheap" where
  "get_args lib j i [] h = (Ok [], h)"
| "get_args lib j i (ty # tys) h =
    (case elem lib j i of
       None \<Rightarrow> (Fault Uncaught, h)
     | Some x \<Rightarrow> case get_arg lib ty x h of
         Ok (a, h1) \<Rightarrow> (case get_args lib j (i + 1) tys h1 of (as, h2) \<Rightarrow> (obind as (\<lambda>bs. Ok (a # bs)), h2))
       | Blocked \<Rightarrow> (Blocked, h)
       | Fault f \<Rightarrow> (Fault f, h))"

text \<open>The overloads of \<^verbatim>\<open>ArgumentGC\<close> release the later arguments first.\<close>

fun ArgumentGC :: "'v arg list \<Rightarrow> rheap \<Rightarrow> rheap outcome" where
  "ArgumentGC [] h = Ok h"
| "ArgumentGC (Plain v # as) h = ArgumentGC as h"
| "ArgumentGC (CString a # as) h = obind (ArgumentGC as h) (free_str a)"
| "ArgumentGC (ByteArray a # as) h = obind (ArgumentGC as h) (free_nvoid a)"
| "ArgumentGC (Pointer a # as) h = obind (ArgumentGC as h) (delete_object a)"

section \<open>Invocation\<close>

text \<open>A registered function works on its arguments and the heap; it returns nothing, a value, a C string or a byte
  buffer, or it throws.\<close>

datatype 'v result = RVoid | RPlain 'v | RCString nat | RBytes nat | ThrowStd string | ThrowOther

type_synonym 'v routine_fn = "'v arg list \<Rightarrow> rheap \<Rightarrow> 'v result \<times> rheap"

text \<open>\<^verbatim>\<open>Invoke\<close> of all specialisations of \<^verbatim>\<open>RoutineRemote\<close>, by the kind of the result.\<close>

definition Invoke :: "('j, 'v) jsonlib \<Rightarrow> argty list \<Rightarrow> 'v routine_fn \<Rightarrow> 'j \<Rightarrow> rheap \<Rightarrow> ('j \<times> rheap) outcome" where
  "Invoke lib tys fn vaList h =
    (case get_args lib vaList 0 tys h of
       (Blocked, h1) \<Rightarrow> Blocked
     | (Fault f, h1) \<Rightarrow> if f = Uncaught then Ok (exc_obj lib (conv_what lib), h1) else Fault f
     | (Ok as, h1) \<Rightarrow>
        case fn as h1 of (r, h2) \<Rightarrow>
        case r of
          ThrowStd w \<Rightarrow> Ok (exc_obj lib w, h2)
        | ThrowOther \<Rightarrow> Fault Uncaught
        | RVoid \<Rightarrow> obind (ArgumentGC as h2) (\<lambda>h3. Ok (args_obj lib (empty_value lib), h3))
        | RPlain v \<Rightarrow> obind (ArgumentGC as h2) (\<lambda>h3. Ok (args_obj lib (of_plain lib v), h3))
        | RCString a \<Rightarrow>
            obind (read_str a h2) (\<lambda>s. obind (free_str a h2) (\<lambda>h3. obind (ArgumentGC as h3)
              (\<lambda>h4. Ok (args_obj lib (of_string lib s), h4))))
        | RBytes a \<Rightarrow>
            obind (nvoid_bytes a (nvs h2)) (\<lambda>bs. obind (free_nvoid a h2) (\<lambda>h3. obind (ArgumentGC as h3)
              (\<lambda>h4. Ok (args_obj lib (of_bytes lib bs), h4)))))"

section \<open>Call tables\<close>

type_synonym 'j routine = "'j \<Rightarrow> rheap \<Rightarrow> ('j \<times> rheap) outcome"

record 'j rpc_table =
  funcs :: "string \<rightharpoonup> 'j routine"
  funcTraits :: "string \<rightharpoonup> StackTraits"

definition RegisterRPCall :: "string \<Rightarrow> StackTraits \<Rightarrow> 'j routine \<Rightarrow> 'j rpc_table \<Rightarrow> 'j rpc_table" where
  "RegisterRPCall fName tr rt tb = tb\<lparr>funcs := (funcs tb)(fName \<mapsto> rt),
     funcTraits := (funcTraits tb)(fName \<mapsto> tr)\<rparr>"

definition RegisterRPCall_default :: "string \<Rightarrow> 'j routine \<Rightarrow> 'j rpc_table \<Rightarrow> 'j rpc_table" where
  "RegisterRPCall_default fName rt tb = RegisterRPCall fName (StackTraits_ux_ssz_cs True 0 True) rt tb"

text \<open>A request with optional entries \<^verbatim>\<open>actname\<close> and \<^verbatim>\<open>args\<close>. A name that is not a string throws. A request that names a
  registered function makes a batch task \<open>t\<close> with the function's stack, which invokes it and sets the promise that the
  caller waits for; the call is split at this wait.\<close>

record 'j request =
  actname :: "'j option"
  req_args :: "'j option"

datatype 'j call_begin = NoAnswer | AnswerFalse | Awaits "'j routine" 'j

definition duration_max :: Duration where
  "duration_max = 2 ^ 63 - 1"

definition CreateJSONBatchCall ::
    "('j, 'v) jsonlib \<Rightarrow> tid \<Rightarrow> tid option \<Rightarrow> nat \<Rightarrow> 'j request \<Rightarrow> 'j rpc_table \<Rightarrow> sched \<Rightarrow> ('j call_begin \<times> sched) outcome" where
  "CreateJSONBatchCall lib t cur rnd rq tb w =
    (case (actname rq, req_args rq) of
       (Some n, Some as) \<Rightarrow>
         (case get_string lib n of
            None \<Rightarrow> Fault Uncaught
          | Some fName \<Rightarrow>
              (case funcs tb fName of
                 None \<Rightarrow> Ok (NoAnswer, w)
               | Some rt \<Rightarrow>
                   (case funcTraits tb fName of
                      None \<Rightarrow> Ok (AnswerFalse, w)
                    | Some tr \<Rightarrow> obind (CreateBatchTask t cur rnd tr duration_max w) (\<lambda>w1. Ok (Awaits rt as, w1)))))
     | _ \<Rightarrow> Ok (NoAnswer, w))"

lemma registered_call_awaits:
  assumes "get_string lib n = Some f" "CreateBatchTask t cur rnd tr duration_max w = Ok w1"
  shows "CreateJSONBatchCall lib t cur rnd \<lparr>actname = Some n, req_args = Some as\<rparr> (RegisterRPCall f tr rt tb) w = Ok (Awaits rt as, w1)"
  using assms by (simp add: CreateJSONBatchCall_def RegisterRPCall_def)

subsection \<open>Local named executions\<close>

text \<open>The table of local functions maps names to \<^verbatim>\<open>std::any\<close>; looking a name up with \<^verbatim>\<open>operator[]\<close> adds an empty entry. A function
  is found only under its exact signature. \<open>closures\<close> are the bodies of the tasks that have not run yet, \<open>settled\<close> what
  the futures of the callers hold: the function's value; of a standard exception only its base part, because it is copied
  through a reference to \<^verbatim>\<open>std::exception\<close>; or the cancellation of an interactive task.\<close>

datatype 'v fn_result = Returns 'v | ThrowsStd string | ThrowsOther

datatype 'v settlement = Value 'v | StdException string | InvalidArgument string

record ('sg, 'a, 'v) named_env =
  lexecFuncMap :: "string \<rightharpoonup> ('sg \<times> ('a \<Rightarrow> 'v fn_result)) option"
  closures :: "tid \<rightharpoonup> 'v fn_result"
  settled :: "tid \<rightharpoonup> 'v settlement"

definition RegisterLocalExecution ::
    "string \<Rightarrow> 'sg \<Rightarrow> ('a \<Rightarrow> 'v fn_result) \<Rightarrow> ('sg, 'a, 'v) named_env \<Rightarrow> ('sg, 'a, 'v) named_env" where
  "RegisterLocalExecution eName sg f e = e\<lparr>lexecFuncMap := (lexecFuncMap e)(eName \<mapsto> Some (sg, f))\<rparr>"

definition named_lookup ::
    "'sg \<Rightarrow> string \<Rightarrow> ('sg, 'a, 'v) named_env \<Rightarrow> ('a \<Rightarrow> 'v fn_result) outcome \<times> ('sg, 'a, 'v) named_env" where
  "named_lookup sg eName e =
    (case lexecFuncMap e eName of
       None \<Rightarrow> (Fault Uncaught, e\<lparr>lexecFuncMap := (lexecFuncMap e)(eName \<mapsto> None)\<rparr>)
     | Some None \<Rightarrow> (Fault Uncaught, e)
     | Some (Some (sg', f)) \<Rightarrow> (if sg' = sg then Ok f else Fault Uncaught, e))"

text \<open>The three ways to create the task; the exception of a failed lookup goes to the caller before anything is created.\<close>

definition with_named ::
    "'sg \<Rightarrow> string \<Rightarrow> 'a \<Rightarrow> tid \<Rightarrow> sched outcome \<Rightarrow> ('sg, 'a, 'v) named_env
      \<Rightarrow> (('sg, 'a, 'v) named_env \<times> sched) outcome" where
  "with_named sg eName eArgs t created e =
    (case named_lookup sg eName e of (f, e1) \<Rightarrow>
       obind f (\<lambda>fn. obind created (\<lambda>w1. Ok (e1\<lparr>closures := (closures e1)(t \<mapsto> fn eArgs)\<rparr>, w1))))"

definition CreateLocalNamedInteractiveExecution ::
    "'sg \<Rightarrow> StackTraits \<Rightarrow> Duration \<Rightarrow> Duration \<Rightarrow> string \<Rightarrow> 'a \<Rightarrow> tid \<Rightarrow> TimePoint \<Rightarrow> ('sg, 'a, 'v) named_env \<Rightarrow> sched
      \<Rightarrow> (('sg, 'a, 'v) named_env \<times> sched) outcome" where
  "CreateLocalNamedInteractiveExecution sg st dl bu eName eArgs t now e w =
     with_named sg eName eArgs t (Ok (CreateInteractiveTask t st dl bu now w)) e"

definition CreateLocalNamedBatchExecution ::
    "'sg \<Rightarrow> StackTraits \<Rightarrow> Duration \<Rightarrow> string \<Rightarrow> 'a \<Rightarrow> tid \<Rightarrow> tid option \<Rightarrow> nat \<Rightarrow> ('sg, 'a, 'v) named_env \<Rightarrow> sched
      \<Rightarrow> (('sg, 'a, 'v) named_env \<times> sched) outcome" where
  "CreateLocalNamedBatchExecution sg st bu eName eArgs t cur rnd e w =
     with_named sg eName eArgs t (CreateBatchTask t cur rnd st bu w) e"

definition CreateLocalNamedRealTimeExecution ::
    "'sg \<Rightarrow> StackTraits \<Rightarrow> u32 \<Rightarrow> string \<Rightarrow> 'a \<Rightarrow> tid \<Rightarrow> ('sg, 'a, 'v) named_env \<Rightarrow> sched
      \<Rightarrow> (('sg, 'a, 'v) named_env \<times> sched) outcome" where
  "CreateLocalNamedRealTimeExecution sg st k eName eArgs t e w =
     with_named sg eName eArgs t (Ok (CreateRealTimeTask t st k w)) e"

text \<open>The task runs, or the scheduler cancels it, which it does with expired interactive tasks only.\<close>

definition named_body :: "tid \<Rightarrow> ('sg, 'a, 'v) named_env \<Rightarrow> ('sg, 'a, 'v) named_env outcome" where
  "named_body t e =
    (case closures e t of
       None \<Rightarrow> Ok e
     | Some r \<Rightarrow>
         let settle = (\<lambda>v. Ok (e\<lparr>closures := (closures e)(t := None), settled := (settled e)(t \<mapsto> v)\<rparr>)) in
         (case r of Returns v \<Rightarrow> settle (Value v) | ThrowsStd what \<Rightarrow> settle (StdException ''std::exception'')
          | ThrowsOther \<Rightarrow> Fault Uncaught))"

definition named_cancel :: "tid \<Rightarrow> ('sg, 'a, 'v) named_env \<Rightarrow> ('sg, 'a, 'v) named_env" where
  "named_cancel t e = e\<lparr>closures := (closures e)(t := None),
     settled := (settled e)(t \<mapsto> InvalidArgument ''Local Named Execution Cancelled'')\<rparr>"

text \<open>A function that was registered is found by its name under its own signature only. When the task that was created
  for it has run, the caller's future holds the value of the function at the given arguments; the message of
  a standard exception is lost.\<close>

lemma named_execution_settles:
  assumes "CreateBatchTask t cur rnd st bu w = Ok w1"
  shows "\<exists>e1. CreateLocalNamedBatchExecution sg st bu n a t cur rnd (RegisterLocalExecution n sg f e) w = Ok (e1, w1)
    \<and> (\<forall>v. f a = Returns v \<longrightarrow> (\<exists>e2. named_body t e1 = Ok e2 \<and> settled e2 t = Some (Value v)))
    \<and> (\<forall>what. f a = ThrowsStd what \<longrightarrow> (\<exists>e2. named_body t e1 = Ok e2 \<and> settled e2 t = Some (StdException ''std::exception'')))"
    and "sg' \<noteq> sg \<Longrightarrow>
      CreateLocalNamedBatchExecution sg' st bu n a t cur rnd (RegisterLocalExecution n sg f e) w = Fault Uncaught"
  using assms by (auto simp: CreateLocalNamedBatchExecution_def with_named_def named_lookup_def RegisterLocalExecution_def named_body_def)

section \<open>Ownership of arguments\<close>

datatype ptr = PStr nat | PNv nat | PObj nat

fun ptrs :: "'v arg list \<Rightarrow> ptr list" where
  "ptrs [] = []"
| "ptrs (CString a # as) = PStr a # ptrs as"
| "ptrs (ByteArray a # as) = PNv a # ptrs as"
| "ptrs (Pointer a # as) = PObj a # ptrs as"
| "ptrs (Plain v # as) = ptrs as"

text \<open>What is allocated.\<close>

definition live :: "rheap \<Rightarrow> ptr set" where
  "live h = PStr ` dom (cstrs h) \<union> PNv ` dom (blocks (nvs h)) \<union> PObj ` objs h"

text \<open>Addresses that were not handed out yet are not in use.\<close>

definition heap_ok :: "rheap \<Rightarrow> bool" where
  "heap_ok h \<longleftrightarrow> (\<forall>a \<in> dom (cstrs h). a < nextStr h) \<and> (\<forall>a \<in> dom (blocks (nvs h)). a < nextAddr (nvs h)) \<and>
     (\<forall>a \<in> objs h. a < nextObj h)"

lemma live_mem [simp]:
  "PStr a \<in> live h \<longleftrightarrow> a \<in> dom (cstrs h)" "PNv a \<in> live h \<longleftrightarrow> a \<in> dom (blocks (nvs h))" "PObj a \<in> live h \<longleftrightarrow> a \<in> objs h"
  by (auto simp: live_def)

lemma live_release [simp]:
  "live (h\<lparr>cstrs := (cstrs h)(a := None)\<rparr>) = live h - {PStr a}"
  "live (h\<lparr>nvs := (nvs h)\<lparr>blocks := (blocks (nvs h))(a := None)\<rparr>\<rparr>) = live h - {PNv a}"
  "live (h\<lparr>objs := objs h - {a}\<rparr>) = live h - {PObj a}"
  by (auto simp: live_def)

lemma get_arg_effect:
  assumes "get_arg lib ty j h = Ok (a, h1)" "heap_ok h"
  shows "heap_ok h1 \<and> live h1 = live h \<union> set (ptrs [a]) \<and> set (ptrs [a]) \<inter> live h = {}"
proof (cases ty)
  case TyCString
  with assms(1) obtain s where "a = CString (nextStr h)"
      "h1 = h\<lparr>cstrs := (cstrs h)(nextStr h \<mapsto> s), nextStr := nextStr h + 1\<rparr>"
    by (auto simp: get_arg_def strdup_def split: option.splits)
  with assms(2) show ?thesis by (auto simp: heap_ok_def live_def less_Suc_eq)
next
  case TyByteArray
  with assms(1) obtain x n where x: "nvoid_from_json True (get_bytes lib) j (nvs h) = Ok (x, n)" "a = ByteArray x" "h1 = h\<lparr>nvs := n\<rparr>"
    by (auto simp: get_arg_def)
  then have "x = nextAddr (nvs h)" "dom (blocks n) = insert x (dom (blocks (nvs h)))" "nextAddr n = nextAddr (nvs h) + 1"
    by (auto simp: nvoid_from_json_def nvoid_new_def alloc_block_def split: option.splits if_splits)
  with x assms(2) show ?thesis by (auto simp: heap_ok_def live_def less_Suc_eq)
next
  case TyPointer
  with assms show ?thesis by (auto simp: get_arg_def heap_ok_def live_def less_Suc_eq split: if_splits)
next
  case TyPlain
  with assms show ?thesis by (auto simp: get_arg_def split: option.splits)
qed

lemma ptrs_Cons: "ptrs (a # as) = ptrs [a] @ ptrs as"
  by (cases a; simp)

lemma distinct_ptr [simp]: "distinct (ptrs [a])"
  by (cases a; simp)

lemma get_args_effect:
  assumes "get_args lib j i tys h = (Ok as, h1)" "heap_ok h"
  shows "heap_ok h1 \<and> live h1 = live h \<union> set (ptrs as) \<and> set (ptrs as) \<inter> live h = {} \<and> distinct (ptrs as)"
  using assms
proof (induction tys arbitrary: i h as)
  case (Cons ty tys)
  from Cons.prems(1) obtain x a h0 bs where
      x: "get_arg lib ty x h = Ok (a, h0)" "get_args lib j (i + 1) tys h0 = (Ok bs, h1)" "as = a # bs"
    by (auto split: option.splits prod.splits outcome.splits)
  note 1 = get_arg_effect [OF x(1) Cons.prems(2)]
  from Cons.IH [OF x(2)] 1
  have 2: "heap_ok h1 \<and> live h1 = live h0 \<union> set (ptrs bs) \<and> set (ptrs bs) \<inter> live h0 = {} \<and> distinct (ptrs bs)" by blast
  show ?case unfolding x(3) ptrs_Cons [of a bs] using 1 2 by auto
qed simp

lemma free_str_effect:
  "PStr a \<in> live h \<Longrightarrow> free_str a h = Ok (h\<lparr>cstrs := (cstrs h)(a := None)\<rparr>)"
  by (auto simp: free_str_def)

lemma free_nvoid_effect:
  "PNv a \<in> live h \<Longrightarrow> free_nvoid a h = Ok (h\<lparr>nvs := (nvs h)\<lparr>blocks := (blocks (nvs h))(a := None)\<rparr>\<rparr>)"
  by (auto simp: free_nvoid_def nvoid_free_def deref_def)

lemma ArgumentGC_effect:
  assumes "distinct (ptrs as)" "set (ptrs as) \<subseteq> live h"
  shows "\<exists>h'. ArgumentGC as h = Ok h' \<and> live h' = live h - set (ptrs as)"
  using assms
proof (induction as)
  case (Cons a as)
  have "distinct (ptrs as)" "set (ptrs as) \<subseteq> live h" using Cons.prems by (simp_all add: ptrs_Cons [of a as])
  then obtain h1 where h1: "ArgumentGC as h = Ok h1" "live h1 = live h - set (ptrs as)" using Cons.IH by blast
  then have m: "set (ptrs [a]) \<subseteq> live h1" using Cons.prems by (auto simp: ptrs_Cons [of a as])
  have l: "live h1 - set (ptrs [a]) = live h - set (ptrs (a # as))" using h1(2) by (auto simp: ptrs_Cons [of a as])
  show ?case
  proof (cases a)
    case (CString x)
    then show ?thesis using m l h1(1) free_str_effect [of x h1] by simp
  next
    case (ByteArray x)
    then show ?thesis using m l h1(1) free_nvoid_effect [of x h1] by simp
  next
    case (Pointer x)
    then show ?thesis using m l h1(1) by (simp add: delete_object_def)
  next
    case (Plain v)
    then show ?thesis using h1 by simp
  qed
qed simp

text \<open>A function that returns, leaves its arguments allocated and hands over nothing but a fresh result; and the answer that
  belongs to the result.\<close>

definition hands_over :: "rheap \<Rightarrow> 'v result \<Rightarrow> rheap \<Rightarrow> bool" where
  "hands_over h1 r h2 =
    (case r of
       RCString a \<Rightarrow> PStr a \<notin> live h1 \<and> live h2 = insert (PStr a) (live h1)
     | RBytes a \<Rightarrow> PNv a \<notin> live h1 \<and> live h2 = insert (PNv a) (live h1) \<and> (\<exists>bs. nvoid_bytes a (nvs h2) = Ok bs)
     | ThrowStd w \<Rightarrow> False
     | ThrowOther \<Rightarrow> False
     | _ \<Rightarrow> live h2 = live h1)"

fun answers :: "('j, 'v) jsonlib \<Rightarrow> 'v result \<Rightarrow> rheap \<Rightarrow> 'j \<Rightarrow> bool" where
  "answers lib RVoid h j \<longleftrightarrow> j = args_obj lib (empty_value lib)"
| "answers lib (RPlain v) h j \<longleftrightarrow> j = args_obj lib (of_plain lib v)"
| "answers lib (RCString a) h j \<longleftrightarrow> (\<exists>s. cstrs h a = Some s \<and> j = args_obj lib (of_string lib s))"
| "answers lib (RBytes a) h j \<longleftrightarrow> (\<exists>bs. nvoid_bytes a (nvs h) = Ok bs \<and> j = args_obj lib (of_bytes lib bs))"
| "answers lib _ h j \<longleftrightarrow> False"

lemma result_released:
  assumes "hands_over h1 r h2"
  obtains j h3 where "live h3 = live h1" "answers lib r h2 j"
    and "\<And>tys as h. get_args lib va 0 tys h = (Ok as, h1) \<Longrightarrow> fn as h1 = (r, h2) \<Longrightarrow>
      Invoke lib tys fn va h = obind (ArgumentGC as h3) (\<lambda>h4. Ok (j, h4))"
proof (cases r)
  case RVoid
  with assms show thesis by (intro that [of h2 "args_obj lib (empty_value lib)"]) (auto simp: hands_over_def Invoke_def)
next
  case (RPlain v)
  with assms show thesis by (intro that [of h2 "args_obj lib (of_plain lib v)"]) (auto simp: hands_over_def Invoke_def)
next
  case (RCString a)
  from RCString assms have s: "PStr a \<notin> live h1" "live h2 = insert (PStr a) (live h1)" by (simp_all add: hands_over_def)
  then have "PStr a \<in> live h2" by simp
  then obtain s where str: "cstrs h2 a = Some s" by auto
  have "live (h2\<lparr>cstrs := (cstrs h2)(a := None)\<rparr>) = live h1" using s by auto
  then show thesis
    by (rule that [of _ "args_obj lib (of_string lib s)"]) (use RCString str in \<open>simp_all add: Invoke_def read_str_def free_str_def\<close>)
next
  case (RBytes a)
  from RBytes assms obtain bs where bs: "nvoid_bytes a (nvs h2) = Ok bs" "PNv a \<notin> live h1" "live h2 = insert (PNv a) (live h1)"
    by (auto simp: hands_over_def)
  then have "free_nvoid a h2 = Ok (h2\<lparr>nvs := (nvs h2)\<lparr>blocks := (blocks (nvs h2))(a := None)\<rparr>\<rparr>)"
    by (intro free_nvoid_effect) simp
  moreover have "live (h2\<lparr>nvs := (nvs h2)\<lparr>blocks := (blocks (nvs h2))(a := None)\<rparr>\<rparr>) = live h1" using bs by auto
  ultimately show thesis
    by (intro that [of "h2\<lparr>nvs := (nvs h2)\<lparr>blocks := (blocks (nvs h2))(a := None)\<rparr>\<rparr>" "args_obj lib (of_bytes lib bs)"])
      (use RBytes bs in \<open>simp_all add: Invoke_def\<close>)
qed (use assms in \<open>simp_all add: hands_over_def\<close>)

text \<open>C19. Invoking a registered function on arguments that convert, when the function returns normally, keeps its arguments and
  hands over at most a fresh C string or byte buffer, answers with the result and leaves exactly the memory allocated that was allocated before:
  every C string, byte buffer and object made for the arguments, and the result, is released once.\<close>

theorem Invoke_releases_arguments:
  assumes "heap_ok h" "get_args lib va 0 tys h = (Ok as, h1)" "fn as h1 = (r, h2)" "hands_over h1 r h2"
  shows "\<exists>j h'. Invoke lib tys fn va h = Ok (j, h') \<and> answers lib r h2 j \<and> live h' = live h"
proof -
  note e = get_args_effect [OF assms(2,1)]
  obtain j h3 where h3: "live h3 = live h1" "answers lib r h2 j"
    "Invoke lib tys fn va h = obind (ArgumentGC as h3) (\<lambda>h4. Ok (j, h4))"
    using result_released [OF assms(4)] assms(2,3) by metis
  obtain h4 where h4: "ArgumentGC as h3 = Ok h4" "live h4 = live h3 - set (ptrs as)"
    using ArgumentGC_effect [of as h3] e h3(1) by auto
  have "live h4 = live h" using h4(2) h3(1) e by auto
  with h3(2,3) h4(1) show ?thesis by simp
qed

text \<open>A small library for examples: a JSON value is a list of strings.\<close>

definition demo_lib :: "(string list, nat) jsonlib" where
  "demo_lib = \<lparr>elem = (\<lambda>j i. if i < length j then Some [j ! i] else None), get_string = (\<lambda>j. Some (hd j)), get_bytes = (\<lambda>j. Some [1]), get_object = (\<lambda>j. True),
     get_plain = (\<lambda>j. Some 0), of_string = (\<lambda>s. [s]), of_bytes = (\<lambda>bs. []), of_plain = (\<lambda>v. []), empty_value = [],
     args_obj = (\<lambda>j. ''args'' # j), exc_obj = (\<lambda>w. [''exception'', w]), conv_what = ''type_error''\<rparr>"

definition demo_rheap :: rheap where
  "demo_rheap = \<lparr>nvs = \<lparr>blocks = Map.empty, nextAddr = 0\<rparr>, cstrs = Map.empty, nextStr = 0, objs = {}, nextObj = 0\<rparr>"

lemma Invoke_releases_arguments_witness:
  "\<exists>h'. Invoke demo_lib [TyCString, TyPlain, TyPointer] (\<lambda>as h. (RPlain 3, h)) [''a'', ''b'', ''c''] demo_rheap = Ok ([''args''], h')
    \<and> live h' = {}"
proof -
  let ?h1 = "demo_rheap\<lparr>cstrs := [0 \<mapsto> ''a''], nextStr := 1, objs := {0}, nextObj := 1\<rparr>"
  have "get_args demo_lib [''a'', ''b'', ''c''] 0 [TyCString, TyPlain, TyPointer] demo_rheap
      = (Ok [CString 0, Plain 0, Pointer 0], ?h1)"
    by (simp add: demo_lib_def demo_rheap_def get_arg_def strdup_def)
  moreover have "hands_over ?h1 (RPlain 3) ?h1" by (simp add: hands_over_def)
  moreover have "heap_ok demo_rheap" "live demo_rheap = {}" by (simp_all add: demo_rheap_def heap_ok_def live_def)
  ultimately show ?thesis
    using Invoke_releases_arguments [of demo_rheap demo_lib "[''a'', ''b'', ''c'']" "[TyCString, TyPlain, TyPointer]"
      "[CString 0, Plain 0, Pointer 0]" ?h1 "\<lambda>as h. (RPlain 3, h)" "RPlain 3" ?h1]
    by (auto simp: demo_lib_def)
qed

lemma ptrs_mem: "CString a \<in> set as \<longleftrightarrow> PStr a \<in> set (ptrs as)"
  by (induction as rule: ptrs.induct) auto

lemma ArgumentGC_dangling:
  assumes "CString a \<in> set as" "PStr a \<notin> live h" "distinct (ptrs as)" "set (ptrs as) \<subseteq> insert (PStr a) (live h)"
  shows "ArgumentGC as h = Fault Dangling"
  using assms
proof (induction as)
  case (Cons x as)
  show ?case
  proof (cases "CString a \<in> set as")
    case True
    then have "ArgumentGC as h = Fault Dangling"
      by (rule Cons.IH) (use Cons.prems in \<open>simp_all add: ptrs_Cons [of x as]\<close>)
    then show ?thesis by (cases x) simp_all
  next
    case False
    then have x: "x = CString a" using Cons.prems(1) by simp
    have "set (ptrs as) \<subseteq> live h" using Cons.prems(4) False by (auto simp: ptrs_mem x)
    then obtain h1 where h1: "ArgumentGC as h = Ok h1" "live h1 = live h - set (ptrs as)"
      using ArgumentGC_effect [of as h] Cons.prems(3) x by auto
    then have "PStr a \<notin> live h1" using Cons.prems(2) by simp
    with x h1(1) show ?thesis by (auto simp: free_str_def split: option.splits)
  qed
qed simp

text \<open>What happens when a function does not keep to that. If it throws a standard exception, the caller is answered, but
  what was allocated for the arguments stays allocated for ever. If it returns one of its own string arguments, that string
  is released twice.\<close>

lemma Invoke_ownership_errors:
  assumes "heap_ok h" "get_args lib va 0 tys h = (Ok as, h1)"
  shows "(fn as h1 = (ThrowStd w, h1) \<longrightarrow> Invoke lib tys fn va h = Ok (exc_obj lib w, h1)
      \<and> live h1 - live h = set (ptrs as))
    \<and> (CString a \<in> set as \<longrightarrow> fn as h1 = (RCString a, h1) \<longrightarrow> Invoke lib tys fn va h = Fault Dangling)"
proof -
  note e = get_args_effect [OF assms(2,1)]
  have "Invoke lib tys fn va h = Fault Dangling" if a: "CString a \<in> set as" and f: "fn as h1 = (RCString a, h1)"
  proof -
    let ?h = "h1\<lparr>cstrs := (cstrs h1)(a := None)\<rparr>"
    have lv: "PStr a \<in> live h1" using a e by (simp add: ptrs_mem)
    have "ArgumentGC as ?h = Fault Dangling"
      by (rule ArgumentGC_dangling [OF a]) (use e in \<open>auto simp del: live_mem\<close>)
    with lv assms(2) f show ?thesis by (auto simp: Invoke_def free_str_effect) (auto simp: read_str_def)
  qed
  moreover have "fn as h1 = (ThrowStd w, h1) \<Longrightarrow> Invoke lib tys fn va h = Ok (exc_obj lib w, h1)"
    using assms(2) by (simp add: Invoke_def)
  ultimately show ?thesis using e by auto
qed

lemma Invoke_ownership_errors_witness:
  "Invoke demo_lib [TyCString] (\<lambda>as h. (RCString 0, h)) [''a''] demo_rheap = Fault Dangling
    \<and> (\<exists>h1. Invoke demo_lib [TyCString] (\<lambda>as h. (ThrowStd ''bad call'', h)) [''a''] demo_rheap = Ok ([''exception'', ''bad call''], h1)
         \<and> live h1 = {PStr 0})"
proof -
  let ?h1 = "demo_rheap\<lparr>cstrs := [0 \<mapsto> ''a''], nextStr := 1\<rparr>"
  have g: "get_args demo_lib [''a''] 0 [TyCString] demo_rheap = (Ok [CString 0], ?h1)"
    by (simp add: demo_lib_def demo_rheap_def get_arg_def strdup_def)
  have ok: "heap_ok demo_rheap" "live demo_rheap = {}" by (simp_all add: demo_rheap_def heap_ok_def live_def)
  show ?thesis
    using Invoke_ownership_errors [OF ok(1) g, of "\<lambda>as h. (RCString 0, h)" "''''" 0]
      Invoke_ownership_errors [OF ok(1) g, of "\<lambda>as h. (ThrowStd ''bad call'', h)" "''bad call''" 0] ok(2)
    by (auto simp: demo_lib_def)
qed

end
