(* ===== verification/JData.thy ===== *)
theory JData
  imports Prelude
begin

text \<open>
  Logged and broadcast data (\<^verbatim>\<open>include/remote/data.hpp\<close>, \<^verbatim>\<open>src/remote/data.cc\<close>): the logger thread with its buffer, broadcast
  variables and the table of them. Redis, libevent, CBOR and JSON are the environment; the application identifier of
  the main connection, if there is one, is an argument.
\<close>

section \<open>Keys\<close>

text \<open>\<^verbatim>\<open>c_str()\<close> ends a string at its first zero.\<close>

definition c_str :: "string \<Rightarrow> string" where
  "c_str s = takeWhile (\<lambda>c. c \<noteq> CHR 0x00) s"

definition ConvertToRedisKey :: "string \<Rightarrow> string \<Rightarrow> string \<Rightarrow> string" where
  "ConvertToRedisKey apId nameSpace varName =
     c_str (''aps['' @ apId @ ''].ns['' @ nameSpace @ ''].bcasts['' @ c_str varName @ '']'')"

section \<open>The logger\<close>

record 'o LogStreamObject =
  logKey :: string
  timeStamp :: int
  encodedObject :: 'o

text \<open>The logger thread has not started, tests its condition with the mutex held, has decided to wait but does not wait yet, waits, sends
  what it took, or has returned. \<open>logged\<close> is the history of all objects, \<open>sent\<close> what went to the database.\<close>

datatype phase = Starting | Testing | Deciding | Waiting | Sending | Returned

record 'o LogManager =
  asyncBufferEncoded :: "'o LogStreamObject list"
  localBuffer :: "'o LogStreamObject list"
  logPhase :: phase
  toContinue :: bool
  sent :: "'o LogStreamObject list"
  logged :: "'o LogStreamObject list"

definition new_LogManager :: "'o LogManager" where
  "new_LogManager = \<lparr>asyncBufferEncoded = [], localBuffer = [], logPhase = Starting, toContinue = True, sent = [], logged = []\<rparr>"

definition cv_notify_one :: "'o LogManager \<Rightarrow> 'o LogManager" where
  "cv_notify_one l = (if logPhase l = Waiting then l\<lparr>logPhase := Testing\<rparr> else l)"

text \<open>\<^verbatim>\<open>LogRaw\<close> throws without a main connection. It holds the mutex, and so does not run between the test and
  the wait of the logger. Only the first object in an empty buffer is notified.\<close>

definition LogRaw :: "string option \<Rightarrow> string \<Rightarrow> string \<Rightarrow> int \<Rightarrow> 'o \<Rightarrow> 'o LogManager \<Rightarrow> 'o LogManager outcome" where
  "LogRaw appId nameSpace varName now obj l =
    (case appId of
       None \<Rightarrow> Fault Uncaught
     | Some ap \<Rightarrow>
         let lobj = \<lparr>logKey = ConvertToRedisKey ap nameSpace varName, timeStamp = now, encodedObject = obj\<rparr>;
             buf = asyncBufferEncoded l @ [lobj];
             l1 = l\<lparr>asyncBufferEncoded := buf, logged := logged l @ [lobj]\<rparr> in
         if logPhase l = Deciding then Blocked
         else Ok (if length buf = 1 then cv_notify_one l1 else l1))"

text \<open>The steps of \<^verbatim>\<open>RunLoggerMainLoop\<close>.\<close>

definition logger_test :: "'o LogManager \<Rightarrow> 'o LogManager" where
  "logger_test l =
    (if length (asyncBufferEncoded l) < 200 \<and> toContinue l then l\<lparr>logPhase := Deciding\<rparr>
     else l\<lparr>logPhase := Sending, localBuffer := asyncBufferEncoded l, asyncBufferEncoded := []\<rparr>)"

text \<open>\<open>sent\<close> is the sequence of the commands issued. What \<^verbatim>\<open>redisAsyncCommand\<close> returns is not looked at: of a command that the
  library refuses the object is neither written nor deleted, and the loop goes on in the same way.\<close>

fun send_all :: "'o LogStreamObject list \<Rightarrow> 'o LogManager \<Rightarrow> 'o LogManager" where
  "send_all [] l = l\<lparr>localBuffer := []\<rparr>"
| "send_all (x # xs) l = send_all xs (l\<lparr>localBuffer := xs, sent := sent l @ [x]\<rparr>)"

definition logger_send :: "'o LogManager \<Rightarrow> 'o LogManager" where
  "logger_send l =
    (let l1 = send_all (localBuffer l) l in l1\<lparr>logPhase := if toContinue l1 then Testing else Returned\<rparr>)"

definition logger_step :: "'o LogManager \<Rightarrow> 'o LogManager" where
  "logger_step l =
    (case logPhase l of
       Starting \<Rightarrow> l\<lparr>logPhase := if toContinue l then Testing else Returned\<rparr>
     | Testing \<Rightarrow> logger_test l
     | Deciding \<Rightarrow> l\<lparr>logPhase := Waiting\<rparr>
     | Sending \<Rightarrow> logger_send l
     | _ \<Rightarrow> l)"

text \<open>\<^verbatim>\<open>ShutDown\<close> of the scheduler clears \<^verbatim>\<open>toContinue\<close>; the end of its main loop calls \<^verbatim>\<open>StopLoggerMainLoop\<close>. Neither takes the mutex.\<close>

definition StopLoggerMainLoop :: "'o LogManager \<Rightarrow> 'o LogManager" where
  "StopLoggerMainLoop l = cv_notify_one l"

datatype 'o log_event = Log "string option" string string int 'o | LoggerRuns | ShutDown | Stop

text \<open>An object that cannot be logged leaves the state as it is: the exception goes to the caller, and a caller that finds the
  mutex taken tries again later.\<close>

fun log_step :: "'o log_event \<Rightarrow> 'o LogManager \<Rightarrow> 'o LogManager" where
  "log_step (Log ap ns v now x) l = (case LogRaw ap ns v now x l of Ok l1 \<Rightarrow> l1 | _ \<Rightarrow> l)"
| "log_step LoggerRuns l = logger_step l"
| "log_step ShutDown l = l\<lparr>toContinue := False\<rparr>"
| "log_step Stop l = StopLoggerMainLoop l"

subsection \<open>Order\<close>

definition log_inv :: "'o LogManager \<Rightarrow> bool" where
  "log_inv l \<longleftrightarrow> sent l @ localBuffer l @ asyncBufferEncoded l = logged l \<and> (logPhase l \<noteq> Sending \<longrightarrow> localBuffer l = [])"

lemma send_all_effect:
  "sent (send_all xs l) = sent l @ xs" "localBuffer (send_all xs l) = []"
  "asyncBufferEncoded (send_all xs l) = asyncBufferEncoded l" "logged (send_all xs l) = logged l"
  "toContinue (send_all xs l) = toContinue l"
  by (induction xs arbitrary: l) simp_all

lemma log_inv_step: "log_inv l \<Longrightarrow> log_inv (log_step e l)"
proof (cases e)
  case (Log ap ns v now x)
  then show "log_inv l \<Longrightarrow> log_inv (log_step e l)"
    by (auto simp: LogRaw_def Let_def log_inv_def cv_notify_one_def split: option.splits outcome.splits)
next
  case LoggerRuns
  then show "log_inv l \<Longrightarrow> log_inv (log_step e l)"
    by (auto simp: logger_step_def logger_test_def logger_send_def Let_def log_inv_def send_all_effect split: phase.splits)
next
  case ShutDown
  then show "log_inv l \<Longrightarrow> log_inv (log_step e l)" by (simp add: log_inv_def)
next
  case Stop
  then show "log_inv l \<Longrightarrow> log_inv (log_step e l)"
    by (auto simp: StopLoggerMainLoop_def cv_notify_one_def log_inv_def)
qed

interpretation logger: invariant_system "\<lambda>l. l = new_LogManager" "\<lambda>l l'. \<exists>e. l' = log_step e l" log_inv
proof
  fix l :: "'a LogManager"
  assume "l = new_LogManager"
  then show "log_inv l" by (simp add: new_LogManager_def log_inv_def)
qed (auto intro: log_inv_step)

text \<open>C26. In every execution of the logger, the objects sent to the database, those it is about to send and those in the
  buffer are together exactly the logged ones, in the order they were logged; once the logger has returned, only what
  was logged after its last look at the buffer is left.\<close>

theorem logger_keeps_order:
  "sent (fold log_step es new_LogManager) @ localBuffer (fold log_step es new_LogManager)
      @ asyncBufferEncoded (fold log_step es new_LogManager) = logged (fold log_step es new_LogManager)
    \<and> (logPhase (fold log_step es new_LogManager) = Returned \<longrightarrow> localBuffer (fold log_step es new_LogManager) = [])"
proof -
  have "log_inv (fold log_step es new_LogManager)" by (rule logger.reachable_inv [OF refl fold_reachable])
  then show ?thesis by (simp add: log_inv_def)
qed

lemma logger_keeps_order_witness:
  "logPhase (fold log_step [ShutDown, LoggerRuns] (new_LogManager :: nat LogManager)) = Returned
    \<and> localBuffer (fold log_step [ShutDown, LoggerRuns] (new_LogManager :: nat LogManager)) = []"
proof -
  have "logPhase (fold log_step [ShutDown, LoggerRuns] (new_LogManager :: nat LogManager)) = Returned"
    by (simp add: new_LogManager_def logger_step_def)
  with logger_keeps_order [of "[ShutDown, LoggerRuns]"] show ?thesis by blast
qed

subsection \<open>Missed wake-ups\<close>

text \<open>The logger waits, or is about to, and the buffer is not empty: no object will notify it.\<close>

definition asleep :: "'o LogManager \<Rightarrow> bool" where
  "asleep l \<longleftrightarrow> logPhase l \<in> {Deciding, Waiting} \<and> asyncBufferEncoded l \<noteq> []"

lemma asleep_step:
  assumes "asleep l" "e \<noteq> Stop"
  shows "asleep (log_step e l) \<and> sent (log_step e l) = sent l"
proof (cases e)
  case (Log ap ns v now x)
  have "length (asyncBufferEncoded l @ [y]) \<noteq> 1" for y using assms(1) by (simp add: asleep_def)
  with Log assms(1) show ?thesis
    by (auto simp: LogRaw_def Let_def asleep_def split: option.splits)
next
  case LoggerRuns
  with assms(1) show ?thesis by (auto simp: asleep_def logger_step_def)
qed (use assms in \<open>simp_all add: asleep_def\<close>)

lemma asleep_run:
  "asleep l \<Longrightarrow> Stop \<notin> set es \<Longrightarrow> asleep (fold log_step es l) \<and> sent (fold log_step es l) = sent l"
proof (induction es arbitrary: l)
  case (Cons e es)
  then have "asleep (log_step e l)" "sent (log_step e l) = sent l" using asleep_step by (metis list.set_intros(1))+
  with Cons show ?case by simp
qed simp

text \<open>\<^verbatim>\<open>LogRaw\<close> notifies the logger for the first object in the buffer only, and the logger goes back to sleep
  unless it finds 200: from then on it sends nothing, however many objects are logged, until it is stopped. And when
  the shutdown and the stop fall between the logger's test and its wait, they are missed: the logger never returns. (The
  condition variable is taken not to wake up without cause.)\<close>

lemma logger_misses_wakeups:
  assumes "asyncBufferEncoded l \<noteq> []" "Stop \<notin> set es"
  shows "(logPhase l = Waiting \<longrightarrow> sent (fold log_step es l) = sent l \<and> logPhase (fold log_step es l) \<in> {Deciding, Waiting})
    \<and> (logPhase l = Deciding \<longrightarrow> logPhase (fold log_step (ShutDown # Stop # es) l) \<noteq> Returned)"
proof -
  have "asleep (fold log_step es l) \<and> sent (fold log_step es l) = sent l" if "logPhase l = Waiting"
    by (rule asleep_run) (use assms that in \<open>simp_all add: asleep_def\<close>)
  moreover have "asleep (fold log_step es (log_step Stop (log_step ShutDown l)))" if "logPhase l = Deciding"
    by (rule conjunct1 [OF asleep_run])
      (use assms that in \<open>simp_all add: asleep_def StopLoggerMainLoop_def cv_notify_one_def\<close>)
  ultimately show ?thesis by (auto simp: asleep_def)
qed

text \<open>The state is reached when the logger handles the notification of the first object.\<close>

definition first_logged :: "nat log_event list" where
  "first_logged = [LoggerRuns, LoggerRuns, LoggerRuns, Log (Some ''app'') ''ns'' ''x'' 5 1, LoggerRuns, LoggerRuns]"

lemma logger_misses_wakeups_witness:
  "logPhase (fold log_step first_logged new_LogManager) = Waiting
    \<and> sent (fold log_step (replicate 300 (Log (Some ''app'') ''ns'' ''x'' 6 2)) (fold log_step first_logged new_LogManager)) = []"
proof -
  have l: "logPhase (fold log_step first_logged new_LogManager) = Waiting"
      "asyncBufferEncoded (fold log_step first_logged new_LogManager) \<noteq> []" "sent (fold log_step first_logged new_LogManager) = []"
    by (simp_all add: first_logged_def new_LogManager_def logger_step_def logger_test_def LogRaw_def Let_def cv_notify_one_def)
  from logger_misses_wakeups [OF l(2), of "replicate 300 (Log (Some ''app'') ''ns'' ''x'' 6 2)"] l show ?thesis by simp
qed

section \<open>Broadcast variables\<close>

record 'b BroadcastVariable =
  bCastKey :: string
  isCancelled :: bool
  varStream :: "'b list list"

definition new_BroadcastVariable :: "string \<Rightarrow> 'b BroadcastVariable" where
  "new_BroadcastVariable key = \<lparr>bCastKey = key, isCancelled = False, varStream = []\<rparr>"

text \<open>The data are taken up to their first zero byte, which \<open>z\<close> stands for.\<close>

definition BroadcastVariable_Append :: "'b \<Rightarrow> 'b list \<Rightarrow> 'b BroadcastVariable \<Rightarrow> 'b BroadcastVariable" where
  "BroadcastVariable_Append z data v = v\<lparr>varStream := varStream v @ [takeWhile (\<lambda>b. b \<noteq> z) data]\<rparr>"

text \<open>\<open>Get\<close> waits while there is nothing and answers with an exception entry once the variable is cancelled;
  \<open>decode\<close> is the library's decoder, which may throw.\<close>

definition BroadcastVariable_Get ::
    "('b list \<Rightarrow> 'j option) \<Rightarrow> 'j \<Rightarrow> 'b BroadcastVariable \<Rightarrow> ('j \<times> 'b BroadcastVariable) outcome" where
  "BroadcastVariable_Get decode exc v =
    (if isCancelled v then Ok (exc, v)
     else case varStream v of
       [] \<Rightarrow> Blocked
     | x # xs \<Rightarrow> (case decode x of None \<Rightarrow> Fault Uncaught | Some j \<Rightarrow> Ok (j, v\<lparr>varStream := xs\<rparr>)))"

definition BroadcastVariable_dtor :: "'b BroadcastVariable \<Rightarrow> 'b BroadcastVariable" where
  "BroadcastVariable_dtor v = v\<lparr>isCancelled := True\<rparr>"

lemma takeWhile_all: "z \<notin> set d \<Longrightarrow> takeWhile (\<lambda>b. b \<noteq> z) d = d"
  by (induction d) auto

lemma Append_Get_fifo:
  assumes "\<not> isCancelled v" "varStream v = []" "\<forall>d \<in> set ds. z \<notin> set d" "\<forall>d \<in> set ds. decode d \<noteq> None"
  shows "fold (\<lambda>d r. obind r (\<lambda>(out, w). obind (BroadcastVariable_Get decode exc w) (\<lambda>(j, w1). Ok (out @ [j], w1)))) ds
      (Ok (out, fold (BroadcastVariable_Append z) ds v)) = Ok (out @ map (the \<circ> decode) ds, v)"
proof -
  have app: "fold (BroadcastVariable_Append z) es w = w\<lparr>varStream := varStream w @ es\<rparr>"
    if "\<forall>d \<in> set es. z \<notin> set d" for es w
    using that by (induction es arbitrary: w) (auto simp: BroadcastVariable_Append_def takeWhile_all)
  have get: "fold (\<lambda>d r. obind r (\<lambda>(out, w). obind (BroadcastVariable_Get decode exc w) (\<lambda>(j, w1). Ok (out @ [j], w1)))) es
      (Ok (out, v\<lparr>varStream := es\<rparr>)) = Ok (out @ map (the \<circ> decode) es, v\<lparr>varStream := []\<rparr>)"
    if "\<forall>d \<in> set es. decode d \<noteq> None" for es out
    using that
  proof (induction es arbitrary: out)
    case (Cons e es)
    then obtain j where j: "decode e = Some j" by auto
    have "BroadcastVariable_Get decode exc (v\<lparr>varStream := e # es\<rparr>) = Ok (j, v\<lparr>varStream := es\<rparr>)"
      using j assms(1) by (simp add: BroadcastVariable_Get_def)
    with Cons j show ?case by simp
  qed simp
  have "v\<lparr>varStream := []\<rparr> = v" using assms(2) by simp
  with get [OF assms(4)] app [OF assms(3)] assms(2) show ?thesis by simp
qed

section \<open>The broadcast table\<close>

record 'b BroadcastManager =
  bCastVarStores :: "string \<rightharpoonup> (string \<rightharpoonup> 'b BroadcastVariable option)"
  nameSpaceMaxLen :: nat
  varNameMaxLen :: nat
  subscribed :: "string list"

text \<open>One pass of the constructor's loop. The two lengths are not initialised by the code: their first values are inputs.\<close>

definition add_variable :: "string option \<Rightarrow> string \<times> string \<Rightarrow> 'b BroadcastManager \<Rightarrow> 'b BroadcastManager outcome" where
  "add_variable appId nv b =
    (let (ns, v) = nv;
         b1 = (if bCastVarStores b ns = None
               then b\<lparr>bCastVarStores := (bCastVarStores b)(ns \<mapsto> Map.empty), nameSpaceMaxLen := max (length ns) (nameSpaceMaxLen b)\<rparr>
               else b);
         store = the (bCastVarStores b1 ns) in
     if store v = None
     then (case appId of
             None \<Rightarrow> Fault Uncaught
           | Some ap \<Rightarrow>
               let key = ConvertToRedisKey ap ns v in
               Ok (b1\<lparr>bCastVarStores := (bCastVarStores b1)(ns \<mapsto> store(v \<mapsto> Some (new_BroadcastVariable key))),
                     subscribed := subscribed b1 @ [key], varNameMaxLen := max (length v) (varNameMaxLen b1)\<rparr>))
     else Ok b1)"

definition new_BroadcastManager ::
    "nat \<Rightarrow> nat \<Rightarrow> string option \<Rightarrow> (string \<times> string) list \<Rightarrow> 'b BroadcastManager outcome" where
  "new_BroadcastManager n0 v0 appId variableInfo =
     each (add_variable appId) variableInfo
       \<lparr>bCastVarStores = Map.empty, nameSpaceMaxLen = n0, varNameMaxLen = v0, subscribed = []\<rparr>"

text \<open>Both subscripts insert what is missing; a missing variable is a null pointer.\<close>

definition BroadcastManager_Get ::
    "('b list \<Rightarrow> 'j option) \<Rightarrow> 'j \<Rightarrow> string \<Rightarrow> string \<Rightarrow> 'b BroadcastManager \<Rightarrow> ('j \<times> 'b BroadcastManager) outcome" where
  "BroadcastManager_Get decode exc ns v b =
    (let store = (case bCastVarStores b ns of None \<Rightarrow> Map.empty | Some s \<Rightarrow> s) in
     case (case store v of None \<Rightarrow> None | Some p \<Rightarrow> p) of
       None \<Rightarrow> Fault NullDeref
     | Some x \<Rightarrow> obind (BroadcastVariable_Get decode exc x)
         (\<lambda>(j, x1). Ok (j, b\<lparr>bCastVarStores := (bCastVarStores b)(ns \<mapsto> store(v \<mapsto> Some x1))\<rparr>)))"

subsection \<open>Reading keys back\<close>

text \<open>\<^verbatim>\<open>sscanf\<close> for literal characters and \<^verbatim>\<open>%s\<close>, which skips white space and then reads up to the next white space or
  the end of the input. A literal character must match; scanning stops at the first failure. The result lists the
  words that were read.\<close>

datatype directive = Lit char | PercentS

definition is_space :: "char \<Rightarrow> bool" where
  "is_space c \<longleftrightarrow> c \<in> {CHR 0x20, CHR 0x09, CHR 0x0A, CHR 0x0B, CHR 0x0C, CHR 0x0D}"

fun sscanf :: "directive list \<Rightarrow> string \<Rightarrow> string list" where
  "sscanf [] s = []"
| "sscanf (Lit c # ds) [] = []"
| "sscanf (Lit c # ds) (x # s) = (if x = c then sscanf ds s else [])"
| "sscanf (PercentS # ds) s =
    (let s1 = dropWhile is_space s; w = takeWhile (\<lambda>c. \<not> is_space c) s1 in
     if w = [] then [] else w # sscanf ds (drop (length w) s1))"

definition key_format :: "directive list" where
  "key_format = map Lit ''aps['' @ [PercentS] @ map Lit ''].ns['' @ [PercentS] @ map Lit ''].bcasts['' @ [PercentS] @ map Lit '']''"

text \<open>A word is written with its terminating zero into a string of fixed length, whose buffer has room for one character
  more.\<close>

definition store_word :: "nat \<Rightarrow> string \<Rightarrow> string outcome" where
  "store_word n w = (if n < length w then Fault OutOfBounds
     else Ok (w @ replicate (n - length w) (CHR 0x00)))"

definition nth_word :: "nat \<Rightarrow> nat \<Rightarrow> string list \<Rightarrow> string outcome" where
  "nth_word n i ws = (if i < length ws then store_word n (ws ! i) else Ok (replicate n (CHR 0x00)))"

definition BroadcastManager_Append ::
    "'b \<Rightarrow> string option \<Rightarrow> string \<Rightarrow> 'b list \<Rightarrow> 'b BroadcastManager \<Rightarrow> 'b BroadcastManager outcome" where
  "BroadcastManager_Append z appId key data b =
    (case appId of
       None \<Rightarrow> Ok b
     | Some ap \<Rightarrow>
         let ws = sscanf key_format (c_str key) in
         obind (nth_word (length ap) 0 ws) (\<lambda>_.
         obind (nth_word (nameSpaceMaxLen b) 1 ws) (\<lambda>ns.
         obind (nth_word (varNameMaxLen b) 2 ws) (\<lambda>v.
           case bCastVarStores b ns of
             None \<Rightarrow> Ok b
           | Some store \<Rightarrow>
               (case store v of
                  None \<Rightarrow> Ok b
                | Some None \<Rightarrow> Fault NullDeref
                | Some (Some x) \<Rightarrow>
                    Ok (b\<lparr>bCastVarStores := (bCastVarStores b)(ns \<mapsto> store(v \<mapsto> Some (BroadcastVariable_Append z data x)))\<rparr>))))))"

lemma sscanf_Lits: "sscanf (map Lit l @ ds) (l @ s) = sscanf ds s"
  by (induction l) simp_all

text \<open>A word is followed by white space or by nothing, so that no literal of the format can match after it.\<close>

lemma after_word:
  assumes "\<not> is_space c"
  shows "sscanf (Lit c # ds) (drop (length (takeWhile (\<lambda>c. \<not> is_space c) s)) s) = []"
proof -
  have "drop (length (takeWhile (\<lambda>c. \<not> is_space c) s)) s = dropWhile (\<lambda>c. \<not> is_space c) s"
    by (induction s) auto
  moreover have "sscanf (Lit c # ds) (dropWhile (\<lambda>c. \<not> is_space c) s) = []" using assms by (induction s) auto
  ultimately show ?thesis by simp
qed

lemma key_format_one: "length (sscanf key_format s) \<le> 1"
proof -
  have tl: "sscanf (Lit (CHR '']'') # ds) (drop (length (takeWhile (\<lambda>c. \<not> is_space c) t)) t) = []" for ds t
    by (rule after_word) (simp add: is_space_def)
  have one: "length (sscanf (PercentS # Lit (CHR '']'') # ds) t) \<le> 1" for ds t by (simp add: Let_def tl)
  have lits: "length (sscanf (map Lit l @ ds) t) \<le> 1" if "\<And>u. length (sscanf ds u) \<le> 1" for l ds t
    using that
  proof (induction l arbitrary: t)
    case (Cons c l)
    then show ?case by (cases t) auto
  qed simp
  show ?thesis unfolding key_format_def by (rule lits) (use one in simp)
qed

lemma c_str_id: "CHR 0x00 \<notin> set s \<Longrightarrow> c_str s = s"
  unfolding c_str_def by (rule takeWhile_all)

lemma takeWhile_ident: "(\<And>c. c \<in> set s \<Longrightarrow> P c) \<Longrightarrow> takeWhile P s = s"
  by (induction s) auto

lemma dropWhile_ident: "(\<And>c. c \<in> set s \<Longrightarrow> \<not> P c) \<Longrightarrow> dropWhile P s = s"
  by (cases s) auto

text \<open>The key of a variable, read back: the first word is everything after the opening bracket.\<close>

lemma sscanf_key:
  assumes "\<forall>c \<in> set (ap @ ns @ v). \<not> is_space c \<and> c \<noteq> CHR 0x00"
  shows "sscanf key_format (c_str (ConvertToRedisKey ap ns v)) = [ap @ ''].ns['' @ ns @ ''].bcasts['' @ v @ '']'']"
proof -
  let ?w = "ap @ ''].ns['' @ ns @ ''].bcasts['' @ v @ '']''"
  have w: "\<forall>c \<in> set ?w. \<not> is_space c \<and> c \<noteq> CHR 0x00" using assms by (auto simp: is_space_def)
  have v: "c_str v = v" using assms by (intro c_str_id) auto
  have "CHR 0x00 \<notin> set (''aps['' @ ?w)" using w by auto
  note id = c_str_id [OF this]
  have key: "c_str (ConvertToRedisKey ap ns v) = ''aps['' @ ?w"
    unfolding ConvertToRedisKey_def v id ..
  have ne: "?w \<noteq> []" by simp
  have sp: "\<not> is_space c" if "c \<in> set ?w" for c using bspec [OF w that] by (rule conjunct1)
  have tw: "takeWhile (\<lambda>c. \<not> is_space c) ?w = ?w" by (rule takeWhile_ident [OF sp])
  have dw: "dropWhile is_space ?w = ?w" by (rule dropWhile_ident [OF sp])
  have "sscanf key_format (''aps['' @ ?w)
      = sscanf (PercentS # map Lit ''].ns['' @ [PercentS] @ map Lit ''].bcasts['' @ [PercentS] @ map Lit '']'') ?w"
    unfolding key_format_def by (subst sscanf_Lits) simp
  also have "\<dots> = [?w]" unfolding sscanf.simps dw Let_def tw by simp
  finally show ?thesis unfolding key by simp
qed

text \<open>C31. A message on the key of a broadcast variable never reaches the variable. The scan of the key puts everything after the first
  bracket into the application identifier, past the end of the string that receives it; and no word is ever read for the
  namespace, so that whatever the key, a message that does no such damage changes no variable (unless a namespace
  consists of zero characters only).\<close>

theorem broadcast_not_delivered:
  "(\<forall>ap ns v. (\<forall>c \<in> set (ap @ ns @ v). \<not> is_space c \<and> c \<noteq> CHR 0x00) \<longrightarrow>
      BroadcastManager_Append z (Some ap) (ConvertToRedisKey ap ns v) data b = Fault OutOfBounds)
    \<and> (\<forall>ap key b'. bCastVarStores b (replicate (nameSpaceMaxLen b) (CHR 0x00)) = None \<longrightarrow>
         BroadcastManager_Append z ap key data b = Ok b' \<longrightarrow> b' = b)"
proof -
  have "BroadcastManager_Append z (Some ap) (ConvertToRedisKey ap ns v) data b = Fault OutOfBounds"
    if "\<forall>c \<in> set (ap @ ns @ v). \<not> is_space c \<and> c \<noteq> CHR 0x00" for ap ns v
    unfolding BroadcastManager_Append_def by (simp add: Let_def sscanf_key [OF that] nth_word_def store_word_def)
  moreover have "b' = b"
    if none: "bCastVarStores b (replicate (nameSpaceMaxLen b) (CHR 0x00)) = None"
      and ok: "BroadcastManager_Append z ap key data b = Ok b'" for ap key b'
  proof (cases ap)
    case (Some a)
    have "\<not> 1 < length (sscanf key_format (c_str key))" using key_format_one [of "c_str key"] by simp
    then have "nth_word n 1 (sscanf key_format (c_str key)) = Ok (replicate n (CHR 0x00))" for n by (simp add: nth_word_def)
    with ok Some none show ?thesis by (auto simp: BroadcastManager_Append_def Let_def)
  qed (use ok in \<open>simp add: BroadcastManager_Append_def\<close>)
  ultimately show ?thesis by blast
qed

lemma broadcast_not_delivered_witness:
  "BroadcastManager_Append 0 (Some ''app'') (ConvertToRedisKey ''app'' ''ns'' ''x'') [1 :: nat]
     \<lparr>bCastVarStores = [''ns'' \<mapsto> [''x'' \<mapsto> Some (new_BroadcastVariable ''k'')]], nameSpaceMaxLen = 2, varNameMaxLen = 1, subscribed = [''k'']\<rparr>
   = Fault OutOfBounds"
  using broadcast_not_delivered [of 0 "[1 :: nat]"] by (simp add: is_space_def)

subsection \<open>The scheduler's side\<close>

definition ConsumeOneFromBroadcastStream ::
    "('b list \<Rightarrow> 'j option) \<Rightarrow> 'j \<Rightarrow> 'j \<Rightarrow> string \<Rightarrow> string \<Rightarrow> 'b BroadcastManager option \<Rightarrow> ('j \<times> 'b BroadcastManager option) outcome" where
  "ConsumeOneFromBroadcastStream decode exc nothing ns v m =
    (case m of
       Some b \<Rightarrow> obind (BroadcastManager_Get decode exc ns v b) (\<lambda>(j, b1). Ok (j, Some b1))
     | None \<Rightarrow> Ok (nothing, None))"

definition ProduceOneToLoggingStream ::
    "string option \<Rightarrow> string \<Rightarrow> string \<Rightarrow> int \<Rightarrow> 'o \<Rightarrow> 'o LogManager option \<Rightarrow> 'o LogManager option outcome" where
  "ProduceOneToLoggingStream appId ns v now x m =
    (case m of Some l \<Rightarrow> obind (LogRaw appId ns v now x l) (\<lambda>l1. Ok (Some l1)) | None \<Rightarrow> Ok None)"

lemma add_variable_known:
  assumes "add_variable appId (ns, v) b = Ok b1"
  shows "\<exists>store x. bCastVarStores b1 ns = Some store \<and> store v = Some x"
  using assms by (auto simp: add_variable_def Let_def split: if_splits option.splits)

lemma Get_unknown_faults:
  assumes "bCastVarStores b ns = None"
  shows "BroadcastManager_Get decode exc ns v b = Fault NullDeref"
  using assms by (simp add: BroadcastManager_Get_def)

end
