(* ===== verification/Node.thy ===== *)
theory Node
  imports JData Mqtt
begin

text \<open>
  The node (\<^verbatim>\<open>include/node/node.hpp\<close>, \<^verbatim>\<open>src/node/node.cc\<close>): its options, the checks it makes at start-up and the device
  identifier it keeps in a file. Parsing the command line is Boost's; the parsed options, the file system, the process id and the
  random identifier are arguments.
\<close>

record options =
  opt_help :: bool
  opt_app :: "string option"
  opt_num :: "int option"
  opt_port :: "string option"

definition getAppId :: "options \<Rightarrow> string" where
  "getAppId vm = (case opt_app vm of Some a \<Rightarrow> a | None \<Rightarrow> ''noname-app'')"

definition getSeqNum :: "options \<Rightarrow> int" where
  "getSeqNum vm = (case opt_num vm of Some n \<Rightarrow> n | None \<Rightarrow> 0)"

definition getHostAddr :: "options \<Rightarrow> string" where
  "getHostAddr vm = (case opt_port vm of Some p \<Rightarrow> ''tcp://localhost:'' @ p | None \<Rightarrow> ''tcp://localhost:1883'')"

definition getPort :: "options \<Rightarrow> string" where
  "getPort vm = (case opt_port vm of Some p \<Rightarrow> p | None \<Rightarrow> ''1883'')"

text \<open>Files by path. \<open>seen\<close> are the answers of the file system to one check per second.\<close>

type_synonym files = "string \<rightharpoonup> string"

fun dieIfNo :: "nat \<Rightarrow> bool list \<Rightarrow> unit outcome" where
  "dieIfNo 0 seen = Fault ProcessExit"
| "dieIfNo (Suc n) [] = Blocked"
| "dieIfNo (Suc n) (True # seen) = Ok ()"
| "dieIfNo (Suc n) (False # seen) = dieIfNo n seen"

definition first_word :: "string \<Rightarrow> string" where
  "first_word s = takeWhile (\<lambda>c. \<not> is_space c) (dropWhile is_space s)"

definition generateDevId :: "string \<Rightarrow> string \<Rightarrow> files \<Rightarrow> string \<times> files" where
  "generateDevId uuid path fs =
    (case fs path of Some data \<Rightarrow> (first_word data, fs) | None \<Rightarrow> (uuid, fs(path \<mapsto> uuid)))"

definition storeProcessId :: "nat \<Rightarrow> string \<Rightarrow> files \<Rightarrow> files" where
  "storeProcessId pid path fs = fs(path \<mapsto> dec pid)"

definition devid_path :: "options \<Rightarrow> string" where
  "devid_path vm = ''./'' @ getPort vm @ ''/cdevId.'' @ int_to_string (getSeqNum vm)"

definition pid_path :: "options \<Rightarrow> string" where
  "pid_path vm = ''./'' @ getPort vm @ ''/cdevProcessId.'' @ int_to_string (getSeqNum vm)"

definition new_Node :: "options option \<Rightarrow> bool list \<Rightarrow> bool list \<Rightarrow> string \<Rightarrow> nat \<Rightarrow> files \<Rightarrow> (string \<times> files) outcome" where
  "new_Node parsed dir_seen file_seen uuid pid fs =
    (case parsed of
       None \<Rightarrow> Fault ProcessExit
     | Some vm \<Rightarrow>
         if opt_help vm then Fault ProcessExit
         else obind (dieIfNo 60 dir_seen) (\<lambda>_. obind (dieIfNo 60 file_seen) (\<lambda>_.
           case generateDevId uuid (devid_path vm) fs of (devId, fs1) \<Rightarrow>
             Ok (devId, storeProcessId pid (pid_path vm) fs1))))"

lemma dieIfNo_waits: "n < 60 \<Longrightarrow> dieIfNo 60 (replicate n False @ True # seen) = Ok ()"
proof -
  have "n < k \<Longrightarrow> dieIfNo k (replicate n False @ True # seen) = Ok ()" for k
  proof (induction n arbitrary: k)
    case 0
    then show ?case by (cases k) auto
  next
    case (Suc n)
    then show ?case by (cases k) auto
  qed
  then show "n < 60 \<Longrightarrow> dieIfNo 60 (replicate n False @ True # seen) = Ok ()" by blast
qed

lemma dieIfNo_gives_up: "dieIfNo n (replicate n False) = Fault ProcessExit"
  by (induction n) simp_all

lemma first_word_id:
  assumes "\<And>c. c \<in> set s \<Longrightarrow> \<not> is_space c"
  shows "first_word s = s"
proof -
  have d: "dropWhile is_space s = s" using assms by (induction s) auto
  have t: "takeWhile (\<lambda>c. \<not> is_space c) s = s" using assms by (induction s) auto
  show ?thesis unfolding first_word_def d t ..
qed

lemma paths_differ: "pid_path vm \<noteq> devid_path vm"
proof
  assume "pid_path vm = devid_path vm"
  then have "''/cdevProcessId.'' @ int_to_string (getSeqNum vm) = ''/cdevId.'' @ int_to_string (getSeqNum vm)"
    unfolding pid_path_def devid_path_def by (simp only: append_assoc same_append_eq)
  then show False by simp
qed

text \<open>A restarted node finds the device identifier of its first start.\<close>

lemma device_id_survives_restart:
  assumes "new_Node (Some vm) [True] [True] uuid pid fs = Ok (devId, fs1)" "fs (devid_path vm) = None"
    and "\<And>c. c \<in> set uuid \<Longrightarrow> \<not> is_space c"
  shows "\<exists>fs2. new_Node (Some vm) [True] [True] uuid' pid' fs1 = Ok (devId, fs2)"
proof -
  have one: "dieIfNo 60 [True] = Ok ()" using dieIfNo_waits [of 0 "[]"] by simp
  have h: "\<not> opt_help vm" using assms(1) by (auto simp: new_Node_def split: if_splits)
  have r: "devId = uuid" "fs1 = storeProcessId pid (pid_path vm) (fs(devid_path vm \<mapsto> uuid))"
    using assms(1,2) h by (auto simp: new_Node_def one generateDevId_def)
  then have "fs1 (devid_path vm) = Some uuid" using paths_differ [of vm] by (simp add: storeProcessId_def)
  with r(1) h show ?thesis using first_word_id [OF assms(3)]
    by (auto simp: new_Node_def one generateDevId_def)
qed

end
