(* ===== verification/Spec2Isabelle.thy ===== *)
theory Spec2Isabelle
  imports ThiefSystem Dispatch SpinLocks Channel FutureSpec RemoteCallSpec Sleep StackTask TaskLocal ThreadPool Routine Node
begin

text \<open>
  A verification library for the JAMScript cooperative scheduler: a main thread that multiplexes real-time,
  interactive and batch tasks, a set of work-stealing threads, the synchronisation objects, timers and futures that
  tasks use, and the remote executions that tasks start on other nodes.

  \<^bold>\<open>The program and its parts.\<close> A task (\<^verbatim>\<open>include/core/task/task.hpp\<close>) is a coroutine with a stack of its own or with a
  part of its scheduler's shared stack. The main scheduler (\<^verbatim>\<open>src/scheduler/scheduler.cc\<close>) runs a cyclic real-time schedule
  that the decider (\<^verbatim>\<open>src/scheduler/decider.cc\<close>) chooses, fills its gaps with interactive tasks by earliest deadline and with
  batch tasks, and hands stealable tasks to thieves (\<^verbatim>\<open>src/scheduler/taskthief.cc\<close>), which steal from
  each other. Tasks block on condition variables, with or without a timeout; the timer (\<^verbatim>\<open>src/time/time.cc\<close>) keeps the
  timeouts in a hierarchical timing wheel (\<^verbatim>\<open>src/time/timeout.c\<close>). Semaphore, mutex, wait group, channel and futures are built
  on condition variables. Remote executions (\<^verbatim>\<open>src/remote/remote.cc\<close>) exchange messages with a cloud and with fog nodes
  and answer futures or callbacks; callbacks run on a thread pool. Messages travel over MQTT (\<^verbatim>\<open>src/remote/mqtt/\<close>), logged
  and broadcast data over redis (\<^verbatim>\<open>src/remote/data.cc\<close>). A node (\<^verbatim>\<open>src/node/node.cc\<close>) reads its options and its identifier at start-up.

  \<^bold>\<open>Theories and sources.\<close>

  \<^item> \<^verbatim>\<open>Prelude\<close>: machine integers, outcomes (a value, still blocked, or a fault), the locale of
    systems with an invariant, comparators as strict weak orders, lemmas on lists and multisets.

  \<^item> \<^verbatim>\<open>Context\<close> (\<^verbatim>\<open>src/core/coroutine/context.c\<close>): byte memory, context objects and the assembly of \<^verbatim>\<open>SwapToContext\<close> as lists of
    instructions, for x86-64 and aarch64; \<^verbatim>\<open>CreateContext\<close>. Shown: a switch away and back is a call that returns,
    the first switch enters the task on an aligned stack, and the aarch64 variant loses the stack.

  \<^item> \<^verbatim>\<open>Task\<close>, \<^verbatim>\<open>StackTask\<close> (\<^verbatim>\<open>task.hpp\<close>, \<^verbatim>\<open>task.cc\<close>, \<^verbatim>\<open>stacktraits.hpp\<close>): task objects, comparison operators, handles, stack
    traits; and, as an extension of the task record, the stacks of tasks, with \<^verbatim>\<open>SwapTo\<close>, \<^verbatim>\<open>SwapFrom\<close>, \<^verbatim>\<open>Steal\<close> and the constructors
    on the machine of \<^verbatim>\<open>Context\<close>. Shown: a task that left the shared stack for the scheduler or for a task with a stack of its own
    resumes with its registers and its stack, whatever other tasks and threads did; stealing with stacks refines stealing as the schedulers
    see it; a direct switch between two tasks of the same shared stack overwrites a frame in use, if the second stack
    is longer. Whether the compiler makes the call of \<^verbatim>\<open>SwapFrom\<close> a tail call is an input (\<open>tailRegs\<close>).

  \<^item> \<^verbatim>\<open>Thief\<close>, \<^verbatim>\<open>Ready\<close>, \<^verbatim>\<open>ThiefSystem\<close> (\<^verbatim>\<open>taskthief.hpp\<close>, \<^verbatim>\<open>taskthief.cc\<close>): the queues and operations of the thieves, how tasks are
    made ready (the locale \<open>enabler\<close> with its interpretations), and the thieves as an interleaving of critical
    sections; \<^verbatim>\<open>EndTask\<close>, which takes no lock, is two steps. Shown: stealing moves tasks and loses none, no task runs on two
    threads, a task on a shared stack is not used after it was deleted; and that a task with a stack of its own can be
    deleted twice.

  \<^item> \<^verbatim>\<open>Decider\<close> (\<^verbatim>\<open>decider.hpp\<close>, \<^verbatim>\<open>decider.cc\<close>): the servability count on 64-bit words. Shown: earliest deadline first,
    independence of the tie-breaking sort, behaviour on every branch.

  \<^item> \<^verbatim>\<open>Scheduler\<close>, \<^verbatim>\<open>Dispatch\<close> (\<^verbatim>\<open>scheduler.hpp\<close>, \<^verbatim>\<open>scheduler.cc\<close>): choice and expiry of interactive and batch tasks, schedules, task
    creation, \<^verbatim>\<open>GetNextTask\<close> as a loop over sections, \<^verbatim>\<open>SwapOut\<close>, \<^verbatim>\<open>Yield\<close>, \<^verbatim>\<open>Exit\<close>, \<^verbatim>\<open>EndTask\<close>. Shown: what the dispatch loop returns and
    in which case, that no task is lost and which ones are deleted, and the faults that the code can reach. The treap of the interactive tasks
    is taken to be ordered by the priorities of the moment.

  \<^item> \<^verbatim>\<open>CondVar\<close>, \<^verbatim>\<open>Sync\<close>, \<^verbatim>\<open>Channel\<close>, \<^verbatim>\<open>SpinLocks\<close> (\<^verbatim>\<open>concurrency/\<close>): wait lists and the claim word that decides between notifier and
    timer; semaphore, mutex, wait group and channel as monitors; the spin locks as interleavings of atomic accesses.
    Shown: each waiter is woken once, exclusion, order of channel elements, and a deadlock of the channel.

  \<^item> \<^verbatim>\<open>Wheel\<close>, \<^verbatim>\<open>WheelBits\<close>, \<^verbatim>\<open>WheelSafe\<close>, \<^verbatim>\<open>WheelSpec\<close>, \<^verbatim>\<open>TimerSystem\<close>, \<^verbatim>\<open>Sleep\<close> (\<^verbatim>\<open>time/\<close>): the timing wheel on words and bitmaps, its
    invariant, and its refinement of an abstract timer (a map of waiting timeouts and a set of due ones); the timer on top of
    it. Shown: the refinement, the wheel's own consistency check, that a round of the timer thread ends and
    wakes exactly the due tasks, and that a sleeping task is woken on time whatever other tasks do.

  \<^item> \<^verbatim>\<open>Future\<close>, \<^verbatim>\<open>FutureSpec\<close> (\<^verbatim>\<open>future.hpp\<close>): shared states, promises, continuations, timeouts, \<^verbatim>\<open>when_all\<close> and \<^verbatim>\<open>when_any\<close> as a store of
    states on which threads interleave. Shown: one call per callback, chains as programs in the exception monad, the
    combinators and the timeout under every order of completion.

  \<^item> \<^verbatim>\<open>Remote\<close>, \<^verbatim>\<open>RemoteCall\<close>, \<^verbatim>\<open>RemoteSafe\<close>, \<^verbatim>\<open>RemoteSystem\<close>, \<^verbatim>\<open>RemoteCallSpec\<close> (\<^verbatim>\<open>remote.hpp\<close>, \<^verbatim>\<open>remote.cc\<close>): connections, messages, expiry,
    the retry loops of asynchronous and synchronous requests. Shown: only open connections are used,
    losing one answers the requests entered in its pending set, at most three packets, callbacks at most once. The deletion of an
    adapter is taken to return; a message task that outlives its connection is shown to read a dangling pointer.

  \<^item> \<^verbatim>\<open>TaskLocal\<close> (\<^verbatim>\<open>tasklocal.hpp\<close>, \<^verbatim>\<open>tasklocal.cc\<close>) and \<^verbatim>\<open>ThreadPool\<close> (\<^verbatim>\<open>threadpool.hpp\<close>): task-local storage with its dynamic types, and the
    callback threads. Shown: no cast fails, tasks do not see each other's values; shutting the pool down runs
    everything that was accepted and ends, by its notifications and not by spurious wake-ups.

  \<^item> \<^verbatim>\<open>Mqtt\<close> (\<^verbatim>\<open>src/remote/mqtt/\<close>) and \<^verbatim>\<open>Routine\<close> (\<^verbatim>\<open>RExecDetails\<close> in \<^verbatim>\<open>remote.hpp\<close>, the call tables of \<^verbatim>\<open>scheduler.hpp\<close>): byte buffers as
    blocks of a heap with their JSON serialisers, the MQTT adapter as a state machine with the calls it makes to the
    client library, and the invocation of registered functions with the ownership of their arguments. Shown: what is
    written to JSON is read back, topics are subscribed to when the connection comes up, an invocation of a
    well-behaved function releases what it allocated; and what happens after a refused send, an exception, or a result that is also an
    argument.

  \<^item> \<^verbatim>\<open>JData\<close> (\<^verbatim>\<open>data.hpp\<close>, \<^verbatim>\<open>data.cc\<close>) and \<^verbatim>\<open>Node\<close> (\<^verbatim>\<open>node.hpp\<close>, \<^verbatim>\<open>node.cc\<close>): the logger thread step by step with its buffer, broadcast
    variables and their table with the scan of keys; the options and the start-up of a node on a map of files. Shown: the
    logger issues the commands for all objects in order, when it is not woken up, that broadcast messages are not
    delivered, and that a node keeps its identifier over a restart.

  \<^bold>\<open>Modelling choices.\<close> A critical section is one step; code between two of them is a function of the state. A routine that
  blocks is split at its switch. Undefined behaviour, failed assertions and escaping exceptions are values of the type
  \<open>fault\<close>. Clock readings, random numbers, the order of equal elements in a sort, the choice among equal
  queue positions, replies of other nodes and the success of allocations are arguments: lists of inputs for loops, which
  report \<open>Blocked\<close> when the list ends. So no loop needs fuel; the loop of the timer thread is a
  \<open>partial_function\<close> and is proved to end. Fixed-width integers are words where their width matters; time points are
  integers. User functions, MQTT, JSON, CBOR, \<^verbatim>\<open>std::sort\<close> and \<^verbatim>\<open>rand\<close> are parameters.

  \<^bold>\<open>Not modelled.\<close> Memory orders of atomic accesses (every access is sequentially consistent); the two
  allocators and \<^verbatim>\<open>valgrind\<close> hooks; thread start-up and pinning; the parsing of the command line, which is Boost's; the
  calls of redis and libevent, which are the environment of the logger and the broadcast table; the printing of byte buffers;
  the example programs under \<^verbatim>\<open>app/\<close>, which only call the library.
\<close>

end
